(* ===== verification/Prelude.thy ===== *)
theory Prelude
  imports Main "HOL-Library.Monad_Syntax"
begin

section \<open>Shared notions: results, panics, slices of Vec and small list facts\<close>

text \<open>
  Everything the component theories share and that is about no component.
  \<^item> A Rust \<open>Result<T, E>\<close> is the sum \<open>'e + 't\<close>: \<^term>\<open>Inl\<close> is \<open>Err\<close>, \<^term>\<open>Inr\<close> is \<open>Ok\<close>.
    \<open>try_res\<close> is the \<open>?\<close> operator.
  \<^item> A panic (index out of range, division by zero) is \<^term>\<open>None\<close> of an \<open>option\<close>;
    the monad notation of the library chains such steps.
  \<^item> \<open>position\<close> and \<open>windows2\<close> are \<open>Iterator::position\<close> and
    \<open>slice::windows(2)\<close>, which several crates use.
  The fact collections declared here are filled by the component theories:
  \<open>wf_intros\<close> holds the preservation lemmas of the well-formedness invariants, and
  \<open>frame_simps\<close> the equations that say which fields an operation leaves alone.
\<close>

named_theorems wf_intros \<open>preservation of the well-formedness invariants\<close>
named_theorems frame_simps \<open>fields an operation leaves alone\<close>

subsection \<open>Results\<close>

type_synonym ('t, 'e) result = "'e + 't"

definition try_res :: "'e + 'a \<Rightarrow> ('a \<Rightarrow> 'e + 'b) \<Rightarrow> 'e + 'b" where
  "try_res r k = (case r of Inl e \<Rightarrow> Inl e | Inr x \<Rightarrow> k x)"

lemma try_res_simps [simp]:
  "try_res (Inl e) k = Inl e"
  "try_res (Inr x) k = k x"
  by (simp_all add: try_res_def)

lemma try_res_Inr_iff: "try_res r k = Inr y \<longleftrightarrow> (\<exists>x. r = Inr x \<and> k x = Inr y)"
  by (cases r) auto

lemma try_res_Inl_iff:
  "try_res r k = Inl e \<longleftrightarrow> r = Inl e \<or> (\<exists>x. r = Inr x \<and> k x = Inl e)"
  by (cases r) auto

definition is_ok :: "'e + 'a \<Rightarrow> bool" where
  "is_ok r = (case r of Inl _ \<Rightarrow> False | Inr _ \<Rightarrow> True)"

lemma option_bind_Some_iff: "Option.bind x f = Some y \<longleftrightarrow> (\<exists>a. x = Some a \<and> f a = Some y)"
  by (cases x) auto

lemma is_ok_simps [simp]: "\<not> is_ok (Inl e)" "is_ok (Inr x)"
  by (simp_all add: is_ok_def)

lemma is_ok_iff: "is_ok r \<longleftrightarrow> (\<exists>x. r = Inr x)"
  by (cases r) auto

subsection \<open>Iterators and slices\<close>

fun position :: "('a \<Rightarrow> bool) \<Rightarrow> 'a list \<Rightarrow> nat option" where
  "position p [] = None"
| "position p (x # xs) = (if p x then Some 0 else map_option Suc (position p xs))"

lemma position_None_iff: "position p xs = None \<longleftrightarrow> (\<forall>x \<in> set xs. \<not> p x)"
  by (induction xs) auto

lemma position_Some_iff:
  "position p xs = Some i \<longleftrightarrow> i < length xs \<and> p (xs ! i) \<and> (\<forall>j < i. \<not> p (xs ! j))"
proof (induction xs arbitrary: i)
  case (Cons x xs)
  show ?case
  proof (cases i)
    case 0
    then show ?thesis by auto
  next
    case (Suc k)
    then show ?thesis using Cons.IH [of k] by (auto simp: less_Suc_eq_0_disj)
  qed
qed simp

lemma all_nat_split_0: "(\<forall>i. P i) \<longleftrightarrow> P 0 \<and> (\<forall>i. P (Suc i))"
  by (metis not0_implies_Suc)

fun windows2 :: "'a list \<Rightarrow> ('a \<times> 'a) list" where
  "windows2 (x # y # zs) = (x, y) # windows2 (y # zs)"
| "windows2 _ = []"

lemma windows2_zip: "windows2 xs = zip xs (tl xs)"
  by (induction xs rule: windows2.induct) auto

lemma windows2_conv_nth:
  "(\<forall>(a, b) \<in> set (windows2 xs). R a b) \<longleftrightarrow> (\<forall>i. Suc i < length xs \<longrightarrow> R (xs ! i) (xs ! Suc i))"
proof (induction xs rule: windows2.induct)
  case (1 x y zs)
  have "(\<forall>i. Suc i < length (x # y # zs) \<longrightarrow> R ((x # y # zs) ! i) ((x # y # zs) ! Suc i)) \<longleftrightarrow>
      R x y \<and> (\<forall>i. Suc i < length (y # zs) \<longrightarrow> R ((y # zs) ! i) ((y # zs) ! Suc i))"
    by (subst all_nat_split_0) simp
  with "1.IH" show ?case by simp
qed auto

lemma windows2_append:
  "windows2 (xs @ [y]) = windows2 xs @ (if xs = [] then [] else [(last xs, y)])"
  by (induction xs rule: windows2.induct) auto

lemma last_conv_nth_0: "xs \<noteq> [] \<Longrightarrow> hd xs = xs ! 0"
  by (cases xs) auto

subsection \<open>Runs and folds\<close>

text \<open>A run of operations on a state, collecting what each call returns.\<close>

fun run_ops :: "('s \<Rightarrow> 'op \<Rightarrow> 'v \<times> 's) \<Rightarrow> 's \<Rightarrow> 'op list \<Rightarrow> 'v list \<times> 's" where
  "run_ops step s [] = ([], s)"
| "run_ops step s (op # ops) =
     (let (v, s') = step s op; (vs, s'') = run_ops step s' ops in (v # vs, s''))"

lemma run_ops_append:
  "run_ops step s (xs @ ys) =
    (let (vs, s') = run_ops step s xs; (ws, s'') = run_ops step s' ys in (vs @ ws, s''))"
  by (induction xs arbitrary: s) (auto simp: Let_def split: prod.splits)

lemma snd_run_ops_Cons: "snd (run_ops step s (op # ops)) = snd (run_ops step (snd (step s op)) ops)"
  by (simp add: Let_def split: prod.splits)

lemma snd_run_ops_snoc: "snd (run_ops step s (ops @ [op])) = snd (step (snd (run_ops step s ops)) op)"
proof (induction ops arbitrary: s)
  case Nil
  show ?case by (simp split: prod.splits)
next
  case (Cons a ops)
  show ?case by (simp only: append_Cons snd_run_ops_Cons Cons.IH)
qed

lemma run_ops_invariant:
  assumes "\<And>s op. P s \<Longrightarrow> P (snd (step s op))" and "P s"
  shows "P (snd (run_ops step s ops))"
  using assms(2)
  by (induction ops arbitrary: s) (simp_all add: assms(1) snd_run_ops_Cons del: run_ops.simps(2))

lemma fold_invariant: "P s \<Longrightarrow> (\<And>x s. x \<in> set xs \<Longrightarrow> P s \<Longrightarrow> P (f x s)) \<Longrightarrow> P (fold f xs s)"
  by (induction xs arbitrary: s) auto

lemma foldl_invariant:
  "P s \<Longrightarrow> (\<And>x s. x \<in> set xs \<Longrightarrow> P s \<Longrightarrow> P (f s x)) \<Longrightarrow> P (foldl f s xs)"
  by (induction xs arbitrary: s) auto

lemma sum_list_pos_iff_nat: "0 < sum_list (xs :: nat list) \<longleftrightarrow> (\<exists>x \<in> set xs. 0 < x)"
  by (induction xs) auto

lemma sum_list_le_member: "x \<in> set xs \<Longrightarrow> x \<le> sum_list (xs :: nat list)"
  by (induction xs) auto

end
