(* ===== verification/Rust_Int.thy ===== *)
theory Rust_Int
  imports Prelude "HOL-Library.Word" "HOL-Library.Signed_Division"
begin

unbundle bit_operations_syntax

section \<open>Rust's machine integers\<close>

text \<open>
  The unsigned types are words of the library: \<open>+\<close>, \<open>-\<close>, \<open>*\<close> wrap, the
  order is the unsigned one. The signed types are integers with the wrap-around written
  out, so that the signed order of prices is the order of \<^typ>\<open>int\<close>: \<^term>\<open>wrap_i64\<close> reduces to
  two's complement, and every \<open>i64\<close> operation of the code is one of \<open>i64_add\<close>,
  \<open>i64_sub\<close>, \<open>i64_mul\<close>, \<open>i64_quot\<close> here. This is the arithmetic of the release
  build (the README runs the node with \<^verbatim>\<open>cargo run --release\<close>), where \<open>+ - *\<close> wrap
  silently. A division by zero and the one overflowing quotient panic in every build:
  \<open>i64_div\<close> and \<open>u64_div\<close> return \<^term>\<open>None\<close> there. \<open>i64_quot\<close> is for a
  divisor that is a nonzero literal other than \<open>-1\<close>.
\<close>

type_synonym u8 = "8 word"
type_synonym u32 = "32 word"
type_synonym u64 = "64 word"
type_synonym usize = "64 word"
type_synonym i64 = int
type_synonym i128 = int

definition in_i64 :: "int \<Rightarrow> bool" where
  "in_i64 x \<longleftrightarrow> - (2 ^ 63) \<le> x \<and> x < 2 ^ 63"

definition wrap_i64 :: "int \<Rightarrow> i64" where
  "wrap_i64 x = (x + 2 ^ 63) mod 2 ^ 64 - 2 ^ 63"

definition in_i128 :: "int \<Rightarrow> bool" where
  "in_i128 x \<longleftrightarrow> - (2 ^ 127) \<le> x \<and> x < 2 ^ 127"

definition wrap_i128 :: "int \<Rightarrow> i128" where
  "wrap_i128 x = (x + 2 ^ 127) mod 2 ^ 128 - 2 ^ 127"

definition i64_add :: "i64 \<Rightarrow> i64 \<Rightarrow> i64" where
  "i64_add a b = wrap_i64 (a + b)"

definition i64_sub :: "i64 \<Rightarrow> i64 \<Rightarrow> i64" where
  "i64_sub a b = wrap_i64 (a - b)"

definition i64_mul :: "i64 \<Rightarrow> i64 \<Rightarrow> i64" where
  "i64_mul a b = wrap_i64 (a * b)"

definition i64_quot :: "i64 \<Rightarrow> i64 \<Rightarrow> i64" where
  "i64_quot a b = a sdiv b"

definition i64_div :: "i64 \<Rightarrow> i64 \<Rightarrow> i64 option" where
  "i64_div a b = (if b = 0 \<or> (a = - (2 ^ 63) \<and> b = -1) then None else Some (a sdiv b))"

definition i128_add :: "i128 \<Rightarrow> i128 \<Rightarrow> i128" where
  "i128_add a b = wrap_i128 (a + b)"

definition i128_sub :: "i128 \<Rightarrow> i128 \<Rightarrow> i128" where
  "i128_sub a b = wrap_i128 (a - b)"

definition i128_mul :: "i128 \<Rightarrow> i128 \<Rightarrow> i128" where
  "i128_mul a b = wrap_i128 (a * b)"

text \<open>\<open>i128\<close> quotient with a divisor that has been tested to be nonzero. The one overflowing case,
  the least value by \<open>-1\<close>, panics.\<close>

definition i128_div :: "i128 \<Rightarrow> i128 \<Rightarrow> i128 option" where
  "i128_div a b = (if b = 0 \<or> (a = - (2 ^ 127) \<and> b = -1) then None else Some (a sdiv b))"

definition u64_div :: "u64 \<Rightarrow> u64 \<Rightarrow> u64 option" where
  "u64_div a b = (if b = 0 then None else Some (a div b))"

text \<open>The casts \<open>u64 as i64\<close>, \<open>i64 as u64\<close>, \<open>i64::unsigned_abs\<close> and \<open>i64::abs\<close>.\<close>

definition u64_as_i64 :: "u64 \<Rightarrow> i64" where
  "u64_as_i64 w = sint w"

definition i64_as_u64 :: "i64 \<Rightarrow> u64" where
  "i64_as_u64 x = word_of_int x"

definition i64_unsigned_abs :: "i64 \<Rightarrow> u64" where
  "i64_unsigned_abs x = word_of_int \<bar>x\<bar>"

definition i64_abs :: "i64 \<Rightarrow> i64" where
  "i64_abs x = wrap_i64 \<bar>x\<bar>"

definition u64_saturating_sub :: "u64 \<Rightarrow> u64 \<Rightarrow> u64" where
  "u64_saturating_sub a b = (if b \<le> a then a - b else 0)"

text \<open>\<open>Iterator::sum\<close> over \<open>u64\<close>: a wrapping sum.\<close>

definition u64_sum :: "u64 list \<Rightarrow> u64" where
  "u64_sum ws = sum_list ws"

abbreviation total :: "u64 list \<Rightarrow> nat" where
  "total ws \<equiv> sum_list (map unat ws)"

named_theorems rust_int \<open>definitions of the machine-integer operations\<close>

declare i64_add_def [rust_int] i64_sub_def [rust_int] i64_mul_def [rust_int]
  i64_quot_def [rust_int] i64_div_def [rust_int] u64_div_def [rust_int]

text \<open>Quantities are read as natural numbers throughout, also inside \<^term>\<open>int\<close>.\<close>

declare of_nat_unat [simp del]

subsection \<open>Signed integers\<close>

lemma wrap_i64_id [simp]: "in_i64 x \<Longrightarrow> wrap_i64 x = x"
  by (simp add: in_i64_def wrap_i64_def)

lemma in_i64_wrap [simp]: "in_i64 (wrap_i64 x)"
  by (simp add: in_i64_def wrap_i64_def)

lemma in_i64_nonneg: "0 \<le> x \<Longrightarrow> x < 2 ^ 63 \<Longrightarrow> in_i64 x"
  by (simp add: in_i64_def)

lemma in_i64_absI: "\<bar>x\<bar> < 2 ^ 63 \<Longrightarrow> in_i64 x"
  by (simp add: in_i64_def abs_less_iff)

lemma wrap_i128_id [simp]: "in_i128 x \<Longrightarrow> wrap_i128 x = x"
  by (simp add: in_i128_def wrap_i128_def)

lemma in_i128_absI: "\<bar>x\<bar> < 2 ^ 127 \<Longrightarrow> in_i128 x"
  by (simp add: in_i128_def abs_less_iff)

lemma i128_exact:
  "\<bar>a + b\<bar> < 2 ^ 127 \<Longrightarrow> i128_add a b = a + b"
  "\<bar>a - b\<bar> < 2 ^ 127 \<Longrightarrow> i128_sub a b = a - b"
  "\<bar>a * b\<bar> < 2 ^ 127 \<Longrightarrow> i128_mul a b = a * b"
  by (simp_all add: i128_add_def i128_sub_def i128_mul_def in_i128_absI)

lemma in_i64_add [simp]: "in_i64 (i64_add a b)"
  and in_i64_sub [simp]: "in_i64 (i64_sub a b)"
  and in_i64_mul [simp]: "in_i64 (i64_mul a b)"
  by (simp_all add: rust_int)

lemma i64_add_exact: "in_i64 (a + b) \<Longrightarrow> i64_add a b = a + b"
  and i64_sub_exact: "in_i64 (a - b) \<Longrightarrow> i64_sub a b = a - b"
  and i64_mul_exact: "in_i64 (a * b) \<Longrightarrow> i64_mul a b = a * b"
  by (simp_all add: rust_int)

lemma wrap_i64_cong: "x mod 2 ^ 64 = y mod 2 ^ 64 \<Longrightarrow> wrap_i64 x = wrap_i64 y"
  unfolding wrap_i64_def by (metis mod_add_left_eq)

lemma wrap_i64_mod: "wrap_i64 x mod 2 ^ 64 = x mod 2 ^ 64"
  unfolding wrap_i64_def by (simp add: mod_diff_left_eq)

lemma u64_as_i64_mod: "u64_as_i64 w mod 2 ^ 64 = int (unat w) mod 2 ^ 64"
proof -
  have "take_bit 64 (sint w) = take_bit 64 (uint w)"
    by (simp add: sint_uint take_bit_signed_take_bit)
  then show ?thesis by (simp add: u64_as_i64_def take_bit_eq_mod uint_nat)
qed

lemma sdiv_nonneg: "0 \<le> a \<Longrightarrow> 0 < b \<Longrightarrow> a sdiv b = a div (b :: int)"
  by (cases "a = 0") (auto simp: signed_divide_int_def sgn_if)

lemma sdiv_neg: "a < 0 \<Longrightarrow> 0 < b \<Longrightarrow> a sdiv b = - ((- a) div (b :: int))"
  by (auto simp: signed_divide_int_def sgn_if)

lemma abs_sdiv_le: "\<bar>a sdiv b\<bar> \<le> \<bar>a :: int\<bar>"
proof (cases "b = 0")
  case False
  have "\<bar>a\<bar> div \<bar>b\<bar> \<le> \<bar>a\<bar>"
    using False zdiv_mono2 [of "\<bar>a\<bar>" 1 "\<bar>b\<bar>"] by simp
  with False show ?thesis
    by (auto simp: signed_divide_int_def abs_mult sgn_if pos_imp_zdiv_nonneg_iff)
qed (simp add: signed_divide_int_def)

lemma in_i64_u64 [simp]: "in_i64 (u64_as_i64 w)"
  using sint_greater_eq [of w] sint_less [of w] by (simp add: in_i64_def u64_as_i64_def)

lemma u64_as_i64_small: "unat w < 2 ^ 63 \<Longrightarrow> u64_as_i64 w = int (unat w)"
proof -
  assume "unat w < 2 ^ 63"
  then have "uint w < 2 ^ 63"
    by (metis of_nat_less_numeral_power_cancel_iff of_nat_unat)
  then show ?thesis
    by (simp add: u64_as_i64_def sint_uint signed_take_bit_int_eq_self order_trans [of _ 0] of_nat_unat)
qed

lemma unat_of_nat_u64: "n < 2 ^ 64 \<Longrightarrow> unat (of_nat n :: u64) = n"
  by (simp only: unat_of_nat) simp

lemma unat_u64_sum: "total ws < 2 ^ 64 \<Longrightarrow> unat (u64_sum ws) = total ws"
proof (induction ws)
  case (Cons w ws)
  then have "unat (u64_sum ws) = total ws" by simp
  with Cons.prems show ?case by (simp add: u64_sum_def unat_word_ariths)
qed (simp add: u64_sum_def)

text \<open>The number of binary digits, what \<open>leading_zeros\<close> leaves.\<close>

fun bit_length :: "nat \<Rightarrow> nat" where
  "bit_length n = (if n = 0 then 0 else Suc (bit_length (n div 2)))"

declare bit_length.simps [simp del]

lemma bit_length_bounds: "0 < n \<Longrightarrow> 2 ^ (bit_length n - 1) \<le> n \<and> n < 2 ^ bit_length n"
proof (induction n rule: bit_length.induct)
  case (1 n)
  show ?case
  proof (cases "n = 1")
    case True
    then show ?thesis by (simp add: bit_length.simps)
  next
    case False
    with "1.prems" have "0 < n div 2" by simp
    with "1.IH" "1.prems" have ih: "2 ^ (bit_length (n div 2) - 1) \<le> n div 2"
      "n div 2 < 2 ^ bit_length (n div 2)" by auto
    have "0 < bit_length (n div 2)"
      using \<open>0 < n div 2\<close> by (subst bit_length.simps) simp
    then obtain j where j: "bit_length (n div 2) = Suc j"
      using gr0_implies_Suc by blast
    have "bit_length n = Suc (Suc j)"
      using "1.prems" j by (subst bit_length.simps) simp
    with ih j show ?thesis by auto
  qed
qed

lemma total_filter_le: "total (map f (filter P xs)) \<le> total (map f xs)"
  by (induction xs) auto

lemma sdiv_between:
  assumes "0 < n" and "int n * lo \<le> c" and "c \<le> int n * hi"
  shows "lo \<le> c sdiv int n \<and> c sdiv int n \<le> hi"
proof (cases "0 \<le> c")
  case True
  then have "c sdiv int n = c div int n" using assms(1) by (simp add: sdiv_nonneg)
  moreover have "lo \<le> c div int n"
    using assms(1,2) by (metis nonzero_mult_div_cancel_left of_nat_0_less_iff order_less_irrefl zdiv_mono1)
  moreover have "c div int n \<le> hi"
    using assms(1,3) by (metis nonzero_mult_div_cancel_left of_nat_0_less_iff order_less_irrefl zdiv_mono1)
  ultimately show ?thesis by simp
next
  case False
  then have s: "c sdiv int n = - ((- c) div int n)" using assms(1) by (simp add: sdiv_neg)
  have "(- c) div int n \<le> - lo"
    using assms(1,2) by (metis le_imp_neg_le minus_mult_right nonzero_mult_div_cancel_left
        of_nat_0_less_iff order_less_irrefl zdiv_mono1)
  moreover have "- hi \<le> (- c) div int n"
    using assms(1,3) by (metis le_imp_neg_le minus_mult_right nonzero_mult_div_cancel_left
        of_nat_0_less_iff order_less_irrefl zdiv_mono1)
  ultimately show ?thesis by (simp add: s)
qed

end
