(* ===== verification/Containers.thy ===== *)
theory Containers
  imports Rust_Int "HOL-Library.AList" "HOL-Library.Multiset"
begin

section \<open>The maps of Rust's standard library\<close>

text \<open>
  \<open>BTreeMap\<close> is a list of key-value pairs in strictly ascending key order (its iteration
  order); \<open>HashMap\<close> is an association list with distinct keys whose order is the
  iteration order, about which the standard library promises nothing. Code that iterates a
  \<open>HashMap\<close> is modelled on the list, and \<open>hm_eq\<close> relates two lists that hold the
  same entries in different orders: a result that is the same for \<open>hm_eq\<close> maps does not
  depend on the hash seed.

  What the clients rely on is stated once, as the locale \<open>dict\<close> (lookup after insert
  and remove) and its extension \<open>ordered_dict\<close> (iteration in key order), and both map
  models are interpretations of it.
\<close>

subsection \<open>The interfaces\<close>

locale dict =
  fixes empty :: "'m"
    and get :: "'m \<Rightarrow> 'k \<Rightarrow> 'v option"
    and ins :: "'k \<Rightarrow> 'v \<Rightarrow> 'm \<Rightarrow> 'm"
    and rem :: "'k \<Rightarrow> 'm \<Rightarrow> 'm"
    and ok :: "'m \<Rightarrow> bool"
  assumes get_empty: "get empty k = None"
    and get_ins: "ok m \<Longrightarrow> get (ins k v m) = (get m)(k := Some v)"
    and get_rem: "ok m \<Longrightarrow> get (rem k m) = (get m)(k := None)"
    and ok_empty: "ok empty"
    and ok_ins: "ok m \<Longrightarrow> ok (ins k v m)"
    and ok_rem: "ok m \<Longrightarrow> ok (rem k m)"
begin

text \<open>
  A client that writes a batch of cells: \<open>upd (k, Some v)\<close> stores, \<open>upd (k, None)\<close>
  deletes. The last write to a key decides, keys that are not written keep their value.
\<close>

lemma batch_ok:
  assumes "ok m"
  shows "ok (fold (\<lambda>(k, c) m. case c of None \<Rightarrow> rem k m | Some v \<Rightarrow> ins k v m) us m)"
  using assms by (induction us arbitrary: m) (auto split: option.splits simp: ok_ins ok_rem)

lemma batch_get:
  assumes "ok m"
  shows "get (fold (\<lambda>(k, c) m. case c of None \<Rightarrow> rem k m | Some v \<Rightarrow> ins k v m) us m) x =
    (case map_of (rev us) x of None \<Rightarrow> get m x | Some c \<Rightarrow> c)"
  using assms
proof (induction us rule: rev_induct)
  case (snoc u us)
  have "ok (fold (\<lambda>(k, c) m. case c of None \<Rightarrow> rem k m | Some v \<Rightarrow> ins k v m) us m)"
    by (rule batch_ok) fact
  with snoc show ?case
    by (cases u) (auto split: option.splits simp: get_ins get_rem)
qed simp

end

locale ordered_dict = dict empty get ins rem ok
  for empty :: "'m"
    and get :: "'m \<Rightarrow> 'k::linorder \<Rightarrow> 'v option"
    and ins rem ok +
  fixes entries :: "'m \<Rightarrow> ('k \<times> 'v) list"
  assumes ascending: "ok m \<Longrightarrow> sorted_wrt (<) (map fst (entries m))"
    and get_entries: "ok m \<Longrightarrow> get m = map_of (entries m)"
begin

lemma distinct_entries: "ok m \<Longrightarrow> distinct (map fst (entries m))"
  using ascending strict_sorted_iff by blast

lemma get_iff: "ok m \<Longrightarrow> get m k = Some v \<longleftrightarrow> (k, v) \<in> set (entries m)"
  by (simp add: get_entries distinct_entries)

lemma first_is_least:
  assumes "ok m" and "entries m = (k, v) # rest" and "get m k' = Some v'"
  shows "k \<le> k'"
proof -
  have "(k', v') \<in> set (entries m)"
    using assms(1,3) by (simp add: get_iff)
  then show ?thesis
    using assms(2) ascending [OF assms(1)] by (auto simp: less_imp_le)
qed

lemma last_is_greatest:
  assumes "ok m" and "entries m = init @ [(k, v)]" and "get m k' = Some v'"
  shows "k' \<le> k"
proof -
  have "(k', v') \<in> set (entries m)"
    using assms(1,3) by (simp add: get_iff)
  then show ?thesis
    using assms(2) ascending [OF assms(1)] by (auto simp: sorted_wrt_append less_imp_le)
qed

lemma empty_iff: "ok m \<Longrightarrow> entries m = [] \<longleftrightarrow> (\<forall>k. get m k = None)"
  by (cases "entries m") (auto simp: get_entries)

end

subsection \<open>BTreeMap\<close>

type_synonym ('k, 'v) btree = "('k \<times> 'v) list"

fun bt_insert :: "'k::linorder \<Rightarrow> 'v \<Rightarrow> ('k, 'v) btree \<Rightarrow> ('k, 'v) btree" where
  "bt_insert k v [] = [(k, v)]"
| "bt_insert k v (e # m) =
     (if fst e < k then e # bt_insert k v m
      else if fst e = k then (k, v) # m
      else (k, v) # e # m)"

definition bt_remove :: "'k \<Rightarrow> ('k, 'v) btree \<Rightarrow> ('k, 'v) btree" where
  "bt_remove k m = filter (\<lambda>e. fst e \<noteq> k) m"

definition bt_get :: "('k, 'v) btree \<Rightarrow> 'k \<Rightarrow> 'v option" where
  "bt_get m k = map_of m k"

definition bt_keys :: "('k, 'v) btree \<Rightarrow> 'k list" where
  "bt_keys m = map fst m"

definition bt_first :: "('k, 'v) btree \<Rightarrow> ('k \<times> 'v) option" where
  "bt_first m = (case m of [] \<Rightarrow> None | e # _ \<Rightarrow> Some e)"

definition bt_last :: "('k, 'v) btree \<Rightarrow> ('k \<times> 'v) option" where
  "bt_last m = (if m = [] then None else Some (last m))"

definition bt_wf :: "('k::linorder, 'v) btree \<Rightarrow> bool" where
  "bt_wf m \<longleftrightarrow> sorted_wrt (<) (map fst m)"

lemma set_bt_insert: "bt_wf m \<Longrightarrow> set (bt_insert k v m) = {(k, v)} \<union> {e \<in> set m. fst e \<noteq> k}"
  by (induction m) (auto simp: bt_wf_def)

lemma bt_wf_insert [simp, wf_intros]: "bt_wf m \<Longrightarrow> bt_wf (bt_insert k v m)"
  by (induction m) (auto simp: bt_wf_def set_bt_insert [unfolded bt_wf_def])

lemma bt_wf_remove [simp, wf_intros]: "bt_wf m \<Longrightarrow> bt_wf (bt_remove k m)"
  unfolding bt_wf_def bt_remove_def
  by (induction m) auto

lemma bt_wf_Nil [simp, wf_intros]: "bt_wf []"
  by (simp add: bt_wf_def)

lemma bt_wf_Cons: "bt_wf (e # m) \<longleftrightarrow> (\<forall>e' \<in> set m. fst e < fst e') \<and> bt_wf m"
  by (auto simp: bt_wf_def)

lemma bt_wf_distinct: "bt_wf m \<Longrightarrow> distinct (map fst m)"
  by (simp add: bt_wf_def strict_sorted_iff)

lemma bt_get_insert: "bt_wf m \<Longrightarrow> bt_get (bt_insert k v m) = (bt_get m)(k := Some v)"
  by (induction m) (auto simp: bt_get_def bt_wf_Cons fun_eq_iff)

lemma bt_get_remove: "bt_get (bt_remove k m) = (bt_get m)(k := None)"
  by (induction m) (auto simp: bt_get_def bt_remove_def fun_eq_iff)

interpretation bt: ordered_dict "[]" bt_get bt_insert bt_remove bt_wf "\<lambda>m. m"
proof unfold_locales
  show "bt_get m = map_of m" for m :: "('a, 'b) btree"
    by (simp add: bt_get_def fun_eq_iff)
  show "bt_get [] k = None" for k
    by (simp add: bt_get_def)
qed (simp_all add: bt_get_insert bt_get_remove, simp add: bt_wf_def)

text \<open>Two ordered maps with the same lookups are equal: the list is canonical.\<close>

lemma bt_extensional:
  assumes "bt_wf m1" and "bt_wf m2" and "bt_get m1 = bt_get m2"
  shows "m1 = m2"
proof (rule map_sorted_distinct_set_unique [where f = fst])
  have eq: "map_of m1 = map_of m2"
    using assms(3) by (simp add: bt_get_def fun_eq_iff)
  show "set m1 = set m2"
    using eq assms(1,2) by (simp add: bt_wf_distinct map_of_inject_set)
  show "inj_on fst (set m1 \<union> set m2)"
    using \<open>set m1 = set m2\<close> assms(1) by (metis Un_absorb bt_wf_distinct distinct_map)
qed (use assms in \<open>auto simp: bt_wf_def strict_sorted_iff\<close>)

subsection \<open>HashMap\<close>

type_synonym ('k, 'v) hashmap = "('k \<times> 'v) list"

definition hm_get :: "('k, 'v) hashmap \<Rightarrow> 'k \<Rightarrow> 'v option" where
  "hm_get m k = map_of m k"

definition hm_insert :: "'k \<Rightarrow> 'v \<Rightarrow> ('k, 'v) hashmap \<Rightarrow> ('k, 'v) hashmap" where
  "hm_insert k v m = AList.update k v m"

definition hm_remove :: "'k \<Rightarrow> ('k, 'v) hashmap \<Rightarrow> ('k, 'v) hashmap" where
  "hm_remove k m = AList.delete k m"

definition hm_values :: "('k, 'v) hashmap \<Rightarrow> 'v list" where
  "hm_values m = map snd m"

text \<open>\<open>retain\<close> with a predicate on the values.\<close>

definition hm_retain :: "('v \<Rightarrow> bool) \<Rightarrow> ('k, 'v) hashmap \<Rightarrow> ('k, 'v) hashmap" where
  "hm_retain p m = filter (\<lambda>e. p (snd e)) m"

definition hm_wf :: "('k, 'v) hashmap \<Rightarrow> bool" where
  "hm_wf m \<longleftrightarrow> distinct (map fst m)"

definition hm_eq :: "('k, 'v) hashmap \<Rightarrow> ('k, 'v) hashmap \<Rightarrow> bool" where
  "hm_eq m1 m2 \<longleftrightarrow> map_of m1 = map_of m2"

lemma hm_wf_Nil [simp, wf_intros]: "hm_wf []"
  by (simp add: hm_wf_def)

lemma hm_wf_insert [simp, wf_intros]: "hm_wf m \<Longrightarrow> hm_wf (hm_insert k v m)"
  by (simp add: hm_wf_def hm_insert_def distinct_update)

lemma hm_wf_remove [simp, wf_intros]: "hm_wf m \<Longrightarrow> hm_wf (hm_remove k m)"
  by (simp add: hm_wf_def hm_remove_def distinct_delete)

lemma hm_wf_retain [simp, wf_intros]: "hm_wf m \<Longrightarrow> hm_wf (hm_retain p m)"
  by (simp add: hm_wf_def hm_retain_def distinct_map_filter)

lemma hm_get_insert: "hm_get (hm_insert k v m) = (hm_get m)(k := Some v)"
  by (simp add: hm_get_def hm_insert_def update_conv' fun_eq_iff)

lemma hm_get_remove: "hm_get (hm_remove k m) = (hm_get m)(k := None)"
  by (simp add: hm_get_def hm_remove_def delete_conv' fun_eq_iff)

lemma hm_get_retain:
  "hm_wf m \<Longrightarrow> hm_get (hm_retain p m) k = (case hm_get m k of None \<Rightarrow> None | Some v \<Rightarrow> if p v then Some v else None)"
  by (induction m)
    (auto simp: hm_get_def hm_retain_def hm_wf_def split: option.splits dest: map_of_SomeD
      intro!: map_of_eq_None_iff [THEN iffD2])

interpretation hm: dict "[]" hm_get hm_insert hm_remove hm_wf
  by unfold_locales (simp_all add: hm_get_insert hm_get_remove hm_get_def)

lemma hm_get_in_set: "hm_wf m \<Longrightarrow> hm_get m k = Some v \<longleftrightarrow> (k, v) \<in> set m"
  by (simp add: hm_get_def hm_wf_def)

lemma hm_eq_get: "hm_eq m1 m2 \<longleftrightarrow> hm_get m1 = hm_get m2"
  by (simp add: hm_eq_def hm_get_def fun_eq_iff)

lemma hm_eq_refl [simp]: "hm_eq m m"
  by (simp add: hm_eq_def)

lemma hm_eq_sym: "hm_eq m1 m2 \<Longrightarrow> hm_eq m2 m1"
  by (simp add: hm_eq_def)

lemma hm_eq_insert: "hm_eq m1 m2 \<Longrightarrow> hm_eq (hm_insert k v m1) (hm_insert k v m2)"
  by (simp add: hm_eq_get hm_get_insert)

lemma hm_eq_remove: "hm_eq m1 m2 \<Longrightarrow> hm_eq (hm_remove k m1) (hm_remove k m2)"
  by (simp add: hm_eq_get hm_get_remove)

lemma hm_eq_set: "hm_wf m1 \<Longrightarrow> hm_wf m2 \<Longrightarrow> hm_eq m1 m2 \<longleftrightarrow> set m1 = set m2"
  by (simp add: hm_eq_def hm_wf_def map_of_inject_set)

lemma hm_eq_mset: "hm_wf m1 \<Longrightarrow> hm_wf m2 \<Longrightarrow> hm_eq m1 m2 \<Longrightarrow> mset m1 = mset m2"
  by (metis hm_eq_set hm_wf_def distinct_map set_eq_iff_mset_eq_distinct)

lemma hm_eq_length: "hm_wf m1 \<Longrightarrow> hm_wf m2 \<Longrightarrow> hm_eq m1 m2 \<Longrightarrow> length m1 = length m2"
  by (metis hm_eq_mset size_mset)

end
