(* ===== verification/Core_Types.thy ===== *)
theory Core_Types
  imports Containers "HOL-Library.Char_ord" "HOL-Library.List_Lexorder"
begin

section \<open>atomic-core: types, nodes and errors (types.rs, node.rs, error.rs)\<close>

text \<open>
  The value types every crate shares. \<open>Price(i64)\<close> and \<open>Qty(u64)\<close> are newtypes in the
  source; the model uses what they hold. A \<open>String\<close> is a list of bytes (\<open>char\<close> of HOL
  is a byte), so its order is the order of \<open>str\<close>. \<open>to_uppercase\<close> is modelled on ASCII
  letters, which is what exchange symbols consist of; other bytes are kept.
  The conversions to and from \<open>f64\<close> of types.rs are in the theory Feed.
\<close>

subsection \<open>Decimal output\<close>

definition digit :: "nat \<Rightarrow> char" where
  "digit d = char_of (48 + d)"

fun show_nat :: "nat \<Rightarrow> string" where
  "show_nat n = (if n < 10 then [digit n] else show_nat (n div 10) @ [digit (n mod 10)])"

declare show_nat.simps [simp del]

definition show_u64 :: "u64 \<Rightarrow> string" where
  "show_u64 w = show_nat (unat w)"

definition show_i64 :: "i64 \<Rightarrow> string" where
  "show_i64 x = (if x < 0 then ''-'' @ show_nat (nat (- x)) else show_nat (nat x))"

definition digit_val :: "char \<Rightarrow> nat" where
  "digit_val c = of_char c - 48"

definition read_nat :: "string \<Rightarrow> nat" where
  "read_nat s = foldl (\<lambda>n c. 10 * n + digit_val c) 0 s"

lemma digit_val_digit: "d < 10 \<Longrightarrow> digit_val (digit d) = d"
  by (simp add: digit_def digit_val_def of_char_mod_256 take_bit_nat_eq_self)

lemma read_show_nat [simp]: "read_nat (show_nat n) = n"
proof (induction n rule: show_nat.induct)
  case (1 n)
  show ?case
  proof (cases "n < 10")
    case True
    then show ?thesis
      by (subst show_nat.simps) (simp add: read_nat_def digit_val_digit)
  next
    case False
    with "1.IH" show ?thesis
      by (subst show_nat.simps) (simp add: read_nat_def digit_val_digit)
  qed
qed

lemma show_u64_inj: "show_u64 a = show_u64 b \<longleftrightarrow> a = b"
  by (metis read_show_nat show_u64_def word_unat_eq_iff)

subsection \<open>Venue, Side, OrderType, TimeInForce\<close>

datatype venue = Binance | Bybit | OKX | Deribit | Coinbase | Kraken | DYDX | Hyperliquid | Simulated

fun show_venue :: "venue \<Rightarrow> string" where
  "show_venue Binance = ''binance''"
| "show_venue Bybit = ''bybit''"
| "show_venue OKX = ''okx''"
| "show_venue Deribit = ''deribit''"
| "show_venue Coinbase = ''coinbase''"
| "show_venue Kraken = ''kraken''"
| "show_venue DYDX = ''dydx''"
| "show_venue Hyperliquid = ''hyperliquid''"
| "show_venue Simulated = ''simulated''"

lemma show_venue_inj: "show_venue v = show_venue w \<longleftrightarrow> v = w"
  by (cases v; cases w; simp)

datatype side = Buy | Sell

fun opposite :: "side \<Rightarrow> side" where
  "opposite Buy = Sell"
| "opposite Sell = Buy"

datatype order_type = Market | Limit | StopMarket | StopLimit

datatype time_in_force = GoodTilCancel | ImmediateOrCancel | FillOrKill | GoodTilDate u64

subsection \<open>Price and Qty\<close>

type_synonym price = i64
type_synonym qty = u64

definition midpoint :: "price \<Rightarrow> price \<Rightarrow> price" where
  "midpoint p q = i64_quot (i64_add p q) 2"

subsection \<open>Symbol and OrderId\<close>

record symbol =
  sym_base :: string
  sym_quote :: string
  sym_venue :: venue

definition to_uppercase :: "string \<Rightarrow> string" where
  "to_uppercase s = map (\<lambda>c. if CHR ''a'' \<le> c \<and> c \<le> CHR ''z'' then char_of (of_char c - (32 :: nat)) else c) s"

definition symbol_new :: "string \<Rightarrow> string \<Rightarrow> venue \<Rightarrow> symbol" where
  "symbol_new b q v = \<lparr>sym_base = to_uppercase b, sym_quote = to_uppercase q, sym_venue = v\<rparr>"

definition pair :: "symbol \<Rightarrow> string" where
  "pair s = sym_base s @ ''/'' @ sym_quote s"

definition show_symbol :: "symbol \<Rightarrow> string" where
  "show_symbol s = show_venue (sym_venue s) @ '':'' @ sym_base s @ ''/'' @ sym_quote s"

type_synonym order_id = string

definition order_id_new :: "venue \<Rightarrow> u64 \<Rightarrow> order_id" where
  "order_id_new v local_id = show_venue v @ ''-'' @ show_u64 local_id"

subsection \<open>Fill, Position, Level, BookSnapshot\<close>

record fill =
  fill_order_id :: order_id
  fill_symbol :: symbol
  fill_side :: side
  fill_price :: price
  fill_qty :: qty
  fill_fee :: i64
  fill_timestamp :: u64
  fill_venue :: venue
  fill_is_maker :: bool

record position =
  pos_symbol :: symbol
  pos_side :: side
  pos_qty :: qty
  pos_avg_entry :: price
  pos_unrealized_pnl :: i64
  pos_realized_pnl :: i64

definition position_flat :: "symbol \<Rightarrow> position" where
  "position_flat s = \<lparr>pos_symbol = s, pos_side = Buy, pos_qty = 0, pos_avg_entry = 0,
     pos_unrealized_pnl = 0, pos_realized_pnl = 0\<rparr>"

definition is_flat :: "position \<Rightarrow> bool" where
  "is_flat p \<longleftrightarrow> pos_qty p = 0"

definition position_notional :: "position \<Rightarrow> i64" where
  "position_notional p = i64_mul (u64_as_i64 (pos_qty p)) (pos_avg_entry p)"

record level =
  lvl_price :: price
  lvl_qty :: qty

record book_snapshot =
  bs_symbol :: symbol
  bs_bids :: "level list"
  bs_asks :: "level list"
  bs_timestamp :: u64
  bs_seq :: u64

definition first_level :: "level list \<Rightarrow> level option" where
  "first_level ls = (case ls of [] \<Rightarrow> None | l # _ \<Rightarrow> Some l)"

definition bs_best_bid :: "book_snapshot \<Rightarrow> level option" where
  "bs_best_bid b = first_level (bs_bids b)"

definition bs_best_ask :: "book_snapshot \<Rightarrow> level option" where
  "bs_best_ask b = first_level (bs_asks b)"

definition bs_mid_price :: "book_snapshot \<Rightarrow> price option" where
  "bs_mid_price b = (case (bs_best_bid b, bs_best_ask b) of
     (Some bid, Some ask) \<Rightarrow> Some (midpoint (lvl_price bid) (lvl_price ask))
   | _ \<Rightarrow> None)"

definition bs_spread :: "book_snapshot \<Rightarrow> i64 option" where
  "bs_spread b = (case (bs_best_bid b, bs_best_ask b) of
     (Some bid, Some ask) \<Rightarrow> Some (i64_sub (lvl_price ask) (lvl_price bid))
   | _ \<Rightarrow> None)"

subsection \<open>Nodes\<close>

type_synonym node_id = "u8 list"

datatype node_role = Leader | Follower | Observer

datatype node_state = Initializing | Syncing | Ready | Active | Diverged | Draining | Offline

record node_info =
  ni_id :: node_id
  ni_role :: node_role
  ni_state :: node_state
  ni_addr :: string
  ni_last_seq :: u64
  ni_last_heartbeat :: u64
  ni_uptime_secs :: u64

definition node_info_new :: "node_id \<Rightarrow> node_role \<Rightarrow> string \<Rightarrow> node_info" where
  "node_info_new i r a = \<lparr>ni_id = i, ni_role = r, ni_state = Initializing, ni_addr = a,
     ni_last_seq = 0, ni_last_heartbeat = 0, ni_uptime_secs = 0\<rparr>"

text \<open>\<open>hex::encode\<close>: two lower-case digits per byte, high nibble first.\<close>

definition hex_digit :: "nat \<Rightarrow> char" where
  "hex_digit d = char_of (if d < 10 then 48 + d else 87 + d)"

definition hex_encode :: "u8 list \<Rightarrow> string" where
  "hex_encode bs = concat (map (\<lambda>b. [hex_digit (unat b div 16), hex_digit (unat b mod 16)]) bs)"

definition id_hex :: "node_info \<Rightarrow> string" where
  "id_hex n = hex_encode (take 8 (ni_id n))"

subsection \<open>Errors\<close>

datatype io_kind = NotFound | UnexpectedEof | InvalidData | OtherIo
datatype io_error = IoError io_kind string

datatype atomic_error =
    SequenceGap u64 u64
  | DuplicateSeq u64
  | StateHashMismatch u64 string string
  | SnapshotNotFound u64
  | OrderNotFound string
  | OrderAlreadyExists string
  | InvalidOrderTransition string string
  | RiskLimitExceeded string
  | KillSwitch string
  | NodeUnreachable string
  | ConsensusFailed string
  | ConnectionFailed venue string
  | FeedDesync venue string
  | UnknownSymbol string
  | ReplayDivergence u64 string
  | Serialization string
  | Io io_error
  | Config string

subsection \<open>Properties\<close>

lemma opposite_involutive [simp]: "opposite (opposite s) = s"
  by (cases s) auto

lemma opposite_neq [simp]: "opposite s \<noteq> s" "s \<noteq> opposite s"
  by (cases s; simp)+

lemma midpoint_between:
  assumes "p \<le> q" and "in_i64 (p + q)"
  shows "p \<le> midpoint p q \<and> midpoint p q \<le> q"
  using assms
  by (cases "p + q < 0") (auto simp: midpoint_def i64_add_exact i64_quot_def sdiv_nonneg sdiv_neg)

lemma order_id_new_inj: "order_id_new v i = order_id_new w j \<longleftrightarrow> v = w \<and> i = j"
  by (cases v; cases w) (simp_all add: order_id_new_def show_u64_inj)

end
