(* ===== verification/Core_Event.thy ===== *)
theory Core_Event
  imports Core_Types
begin

section \<open>atomic-core: events (event.rs)\<close>

text \<open>
  One record per event struct and one constructor per variant of \<open>EventPayload\<close>. The only
  float of the event types, \<open>SignalEvent.strength\<close>, is kept as its 64 bits: no code of the
  repository computes with it.
\<close>

type_synonym seq_num = u64
type_synonym timestamp = u64

record order_book_update_event =
  obu_symbol :: symbol
  obu_bids :: "level list"
  obu_asks :: "level list"
  obu_is_snapshot :: bool
  obu_exchange_ts :: u64

record trade_event =
  te_symbol :: symbol
  te_price :: price
  te_qty :: qty
  te_side :: side
  te_exchange_ts :: u64

record ticker_event =
  tk_symbol :: symbol
  tk_bid :: price
  tk_ask :: price
  tk_last :: price
  tk_volume_24h :: qty
  tk_exchange_ts :: u64

record order_new_event =
  ne_order_id :: order_id
  ne_symbol :: symbol
  ne_side :: side
  ne_order_type :: order_type
  ne_price :: price
  ne_qty :: qty
  ne_time_in_force :: time_in_force
  ne_venue :: venue

record order_ack_event =
  ae_order_id :: order_id
  ae_exchange_order_id :: string
  ae_venue :: venue

record order_fill_event =
  fe_order_id :: order_id
  fe_symbol :: symbol
  fe_side :: side
  fe_price :: price
  fe_qty :: qty
  fe_remaining :: qty
  fe_fee :: i64
  fe_is_maker :: bool
  fe_venue :: venue

record order_cancel_event =
  ce_order_id :: order_id
  ce_reason :: string
  ce_venue :: venue

record order_reject_event =
  re_order_id :: order_id
  re_reason :: string
  re_venue :: venue

record snapshot_event =
  se_state_hash :: "u8 list"
  se_event_count :: u64

record heartbeat_event =
  hb_node_id :: node_id
  hb_uptime_secs :: u64

record node_join_event =
  nj_node_id :: node_id
  nj_role :: node_role
  nj_addr :: string

record node_leave_event =
  nl_node_id :: node_id
  nl_reason :: string

record signal_event =
  sg_strategy_id :: string
  sg_symbol :: symbol
  sg_side :: side
  sg_strength_bits :: u64
  sg_metadata :: string

datatype event_payload =
    OrderBookUpdate order_book_update_event
  | Trade trade_event
  | Ticker ticker_event
  | OrderNew order_new_event
  | OrderAck order_ack_event
  | OrderFill order_fill_event
  | OrderPartialFill order_fill_event
  | OrderCancel order_cancel_event
  | OrderReject order_reject_event
  | Snapshot snapshot_event
  | Heartbeat heartbeat_event
  | NodeJoin node_join_event
  | NodeLeave node_leave_event
  | Signal signal_event

record event =
  ev_seq :: seq_num
  ev_timestamp :: timestamp
  ev_source :: node_id
  ev_payload :: event_payload

definition event_new :: "seq_num \<Rightarrow> timestamp \<Rightarrow> node_id \<Rightarrow> event_payload \<Rightarrow> event" where
  "event_new s t src p = \<lparr>ev_seq = s, ev_timestamp = t, ev_source = src, ev_payload = p\<rparr>"

lemma event_new_simps [simp]:
  "ev_seq (event_new s t src p) = s"
  "ev_timestamp (event_new s t src p) = t"
  "ev_source (event_new s t src p) = src"
  "ev_payload (event_new s t src p) = p"
  by (simp_all add: event_new_def)

text \<open>The fill an event reports, whole or partial.\<close>

definition fill_of :: "event \<Rightarrow> order_fill_event option" where
  "fill_of ev = (case ev_payload ev of OrderFill e \<Rightarrow> Some e | OrderPartialFill e \<Rightarrow> Some e | _ \<Rightarrow> None)"

text \<open>Assigning consecutive sequence numbers to a list of events.\<close>

fun number_from :: "u64 \<Rightarrow> event list \<Rightarrow> event list" where
  "number_from n [] = []"
| "number_from n (e # es) = e\<lparr>ev_seq := n\<rparr> # number_from (n + 1) es"

lemma length_number_from [simp]: "length (number_from n es) = length es"
  by (induction es arbitrary: n) auto

lemma number_from_snoc:
  "number_from n (es @ [e]) = number_from n es @ [e\<lparr>ev_seq := n + of_nat (length es)\<rparr>]"
  by (induction es arbitrary: n) (auto simp: algebra_simps)

subsection \<open>A worked example\<close>

text \<open>Events for one order, on which later theories evaluate their operations.\<close>

definition ex_sym :: symbol where
  "ex_sym = \<lparr>sym_base = ''BTC'', sym_quote = ''USDT'', sym_venue = Simulated\<rparr>"

definition ex_event :: "u64 \<Rightarrow> event_payload \<Rightarrow> event" where
  "ex_event n p = \<lparr>ev_seq = n, ev_timestamp = n, ev_source = [], ev_payload = p\<rparr>"

definition ex_new :: "order_id \<Rightarrow> qty \<Rightarrow> event_payload" where
  "ex_new oid q = OrderNew \<lparr>ne_order_id = oid, ne_symbol = ex_sym, ne_side = Buy, ne_order_type = Limit,
     ne_price = 100, ne_qty = q, ne_time_in_force = GoodTilCancel, ne_venue = Simulated\<rparr>"

definition ex_ack :: "order_id \<Rightarrow> event_payload" where
  "ex_ack oid = OrderAck \<lparr>ae_order_id = oid, ae_exchange_order_id = ''X1'', ae_venue = Simulated\<rparr>"

definition ex_fill :: "order_id \<Rightarrow> qty \<Rightarrow> event_payload" where
  "ex_fill oid q = OrderFill \<lparr>fe_order_id = oid, fe_symbol = ex_sym, fe_side = Buy, fe_price = 100,
     fe_qty = q, fe_remaining = 0, fe_fee = 0, fe_is_maker = False, fe_venue = Simulated\<rparr>"

lemmas ex_defs = ex_sym_def ex_event_def ex_new_def ex_ack_def ex_fill_def

end
