(* ===== verification/Clock.thy ===== *)
theory Clock
  imports Rust_Int
begin

section \<open>atomic-core: clocks and sequence numbers (clock.rs)\<close>

text \<open>
  \<open>LamportClock\<close>, \<open>SequenceGenerator\<close> and \<open>WallClock\<close>. The state of each clock is the
  value of its atomic cell. An operation returns its result and the new cell.
  The locale \<open>increasing_source\<close> is what the event bus relies on: as long as no
  result is the one at which the 64-bit cell wraps, every result is larger than all before.
  \<open>LamportClock::witness\<close> is a compare-exchange loop run by several threads; the second half
  of the theory models its atomic steps and shows that the loop is linearizable: every
  interleaving is a run of the sequential clock.
\<close>

subsection \<open>Sequential operations\<close>

type_synonym lamport = u64

definition lamport_new :: lamport where
  "lamport_new = 0"

definition lamport_from :: "u64 \<Rightarrow> lamport" where
  "lamport_from initial = initial"

definition tick :: "lamport \<Rightarrow> u64 \<times> lamport" where
  "tick c = (c + 1, c + 1)"

text \<open>One pass of the loop: load, compute, compare-exchange with no other thread between.\<close>

definition witness_val :: "u64 \<Rightarrow> u64 \<Rightarrow> u64" where
  "witness_val current remote_ts = max current remote_ts + 1"

definition lamport_witness :: "lamport \<Rightarrow> u64 \<Rightarrow> u64 \<times> lamport" where
  "lamport_witness c remote_ts = (witness_val c remote_ts, witness_val c remote_ts)"

definition lamport_now :: "lamport \<Rightarrow> u64" where
  "lamport_now c = c"

definition lamport_reset :: "lamport \<Rightarrow> lamport" where
  "lamport_reset c = 0"

datatype lamport_op = Tick | Witness u64

fun lamport_step :: "lamport \<Rightarrow> lamport_op \<Rightarrow> u64 \<times> lamport" where
  "lamport_step c Tick = tick c"
| "lamport_step c (Witness r) = lamport_witness c r"

type_synonym seq_gen = u64

definition seq_gen_new :: seq_gen where
  "seq_gen_new = 1"

definition seq_gen_from :: "u64 \<Rightarrow> seq_gen" where
  "seq_gen_from start = start"

definition seq_next :: "seq_gen \<Rightarrow> u64 \<times> seq_gen" where
  "seq_next g = (g, g + 1)"

definition seq_peek :: "seq_gen \<Rightarrow> u64" where
  "seq_peek g = g"

datatype clock_mode = Live | Replay

record wall_clock =
  wc_mode :: clock_mode
  wc_replay_time :: u64

definition wall_live :: wall_clock where
  "wall_live = \<lparr>wc_mode = Live, wc_replay_time = 0\<rparr>"

definition wall_replay :: wall_clock where
  "wall_replay = \<lparr>wc_mode = Replay, wc_replay_time = 0\<rparr>"

text \<open>\<open>system_now\<close> is what the operating system's clock would return at the call.\<close>

definition now_nanos :: "u64 \<Rightarrow> wall_clock \<Rightarrow> u64" where
  "now_nanos system_now c = (case wc_mode c of Live \<Rightarrow> system_now | Replay \<Rightarrow> wc_replay_time c)"

definition set_replay_time :: "u64 \<Rightarrow> wall_clock \<Rightarrow> wall_clock" where
  "set_replay_time nanos c = c\<lparr>wc_replay_time := nanos\<rparr>"

subsection \<open>The interface: a source of increasing numbers\<close>

locale increasing_source =
  fixes step :: "'s \<Rightarrow> 'op \<Rightarrow> u64 \<times> 's"
    and bound :: "'s \<Rightarrow> nat"
    and good :: "u64 \<Rightarrow> bool"
  assumes step_bound: "step s op = (v, s') \<Longrightarrow> good v \<Longrightarrow> bound s \<le> unat v \<and> unat v < bound s'"
begin

lemma run_above:
  assumes "\<forall>v \<in> set (fst (run_ops step s ops)). good v"
  shows "\<forall>v \<in> set (fst (run_ops step s ops)). bound s \<le> unat v"
  using assms
proof (induction ops arbitrary: s)
  case (Cons op ops)
  obtain v s' where st: "step s op = (v, s')" by fastforce
  obtain vs s'' where run: "run_ops step s' ops = (vs, s'')" by fastforce
  have "good v" and "\<forall>v \<in> set vs. good v"
    using Cons.prems st run by auto
  moreover have "bound s \<le> unat v" "unat v < bound s'"
    using step_bound [OF st] \<open>good v\<close> by auto
  ultimately show ?case
    using Cons.IH [of s'] st run by fastforce
qed simp

lemma run_increasing:
  assumes "\<forall>v \<in> set (fst (run_ops step s ops)). good v"
  shows "sorted_wrt (<) (fst (run_ops step s ops))"
  using assms
proof (induction ops arbitrary: s)
  case (Cons op ops)
  obtain v s' where st: "step s op = (v, s')" by fastforce
  obtain vs s'' where run: "run_ops step s' ops = (vs, s'')" by fastforce
  have "good v" and gs: "\<forall>v \<in> set vs. good v"
    using Cons.prems st run by auto
  have "\<forall>w \<in> set vs. bound s' \<le> unat w"
    using run_above [of s' ops] gs run by simp
  moreover have "unat v < bound s'"
    using step_bound [OF st \<open>good v\<close>] by simp
  ultimately have "\<forall>w \<in> set vs. v < w"
    by (force simp: word_less_nat_alt)
  with Cons.IH [of s'] gs st run show ?case by simp
qed simp

lemma run_distinct:
  "\<forall>v \<in> set (fst (run_ops step s ops)). good v \<Longrightarrow> distinct (fst (run_ops step s ops))"
  using run_increasing strict_sorted_iff by blast

end

lemma unat_plus_one: "x + 1 \<noteq> (0 :: u64) \<Longrightarrow> unat (x + 1) = Suc (unat x)"
  by (simp add: unatSuc add.commute)

interpretation lam: increasing_source lamport_step "\<lambda>c. Suc (unat c)" "\<lambda>v. v \<noteq> 0"
proof unfold_locales
  fix c op v c'
  assume st: "lamport_step c op = (v, c')" and nz: "v \<noteq> 0"
  show "Suc (unat c) \<le> unat v \<and> unat v < Suc (unat c')"
  proof (cases op)
    case Tick
    with st nz show ?thesis by (auto simp: tick_def unat_plus_one)
  next
    case (Witness r)
    with st have v: "v = max c r + 1" "c' = v"
      by (auto simp: lamport_witness_def witness_val_def)
    have "unat c \<le> unat (max c r)"
      by (simp add: max_def word_le_nat_alt)
    with nz show ?thesis by (simp add: v unat_plus_one)
  qed
qed

interpretation sg: increasing_source "\<lambda>g (_ :: unit). seq_next g" unat "\<lambda>v. v \<noteq> -1"
proof unfold_locales
  fix g and op :: unit and v g'
  assume "seq_next g = (v, g')" and "v \<noteq> -1"
  then have v: "v = g" "g' = g + 1" and "g + 1 \<noteq> 0"
    by (auto simp: seq_next_def eq_neg_iff_add_eq_0)
  then show "unat g \<le> unat v \<and> unat v < unat g'"
    by (simp add: unat_plus_one)
qed

lemma witness_exceeds:
  assumes "witness_val c r \<noteq> 0"
  shows "c < witness_val c r \<and> r < witness_val c r"
proof -
  have "unat (witness_val c r) = Suc (unat (max c r))"
    using assms by (simp add: witness_val_def unat_plus_one)
  moreover have "unat c \<le> unat (max c r)" "unat r \<le> unat (max c r)"
    by (simp_all add: max_def word_le_nat_alt)
  ultimately show ?thesis by (simp add: word_less_nat_alt)
qed

subsection \<open>The compare-exchange loop under interleaving\<close>

text \<open>
  Threads are numbered. A thread is idle, about to load for \<open>witness(r)\<close>, or holds the value
  it loaded and is about to compare-exchange. \<open>fetch_add\<close> is one atomic step. \<open>lin\<close> is a
  ghost: the completed calls, in the order of their atomic effects, with their results.
\<close>

datatype lam_pc = LIdle | LStart u64 | LLoaded u64 u64

record lam_sys =
  counter :: u64
  lam_pcs :: "nat \<Rightarrow> lam_pc"
  lin :: "(lamport_op \<times> u64) list"

definition lam_init :: "u64 \<Rightarrow> lam_sys" where
  "lam_init c = \<lparr>counter = c, lam_pcs = (\<lambda>_. LIdle), lin = []\<rparr>"

inductive lam_step :: "lam_sys \<Rightarrow> lam_sys \<Rightarrow> bool" where
  tick_step: "lam_pcs s t = LIdle \<Longrightarrow>
     lam_step s (s\<lparr>counter := counter s + 1, lin := lin s @ [(Tick, counter s + 1)]\<rparr>)"
| call_witness: "lam_pcs s t = LIdle \<Longrightarrow> lam_step s (s\<lparr>lam_pcs := (lam_pcs s)(t := LStart r)\<rparr>)"
| load: "lam_pcs s t = LStart r \<Longrightarrow>
     lam_step s (s\<lparr>lam_pcs := (lam_pcs s)(t := LLoaded r (counter s))\<rparr>)"
| cas_ok: "lam_pcs s t = LLoaded r current \<Longrightarrow> counter s = current \<Longrightarrow>
     lam_step s (s\<lparr>counter := witness_val current r, lam_pcs := (lam_pcs s)(t := LIdle),
       lin := lin s @ [(Witness r, witness_val current r)]\<rparr>)"
| cas_fail: "lam_pcs s t = LLoaded r current \<Longrightarrow> counter s \<noteq> current \<Longrightarrow>
     lam_step s (s\<lparr>lam_pcs := (lam_pcs s)(t := LStart r)\<rparr>)"

inductive lam_reach :: "u64 \<Rightarrow> lam_sys \<Rightarrow> bool" for c where
  lam_start: "lam_reach c (lam_init c)"
| lam_next: "lam_reach c s \<Longrightarrow> lam_step s s' \<Longrightarrow> lam_reach c s'"

inductive_cases lam_stepE: "lam_step s s'"

text \<open>Linearizability: the ghost log is a run of the sequential clock.\<close>

lemma lam_linearizable:
  "lam_reach c s \<Longrightarrow> run_ops lamport_step c (map fst (lin s)) = (map snd (lin s), counter s)"
proof (induction rule: lam_reach.induct)
  case lam_start
  show ?case by (simp add: lam_init_def)
next
  case (lam_next s s')
  from lam_next.hyps(2) lam_next.IH show ?case
    by (cases rule: lam_step.cases)
      (simp_all add: run_ops_append tick_def lamport_witness_def)
qed

lemma lam_cas_succeeds_alone:
  assumes "lam_pcs s t = LLoaded r (counter s)"
  shows "\<exists>s'. lam_step s s' \<and> counter s' = witness_val (counter s) r \<and> lam_pcs s' t = LIdle"
  using lam_step.cas_ok [OF assms refl] by fastforce

end
