(* ===== verification/Core_Snapshot.thy ===== *)
theory Core_Snapshot
  imports Core_Types
begin

section \<open>atomic-core: snapshots (snapshot.rs)\<close>

text \<open>
  \<open>xxh3_64\<close> of the crate xxhash-rust is the parameter \<open>xxh3\<close>; nothing is assumed of it
  beyond being a function of the bytes.
\<close>

record engine_snapshot =
  sn_seq :: u64
  sn_timestamp :: u64
  sn_state_hash :: "u8 list"
  sn_events_since_last :: u64
  sn_state_data :: "u8 list"

definition to_le_bytes64 :: "u64 \<Rightarrow> u8 list" where
  "to_le_bytes64 w = map (\<lambda>i. word_of_int (uint (drop_bit (8 * i) w))) [0..<8]"

definition compute_hash :: "(u8 list \<Rightarrow> u64) \<Rightarrow> u8 list \<Rightarrow> u8 list" where
  "compute_hash xxh3 data = to_le_bytes64 (xxh3 data)"

definition snapshot_verify :: "(u8 list \<Rightarrow> u64) \<Rightarrow> engine_snapshot \<Rightarrow> bool" where
  "snapshot_verify xxh3 s \<longleftrightarrow> compute_hash xxh3 (sn_state_data s) = sn_state_hash s"

definition hashes_match :: "engine_snapshot \<Rightarrow> engine_snapshot \<Rightarrow> bool" where
  "hashes_match s t \<longleftrightarrow> sn_seq s = sn_seq t \<and> sn_state_hash s = sn_state_hash t"

definition hash_hex :: "engine_snapshot \<Rightarrow> string" where
  "hash_hex s = hex_encode (sn_state_hash s)"

record delta_snapshot =
  ds_base_seq :: u64
  ds_current_seq :: u64
  ds_delta_data :: "u8 list"
  ds_result_hash :: "u8 list"

definition verify_chain :: "u8 list \<Rightarrow> delta_snapshot list \<Rightarrow> bool" where
  "verify_chain base_hash deltas =
     (if deltas = [] then True
      else list_all (\<lambda>(a, b). ds_current_seq a = ds_base_seq b) (windows2 deltas))"

lemma verify_chain_iff:
  "verify_chain h ds \<longleftrightarrow> (\<forall>i. Suc i < length ds \<longrightarrow> ds_current_seq (ds ! i) = ds_base_seq (ds ! Suc i))"
  using windows2_conv_nth [where R = "\<lambda>a b. ds_current_seq a = ds_base_seq b"]
  by (auto simp: verify_chain_def list_all_iff)

lemma hashes_match_sym: "hashes_match s t \<longleftrightarrow> hashes_match t s"
  by (auto simp: hashes_match_def)

end
