(* ===== verification/Ring.thy ===== *)
theory Ring
  imports Rust_Int
begin

section \<open>atomic-bus: the single-producer single-consumer ring (ring.rs)\<close>

text \<open>
  \<open>SpscRing<T>\<close> with its power-of-two capacity, index masks and reserved slot. A panic
  (index out of range of the boxed slice) is \<^term>\<open>None\<close>. The ring is shown to implement a
  bounded queue (locale \<open>bounded_queue\<close>), and the second half runs the atomic loads, slot
  accesses and stores of one producer and one consumer in every interleaving.
\<close>

subsection \<open>The operations\<close>

record 'a ring =
  rb_buffer :: "'a option list"
  rb_capacity :: usize
  rb_head :: usize
  rb_tail :: usize

text \<open>\<open>usize::next_power_of_two\<close>; in a release build the result wraps to 0 beyond \<open>2^63\<close>.\<close>

definition next_power_of_two :: "usize \<Rightarrow> usize" where
  "next_power_of_two n = 2 ^ bit_length (unat n - 1)"

definition ring_new :: "usize \<Rightarrow> 'a ring" where
  "ring_new capacity =
     (let capacity = next_power_of_two capacity in
      \<lparr>rb_buffer = replicate (unat capacity) None, rb_capacity = capacity,
       rb_head = 0, rb_tail = 0\<rparr>)"

definition ring_inc :: "'a ring \<Rightarrow> usize \<Rightarrow> usize" where
  "ring_inc r i = (i + 1) AND (rb_capacity r - 1)"

definition try_push :: "'a \<Rightarrow> 'a ring \<Rightarrow> (('a + unit) \<times> 'a ring) option" where
  "try_push v r =
     (let h = rb_head r; t = rb_tail r; nh = ring_inc r h in
      if nh = t then Some (Inl v, r)
      else if length (rb_buffer r) \<le> unat h then None
      else Some (Inr (), r\<lparr>rb_buffer := (rb_buffer r)[unat h := Some v], rb_head := nh\<rparr>))"

definition try_pop :: "'a ring \<Rightarrow> ('a option \<times> 'a ring) option" where
  "try_pop r =
     (let t = rb_tail r; h = rb_head r in
      if t = h then Some (None, r)
      else if length (rb_buffer r) \<le> unat t then None
      else Some (rb_buffer r ! unat t,
        r\<lparr>rb_buffer := (rb_buffer r)[unat t := None], rb_tail := ring_inc r t\<rparr>))"

definition ring_len :: "'a ring \<Rightarrow> usize" where
  "ring_len r = (rb_head r + rb_capacity r - rb_tail r) AND (rb_capacity r - 1)"

definition ring_is_empty :: "'a ring \<Rightarrow> bool" where
  "ring_is_empty r \<longleftrightarrow> ring_len r = 0"

definition ring_capacity :: "'a ring \<Rightarrow> usize" where
  "ring_capacity r = rb_capacity r - 1"

subsection \<open>The interface: a bounded first-in first-out queue\<close>

datatype 'a queue_op = QPush 'a | QPop

text \<open>A run of pushes and pops: the values accepted, the values popped, the final queue.\<close>

fun queue_run :: "('a \<Rightarrow> 'q \<Rightarrow> (('a + unit) \<times> 'q) option) \<Rightarrow> ('q \<Rightarrow> ('a option \<times> 'q) option)
    \<Rightarrow> 'q \<Rightarrow> 'a queue_op list \<Rightarrow> ('a list \<times> 'a list \<times> 'q) option" where
  "queue_run push pop q [] = Some ([], [], q)"
| "queue_run push pop q (QPush v # ops) = (case push v q of
     None \<Rightarrow> None
   | Some (res, q') \<Rightarrow> map_option (\<lambda>(acc, out, q''). (if res = Inr () then v # acc else acc, out, q''))
       (queue_run push pop q' ops))"
| "queue_run push pop q (QPop # ops) = (case pop q of
     None \<Rightarrow> None
   | Some (res, q') \<Rightarrow> map_option (\<lambda>(acc, out, q''). (acc, (case res of None \<Rightarrow> out | Some x \<Rightarrow> x # out), q''))
       (queue_run push pop q' ops))"

locale bounded_queue =
  fixes push :: "'a \<Rightarrow> 'q \<Rightarrow> (('a + unit) \<times> 'q) option"
    and pop :: "'q \<Rightarrow> ('a option \<times> 'q) option"
    and items :: "'q \<Rightarrow> 'a list"
    and room :: "'q \<Rightarrow> nat"
    and ok :: "'q \<Rightarrow> bool"
  assumes items_le: "ok q \<Longrightarrow> length (items q) \<le> room q"
    and push_full: "ok q \<Longrightarrow> length (items q) = room q \<Longrightarrow> push v q = Some (Inl v, q)"
    and push_room: "ok q \<Longrightarrow> length (items q) < room q \<Longrightarrow>
      \<exists>q'. push v q = Some (Inr (), q') \<and> ok q' \<and> items q' = items q @ [v] \<and> room q' = room q"
    and pop_empty: "ok q \<Longrightarrow> items q = [] \<Longrightarrow> pop q = Some (None, q)"
    and pop_first: "ok q \<Longrightarrow> items q = x # xs \<Longrightarrow>
      \<exists>q'. pop q = Some (Some x, q') \<and> ok q' \<and> items q' = xs \<and> room q' = room q"
begin

lemma queue_run_fifo:
  assumes "ok q"
  shows "\<exists>acc out q'. queue_run push pop q ops = Some (acc, out, q') \<and> ok q' \<and> room q' = room q \<and>
    items q @ acc = out @ items q'"
  using assms
proof (induction ops arbitrary: q)
  case (Cons op ops)
  show ?case
  proof (cases op)
    case (QPush v)
    show ?thesis
    proof (cases "length (items q) = room q")
      case True
      with push_full [OF Cons.prems] Cons.IH [OF Cons.prems] QPush show ?thesis by auto
    next
      case False
      with items_le [OF Cons.prems] push_room [OF Cons.prems] obtain q1 where
        "push v q = Some (Inr (), q1)" "ok q1" "items q1 = items q @ [v]" "room q1 = room q"
        by (metis order_neq_le_trans)
      with Cons.IH [of q1] QPush show ?thesis by auto
    qed
  next
    case QPop
    show ?thesis
    proof (cases "items q")
      case Nil
      with pop_empty [OF Cons.prems] Cons.IH [OF Cons.prems] QPop show ?thesis by auto
    next
      case (Cons x xs)
      with pop_first [OF Cons.prems] obtain q1 where
        "pop q = Some (Some x, q1)" "ok q1" "items q1 = xs" "room q1 = room q" by blast
      with Cons.IH [of q1] QPop Cons show ?thesis by auto
    qed
  qed
qed simp

end

subsection \<open>The ring holds a queue\<close>

text \<open>
  \<open>ring_rep r n xs\<close>: the ring holds \<open>xs\<close>, and the oldest element is the \<open>n\<close>-th one
  pushed since the ring was made (only \<open>n\<close> modulo the capacity matters).
\<close>

definition ring_cap :: "'a ring \<Rightarrow> nat" where
  "ring_cap r = unat (rb_capacity r)"

definition pow2_cap :: "'a ring \<Rightarrow> bool" where
  "pow2_cap r \<longleftrightarrow> (\<exists>k \<le> 63. rb_capacity r = 2 ^ k) \<and> length (rb_buffer r) = ring_cap r"

definition ring_rep :: "'a ring \<Rightarrow> nat \<Rightarrow> 'a list \<Rightarrow> bool" where
  "ring_rep r n xs \<longleftrightarrow> pow2_cap r \<and> length xs < ring_cap r \<and>
     unat (rb_tail r) = n mod ring_cap r \<and>
     unat (rb_head r) = (n + length xs) mod ring_cap r \<and>
     (\<forall>i < length xs. rb_buffer r ! ((n + i) mod ring_cap r) = Some (xs ! i))"

definition ring_items :: "'a ring \<Rightarrow> 'a list" where
  "ring_items r = map (\<lambda>i. the (rb_buffer r ! ((unat (rb_tail r) + i) mod ring_cap r)))
     [0..<(unat (rb_head r) + ring_cap r - unat (rb_tail r)) mod ring_cap r]"

definition ring_wf :: "'a ring \<Rightarrow> bool" where
  "ring_wf r \<longleftrightarrow> ring_rep r (unat (rb_tail r)) (ring_items r)"

definition ring_room :: "'a ring \<Rightarrow> nat" where
  "ring_room r = unat (ring_capacity r)"

lemma unat_pow2_64:
  assumes "k \<le> 63"
  shows "unat (2 ^ k :: u64) = 2 ^ k"
proof -
  have "(2 :: nat) ^ k \<le> 2 ^ 63"
    using assms by (intro power_increasing) auto
  then have "unat (of_nat (2 ^ k) :: u64) = 2 ^ k"
    by (simp only: unat_of_nat) simp
  then show ?thesis by simp
qed

lemma unat_and_pow2:
  fixes x :: u64
  assumes "k \<le> 63"
  shows "unat (x AND (2 ^ k - 1)) = unat x mod 2 ^ k"
proof -
  have "x AND (2 ^ k - 1) = take_bit k x"
    by (simp only: take_bit_eq_mask mask_eq_exp_minus_1)
  then have "unat (x AND (2 ^ k - 1)) = take_bit k (unat x)"
    by (simp only: unsigned_take_bit_eq)
  then show ?thesis by (simp only: take_bit_eq_mod)
qed

lemma ring_cap_pow2: "pow2_cap r \<Longrightarrow> \<exists>k \<le> 63. rb_capacity r = 2 ^ k \<and> ring_cap r = 2 ^ k"
  by (auto simp: pow2_cap_def ring_cap_def unat_pow2_64)

lemma ring_cap_pos [simp]: "pow2_cap r \<Longrightarrow> 0 < ring_cap r"
  using ring_cap_pow2 by fastforce

lemma unat_ring_inc:
  assumes "pow2_cap r" and "unat i < ring_cap r"
  shows "unat (ring_inc r i) = (unat i + 1) mod ring_cap r"
proof -
  obtain k where k: "k \<le> 63" "rb_capacity r = 2 ^ k" "ring_cap r = 2 ^ k"
    using ring_cap_pow2 [OF assms(1)] by blast
  have "(2 :: nat) ^ k \<le> 2 ^ 63"
    using k(1) by (intro power_increasing) auto
  then have "unat i + 1 < 2 ^ 64"
    using assms(2) k(3) by simp
  then have "unat (i + 1) = unat i + 1"
    by (simp add: unat_word_ariths)
  with k show ?thesis by (simp add: ring_inc_def unat_and_pow2)
qed

lemma ring_room_cap: "pow2_cap r \<Longrightarrow> ring_room r = ring_cap r - 1"
proof -
  assume "pow2_cap r"
  then obtain k where k: "k \<le> 63" "rb_capacity r = 2 ^ k" "ring_cap r = 2 ^ k"
    using ring_cap_pow2 by blast
  have "(1 :: u64) \<le> 2 ^ k"
    using k by (simp add: word_le_nat_alt unat_pow2_64)
  then show ?thesis using k by (simp add: ring_room_def ring_capacity_def unat_sub unat_pow2_64)
qed

lemma mod_distinct_window:
  fixes n i j c :: nat
  assumes "i < c" and "j < c" and "(n + i) mod c = (n + j) mod c"
  shows "i = j"
proof (rule ccontr)
  assume "i \<noteq> j"
  then consider "i < j" | "j < i" by linarith
  then show False
  proof cases
    case 1
    then have "c dvd (n + j) - (n + i)"
      using assms(3) mod_eq_dvd_iff_nat [of "n + i" "n + j" c] by simp
    with 1 assms(2) show False by (auto dest: dvd_imp_le)
  next
    case 2
    then have "c dvd (n + i) - (n + j)"
      using assms(3) mod_eq_dvd_iff_nat [of "n + j" "n + i" c] by simp
    with 2 assms(1) show False by (auto dest: dvd_imp_le)
  qed
qed

lemma ring_repD:
  assumes "ring_rep r n xs"
  shows "pow2_cap r" and "length xs < ring_cap r" and "unat (rb_tail r) = n mod ring_cap r"
    and "unat (rb_head r) = (n + length xs) mod ring_cap r"
    and "i < length xs \<Longrightarrow> rb_buffer r ! ((n + i) mod ring_cap r) = Some (xs ! i)"
    and "length (rb_buffer r) = ring_cap r"
  using assms by (auto simp: ring_rep_def pow2_cap_def)

lemma ring_rep_items:
  assumes rep: "ring_rep r n xs"
  shows "ring_items r = xs"
proof (rule nth_equalityI)
  let ?c = "ring_cap r"
  have c: "0 < ?c" and len: "length xs < ?c"
    using rep ring_cap_pos by (auto dest: ring_repD)
  have "(unat (rb_head r) + ?c - unat (rb_tail r)) mod ?c = length xs mod ?c"
  proof -
    have "unat (rb_tail r) < ?c"
      using c by (simp add: ring_repD(3) [OF rep])
    then have "int ((unat (rb_head r) + ?c - unat (rb_tail r)) mod ?c) =
        (int (unat (rb_head r)) + int ?c - int (unat (rb_tail r))) mod int ?c"
      by (simp add: zmod_int of_nat_diff)
    also have "\<dots> = (int (unat (rb_head r)) - int (unat (rb_tail r)) + int ?c) mod int ?c"
      by (simp add: algebra_simps)
    also have "\<dots> = int (length xs) mod int ?c"
      unfolding mod_add_self2 by (simp add: ring_repD(3,4) [OF rep] zmod_int mod_simps)
    finally show ?thesis by (simp flip: zmod_int)
  qed
  with len have n: "(unat (rb_head r) + ?c - unat (rb_tail r)) mod ?c = length xs"
    by simp
  then show "length (ring_items r) = length xs"
    by (simp add: ring_items_def)
  fix i assume "i < length (ring_items r)"
  with n have i: "i < length xs" by (simp add: ring_items_def)
  then show "ring_items r ! i = xs ! i"
    using ring_repD(5) [OF rep i] n ring_repD(3) [OF rep] by (simp add: ring_items_def mod_simps)
qed

lemma ring_rep_tail: "ring_rep r n xs \<Longrightarrow> ring_rep r (unat (rb_tail r)) xs"
  by (auto simp: ring_rep_def mod_simps)

lemma ring_wf_iff: "ring_wf r \<longleftrightarrow> (\<exists>n xs. ring_rep r n xs)"
  using ring_rep_items ring_rep_tail by (fastforce simp: ring_wf_def)

lemma ring_inc_mod:
  assumes "pow2_cap r" and "unat i = n mod ring_cap r"
  shows "unat (ring_inc r i) = (n + 1) mod ring_cap r"
  using assms by (simp add: unat_ring_inc mod_simps)

text \<open>What the full and the empty test decide, also for indices read at different times.\<close>

lemma full_test:
  assumes cap: "pow2_cap r" and h: "unat h = (n + k) mod ring_cap r" and t: "unat t = n mod ring_cap r"
    and "k < ring_cap r"
  shows "ring_inc r h = t \<longleftrightarrow> k = ring_cap r - 1"
proof -
  let ?c = "ring_cap r"
  have "ring_inc r h = t \<longleftrightarrow> (n + (k + 1)) mod ?c = (n + 0) mod ?c"
    by (simp add: word_unat_eq_iff ring_inc_mod [OF cap h] t add.assoc)
  also have "\<dots> \<longleftrightarrow> k = ?c - 1"
  proof (cases "k + 1 = ?c")
    case True
    then show ?thesis by auto
  next
    case False
    with \<open>k < ?c\<close> have "k + 1 < ?c" and "0 < ?c" by auto
    then have "\<not> (n + (k + 1)) mod ?c = (n + 0) mod ?c"
      using mod_distinct_window [of "k + 1" ?c 0 n] by (metis add_is_0 one_neq_zero)
    moreover have "k \<noteq> ?c - 1" using False \<open>0 < ?c\<close> by simp
    ultimately show ?thesis by blast
  qed
  finally show ?thesis .
qed

lemma empty_test:
  assumes h: "unat h = (n + k) mod c" and t: "unat t = n mod c" and k: "k < (c :: nat)"
  shows "(t :: usize) = h \<longleftrightarrow> k = 0"
proof -
  have "t = h \<longleftrightarrow> (n + 0) mod c = (n + k) mod c"
    by (simp add: word_unat_eq_iff h t)
  with mod_distinct_window [of 0 c k n] k show ?thesis by auto
qed

text \<open>Writing the slot at the head, and emptying the one at the tail.\<close>

lemma ring_rep_write:
  assumes rep: "ring_rep r n xs" and room: "length xs < ring_cap r - 1"
    and h: "unat h = (n + length xs) mod ring_cap r"
  shows "ring_rep (r\<lparr>rb_buffer := (rb_buffer r)[unat h := Some v], rb_head := ring_inc r h\<rparr>) n (xs @ [v])"
proof -
  let ?c = "ring_cap r"
  have c: "0 < ?c" using rep ring_cap_pos by (auto dest: ring_repD)
  have slot: "unat h < length (rb_buffer r)"
    using c by (simp add: h ring_repD(6) [OF rep])
  have "(rb_buffer r)[unat h := Some v] ! ((n + i) mod ?c) = Some ((xs @ [v]) ! i)"
    if "i < Suc (length xs)" for i
  proof (cases "i = length xs")
    case True
    with slot show ?thesis by (simp add: h)
  next
    case False
    with that have i: "i < length xs" by simp
    moreover have "length xs < ?c" using ring_repD(2) [OF rep] .
    ultimately have "(n + i) mod ?c \<noteq> unat h"
      using mod_distinct_window [of i ?c "length xs" n] h by auto
    then show ?thesis using i by (simp add: nth_append ring_repD(5) [OF rep])
  qed
  moreover have "unat (ring_inc r h) = (n + length xs + 1) mod ?c"
    using ring_repD(1) [OF rep] h by (rule ring_inc_mod)
  ultimately show ?thesis
    using rep room by (simp add: ring_rep_def pow2_cap_def ring_cap_def)
qed

lemma ring_rep_take:
  assumes rep: "ring_rep r n (x # xs)" and t: "unat t = n mod ring_cap r"
  shows "ring_rep (r\<lparr>rb_buffer := (rb_buffer r)[unat t := None], rb_tail := ring_inc r t\<rparr>) (n + 1) xs"
proof -
  let ?c = "ring_cap r"
  have len: "Suc (length xs) < ?c" using ring_repD(2) [OF rep] by simp
  have "(rb_buffer r)[unat t := None] ! ((n + 1 + i) mod ?c) = Some (xs ! i)"
    if i: "i < length xs" for i
  proof -
    have "(n + (1 + i)) mod ?c \<noteq> (n + 0) mod ?c"
      using mod_distinct_window [of "1 + i" ?c 0 n] i len by auto
    then show ?thesis
      using ring_repD(5) [OF rep, of "Suc i"] i t by (simp add: add.assoc)
  qed
  moreover have "unat (ring_inc r t) = (n + 1) mod ?c"
    using ring_repD(1) [OF rep] t by (rule ring_inc_mod)
  ultimately show ?thesis
    using rep by (simp add: ring_rep_def pow2_cap_def ring_cap_def)
qed


lemma ring_rep_write':
  assumes "ring_rep r n xs" and "length xs < ring_cap r - 1"
  shows "\<exists>r'. try_push v r = Some (Inr (), r') \<and> ring_rep r' n (xs @ [v]) \<and> rb_capacity r' = rb_capacity r"
proof -
  have "ring_inc r (rb_head r) \<noteq> rb_tail r"
    using full_test [OF ring_repD(1,4,3) [OF assms(1)]] ring_repD(2) [OF assms(1)] assms(2) by simp
  moreover have "unat (rb_head r) < length (rb_buffer r)"
    using ring_repD(1,4,6) [OF assms(1)] by simp
  ultimately show ?thesis
    using ring_rep_write [OF assms ring_repD(4) [OF assms(1)]] by (simp add: try_push_def Let_def)
qed

lemma ring_rep_take':
  assumes "ring_rep r n (x # xs)"
  shows "\<exists>r'. try_pop r = Some (Some x, r') \<and> ring_rep r' (n + 1) xs \<and> rb_capacity r' = rb_capacity r"
proof -
  have "rb_tail r \<noteq> rb_head r"
    using empty_test [OF ring_repD(4,3,2) [OF assms]] by simp
  moreover have "unat (rb_tail r) < length (rb_buffer r)"
    using ring_repD(1,3,6) [OF assms] by simp
  moreover have "rb_buffer r ! unat (rb_tail r) = Some x"
    using ring_repD(5) [OF assms, of 0] ring_repD(3) [OF assms] by simp
  ultimately show ?thesis
    using ring_rep_take [OF assms ring_repD(3) [OF assms]] by (simp add: try_pop_def Let_def)
qed

lemma ring_wf_rep: "ring_wf r \<Longrightarrow> ring_rep r (unat (rb_tail r)) (ring_items r)"
  by (simp add: ring_wf_def)

lemma ring_wf_cap: "ring_wf r \<Longrightarrow> pow2_cap r"
  by (rule ring_repD(1) [OF ring_wf_rep])

interpretation spsc: bounded_queue try_push try_pop ring_items ring_room ring_wf
proof unfold_locales
  fix r :: "'a ring" and v x :: 'a and xs
  assume wf: "ring_wf r"
  note rep = ring_wf_rep [OF wf] and cap = ring_wf_cap [OF wf]
  have room: "ring_room r = ring_cap r - 1" by (rule ring_room_cap [OF cap])
  show "length (ring_items r) \<le> ring_room r"
    using ring_repD(2) [OF rep] room by simp
  show "try_push v r = Some (Inl v, r)" if "length (ring_items r) = ring_room r"
    using full_test [OF ring_repD(1,4,3,2) [OF rep]] that room by (simp add: try_push_def Let_def)
  show "\<exists>r'. try_push v r = Some (Inr (), r') \<and> ring_wf r' \<and> ring_items r' = ring_items r @ [v] \<and>
      ring_room r' = ring_room r" if "length (ring_items r) < ring_room r"
    using ring_rep_write' [OF rep, of v] that room
    by (metis ring_capacity_def ring_rep_items ring_room_def ring_wf_iff)
  show "try_pop r = Some (None, r)" if "ring_items r = []"
    using empty_test [OF ring_repD(4,3,2) [OF rep]] that by (simp add: try_pop_def Let_def)
  show "\<exists>r'. try_pop r = Some (Some x, r') \<and> ring_wf r' \<and> ring_items r' = xs \<and>
      ring_room r' = ring_room r" if "ring_items r = x # xs"
    using ring_rep_take' [OF rep [unfolded that]]
    by (metis ring_capacity_def ring_rep_items ring_room_def ring_wf_iff)
qed

subsection \<open>A new ring\<close>

lemma next_power_of_two_spec:
  assumes "unat n \<le> 2 ^ 63"
  shows "\<exists>k \<le> 63. next_power_of_two n = 2 ^ k \<and> unat n \<le> 2 ^ k \<and> (k = 0 \<or> 2 ^ (k - 1) < unat n)"
proof (cases "unat n \<le> 1")
  case True
  then have "bit_length (unat n - 1) = 0" by (simp add: bit_length.simps)
  then show ?thesis using True by (intro exI [of _ 0]) (simp add: next_power_of_two_def)
next
  case False
  let ?k = "bit_length (unat n - 1)"
  have b: "2 ^ (?k - 1) \<le> unat n - 1" "unat n - 1 < 2 ^ ?k"
    using bit_length_bounds [of "unat n - 1"] False by auto
  have "(2 :: nat) ^ (?k - 1) < 2 ^ 63"
    using b(1) assms False by linarith
  then have "?k - 1 < 63" by (rule power_less_imp_less_exp [rotated]) simp
  with b False show ?thesis
    by (intro exI [of _ ?k]) (auto simp: next_power_of_two_def)
qed

lemma ring_new_rep:
  assumes "unat n \<le> 2 ^ 63"
  shows "ring_rep (ring_new n) 0 []"
proof -
  obtain k where "k \<le> 63" "next_power_of_two n = 2 ^ k"
    using next_power_of_two_spec [OF assms] by blast
  then show ?thesis
    by (auto simp: ring_new_def Let_def ring_rep_def pow2_cap_def ring_cap_def unat_pow2_64)
qed

lemma ring_new_wf [wf_intros]: "unat n \<le> 2 ^ 63 \<Longrightarrow> ring_wf (ring_new n)"
  using ring_new_rep ring_wf_iff by blast

lemma ring_new_items: "unat n \<le> 2 ^ 63 \<Longrightarrow> ring_items (ring_new n) = []"
  by (rule ring_rep_items [OF ring_new_rep])

lemma ring_len_items:
  assumes "ring_wf r"
  shows "unat (ring_len r) = length (ring_items r)"
proof -
  note rep = ring_wf_rep [OF assms] and cap = ring_wf_cap [OF assms]
  obtain k where k: "k \<le> 63" "rb_capacity r = 2 ^ k" "ring_cap r = 2 ^ k"
    using ring_cap_pow2 [OF cap] by blast
  have lt: "unat (rb_tail r) < 2 ^ k" "unat (rb_head r) < 2 ^ k"
    using ring_repD(3,4) [OF rep] ring_cap_pos [OF cap] k by (metis mod_less_divisor)+
  have "(2 :: nat) ^ k \<le> 2 ^ 63"
    using k(1) by (intro power_increasing) auto
  then have s: "unat (rb_head r + rb_capacity r) = unat (rb_head r) + 2 ^ k"
    using lt k by (simp add: unat_word_ariths unat_pow2_64)
  then have "unat (rb_head r + rb_capacity r - rb_tail r) = unat (rb_head r) + 2 ^ k - unat (rb_tail r)"
    using lt by (subst unat_sub) (auto simp: word_le_nat_alt)
  then show ?thesis
    by (simp add: ring_len_def ring_items_def k unat_and_pow2)
qed


subsection \<open>One producer and one consumer, interleaved\<close>

text \<open>
  The threads' atomic steps: each load of an index, the access to a slot, each store of an
  index. \<open>p_stale\<close> and \<open>c_stale\<close> are the copies a thread holds, which the other
  thread may have made out of date. The logs \<open>pushed\<close> and \<open>popped\<close> are ghosts:
  what the producer has published and what the consumer has taken.
  Loads return the current value, and steps happen in one global order; each index has one
  writer and is published with \<open>Release\<close>/\<open>Acquire\<close>, and a value that is out of date
  when it is used is covered because the thread's next step may come much later.
\<close>

datatype 'a producer_pc = PIdle | PHead 'a usize | PTail 'a usize usize | PWrote usize
datatype 'a consumer_pc = CIdle | CTail usize | CHead usize usize | CTook "'a option" usize

record 'a spsc_sys =
  sys_ring :: "'a ring"
  producer :: "'a producer_pc"
  consumer :: "'a consumer_pc"
  pushed :: "'a list"
  popped :: "'a list"
  pending :: "'a list"

inductive spsc_step :: "'a spsc_sys \<Rightarrow> 'a spsc_sys \<Rightarrow> bool" where
  p_load_head: "producer s = PIdle \<Longrightarrow>
     spsc_step s (s\<lparr>producer := PHead v (rb_head (sys_ring s))\<rparr>)"
| p_load_tail: "producer s = PHead v h \<Longrightarrow>
     spsc_step s (s\<lparr>producer := PTail v h (rb_tail (sys_ring s))\<rparr>)"
| p_full: "producer s = PTail v h t \<Longrightarrow> ring_inc (sys_ring s) h = t \<Longrightarrow>
     spsc_step s (s\<lparr>producer := PIdle\<rparr>)"
| p_write: "producer s = PTail v h t \<Longrightarrow> ring_inc (sys_ring s) h \<noteq> t \<Longrightarrow>
     spsc_step s (s\<lparr>sys_ring := (sys_ring s)\<lparr>rb_buffer := (rb_buffer (sys_ring s))[unat h := Some v]\<rparr>,
       producer := PWrote (ring_inc (sys_ring s) h), pending := [v]\<rparr>)"
| p_publish: "producer s = PWrote nh \<Longrightarrow>
     spsc_step s (s\<lparr>sys_ring := (sys_ring s)\<lparr>rb_head := nh\<rparr>, producer := PIdle,
       pushed := pushed s @ pending s, pending := []\<rparr>)"
| c_load_tail: "consumer s = CIdle \<Longrightarrow>
     spsc_step s (s\<lparr>consumer := CTail (rb_tail (sys_ring s))\<rparr>)"
| c_load_head: "consumer s = CTail t \<Longrightarrow>
     spsc_step s (s\<lparr>consumer := CHead t (rb_head (sys_ring s))\<rparr>)"
| c_empty: "consumer s = CHead t h \<Longrightarrow> t = h \<Longrightarrow> spsc_step s (s\<lparr>consumer := CIdle\<rparr>)"
| c_take: "consumer s = CHead t h \<Longrightarrow> t \<noteq> h \<Longrightarrow>
     spsc_step s (s\<lparr>sys_ring := (sys_ring s)\<lparr>rb_buffer := (rb_buffer (sys_ring s))[unat t := None]\<rparr>,
       consumer := CTook (rb_buffer (sys_ring s) ! unat t) (ring_inc (sys_ring s) t)\<rparr>)"
| c_release: "consumer s = CTook v nt \<Longrightarrow>
     spsc_step s (s\<lparr>sys_ring := (sys_ring s)\<lparr>rb_tail := nt\<rparr>, consumer := CIdle,
       popped := popped s @ (case v of None \<Rightarrow> [] | Some x \<Rightarrow> [x])\<rparr>)"

definition spsc_init :: "usize \<Rightarrow> 'a spsc_sys" where
  "spsc_init n = \<lparr>sys_ring = ring_new n, producer = PIdle, consumer = CIdle,
     pushed = [], popped = [], pending = []\<rparr>"

inductive spsc_reach :: "usize \<Rightarrow> 'a spsc_sys \<Rightarrow> bool" for n where
  spsc_start: "spsc_reach n (spsc_init n)"
| spsc_next: "spsc_reach n s \<Longrightarrow> spsc_step s s' \<Longrightarrow> spsc_reach n s'"

text \<open>
  The invariant. \<open>P\<close> counts the publications and \<open>C\<close> the releases since the start, so
  \<open>P - C\<close> elements lie between the indices; a stale tail lies behind the real one and
  within one lap of the head, a stale head between the tail and the real head.
\<close>

definition producer_ok :: "'a ring \<Rightarrow> nat \<Rightarrow> nat \<Rightarrow> 'a producer_pc \<Rightarrow> 'a list \<Rightarrow> bool" where
  "producer_ok r P C pc pend = (case pc of
     PIdle \<Rightarrow> pend = []
   | PHead v h \<Rightarrow> h = rb_head r \<and> pend = []
   | PTail v h t \<Rightarrow> h = rb_head r \<and> pend = [] \<and>
       (\<exists>C0 \<le> C. unat t = C0 mod ring_cap r \<and> P < C0 + ring_cap r)
   | PWrote nh \<Rightarrow> unat nh = (P + 1) mod ring_cap r \<and> P + 1 < C + ring_cap r \<and>
       (\<exists>v. pend = [v] \<and> rb_buffer r ! (P mod ring_cap r) = Some v))"

definition consumer_ok :: "'a ring \<Rightarrow> nat \<Rightarrow> nat \<Rightarrow> 'a list \<Rightarrow> 'a consumer_pc \<Rightarrow> bool" where
  "consumer_ok r P C xs pc = (case pc of
     CIdle \<Rightarrow> True
   | CTail t \<Rightarrow> t = rb_tail r
   | CHead t h \<Rightarrow> t = rb_tail r \<and> (\<exists>P0 \<le> P. C \<le> P0 \<and> unat h = P0 mod ring_cap r)
   | CTook v nt \<Rightarrow> unat nt = (C + 1) mod ring_cap r \<and> C < P \<and> v = Some (xs ! C))"

definition slots_ok :: "'a ring \<Rightarrow> nat \<Rightarrow> nat \<Rightarrow> 'a list \<Rightarrow> 'a consumer_pc \<Rightarrow> bool" where
  "slots_ok r P C xs pc \<longleftrightarrow>
     (\<forall>i. (if \<exists>v nt. pc = CTook v nt then C + 1 else C) \<le> i \<longrightarrow> i < P \<longrightarrow>
        rb_buffer r ! (i mod ring_cap r) = Some (xs ! i))"

definition spsc_inv :: "'a spsc_sys \<Rightarrow> bool" where
  "spsc_inv s \<longleftrightarrow> (let r = sys_ring s; P = length (pushed s); C = length (popped s) in
     pow2_cap r \<and> C \<le> P \<and> P < C + ring_cap r \<and>
     unat (rb_head r) = P mod ring_cap r \<and> unat (rb_tail r) = C mod ring_cap r \<and>
     popped s = take C (pushed s) \<and>
     slots_ok r P C (pushed s) (consumer s) \<and>
     producer_ok r P C (producer s) (pending s) \<and> consumer_ok r P C (pushed s) (consumer s))"


lemma mod_neq_window:
  assumes "i < j" and "j < i + (c :: nat)"
  shows "i mod c \<noteq> j mod c"
proof -
  have "j - i < c" and "0 < c" using assms by linarith+
  then show ?thesis using mod_distinct_window [of 0 c "j - i" i] assms(1) by auto
qed

lemma ring_inc_update [simp]:
  "ring_inc (r\<lparr>rb_buffer := b\<rparr>) i = ring_inc r i"
  "ring_inc (r\<lparr>rb_head := h\<rparr>) i = ring_inc r i"
  "ring_inc (r\<lparr>rb_tail := t\<rparr>) i = ring_inc r i"
  by (simp_all add: ring_inc_def)

lemma ring_cap_update [simp]:
  "ring_cap (r\<lparr>rb_buffer := b\<rparr>) = ring_cap r"
  "ring_cap (r\<lparr>rb_head := h\<rparr>) = ring_cap r"
  "ring_cap (r\<lparr>rb_tail := t\<rparr>) = ring_cap r"
  by (simp_all add: ring_cap_def)

lemma pow2_cap_update [simp]:
  "pow2_cap (r\<lparr>rb_buffer := (rb_buffer r)[i := x]\<rparr>) = pow2_cap r"
  "pow2_cap (r\<lparr>rb_head := h\<rparr>) = pow2_cap r"
  "pow2_cap (r\<lparr>rb_tail := t\<rparr>) = pow2_cap r"
  by (simp_all add: pow2_cap_def ring_cap_def)

lemma stale_full_test:
  assumes "pow2_cap r" and "unat h = P mod ring_cap r" and "unat t = C0 mod ring_cap r"
    and "P < C0 + ring_cap r" and "ring_inc r h \<noteq> t"
  shows "P + 1 < C0 + ring_cap r"
proof (rule ccontr)
  assume "\<not> P + 1 < C0 + ring_cap r"
  with assms(4) have "P + 1 = C0 + ring_cap r" by simp
  then have "unat (ring_inc r h) = unat t"
    by (simp add: ring_inc_mod [OF assms(1,2)] assms(3))
  with assms(5) show False by (simp add: word_unat_eq_iff)
qed

lemma producer_ok_release:
  "producer_ok r P C pc xs \<Longrightarrow> producer_ok (r\<lparr>rb_tail := t\<rparr>) P (Suc C) pc xs"
  unfolding producer_ok_def
  by (cases pc) (simp_all, metis le_SucI)

lemma consumer_ok_publish:
  "consumer_ok r (length xs) C xs pc \<Longrightarrow> consumer_ok (r\<lparr>rb_head := h\<rparr>) (Suc (length xs)) C (xs @ [v]) pc"
  unfolding consumer_ok_def
  by (cases pc) (simp_all add: nth_append, metis le_SucI)

text \<open>The slot the producer is about to write is none of the slots the consumer may read.\<close>

lemma write_slot_free:
  assumes inv: "spsc_inv s" and pc: "producer s = PTail v h t" and go: "ring_inc (sys_ring s) h \<noteq> t"
  shows "unat h = length (pushed s) mod ring_cap (sys_ring s)"
    and "length (pushed s) + 1 < length (popped s) + ring_cap (sys_ring s)"
proof -
  show h: "unat h = length (pushed s) mod ring_cap (sys_ring s)"
    using inv pc by (simp add: spsc_inv_def Let_def producer_ok_def)
  obtain C0 where "C0 \<le> length (popped s)" "unat t = C0 mod ring_cap (sys_ring s)"
      "length (pushed s) < C0 + ring_cap (sys_ring s)"
    using inv pc by (auto simp: spsc_inv_def Let_def producer_ok_def)
  moreover have "pow2_cap (sys_ring s)" using inv by (simp add: spsc_inv_def Let_def)
  ultimately show "length (pushed s) + 1 < length (popped s) + ring_cap (sys_ring s)"
    using stale_full_test [OF _ h _ _ go] by fastforce
qed

lemma take_slot_filled:
  assumes inv: "spsc_inv s" and pc: "consumer s = CHead t h" and go: "t \<noteq> h"
  shows "unat t = length (popped s) mod ring_cap (sys_ring s)"
    and "length (popped s) < length (pushed s)"
    and "rb_buffer (sys_ring s) ! unat t = Some (pushed s ! length (popped s))"
proof -
  let ?r = "sys_ring s" and ?C = "length (popped s)" and ?P = "length (pushed s)"
  show t: "unat t = ?C mod ring_cap ?r"
    using inv pc by (simp add: spsc_inv_def Let_def consumer_ok_def)
  obtain P0 where "P0 \<le> ?P" "?C \<le> P0" "unat h = P0 mod ring_cap ?r"
    using inv pc by (auto simp: spsc_inv_def Let_def consumer_ok_def)
  moreover have "P0 \<noteq> ?C"
    using go t \<open>unat h = P0 mod ring_cap ?r\<close> by (auto simp: word_unat_eq_iff)
  ultimately show lt: "?C < ?P" by simp
  show "rb_buffer ?r ! unat t = Some (pushed s ! ?C)"
    using inv pc lt by (simp add: spsc_inv_def Let_def slots_ok_def t)
qed

lemma inv_p_write:
  assumes inv: "spsc_inv s" and pc: "producer s = PTail v h t" and go: "ring_inc (sys_ring s) h \<noteq> t"
  shows "spsc_inv (s\<lparr>sys_ring := (sys_ring s)\<lparr>rb_buffer := (rb_buffer (sys_ring s))[unat h := Some v]\<rparr>,
       producer := PWrote (ring_inc (sys_ring s) h), pending := [v]\<rparr>)"
proof -
  let ?r = "sys_ring s" and ?C = "length (popped s)" and ?P = "length (pushed s)"
  note h = write_slot_free(1) [OF inv pc go] and room = write_slot_free(2) [OF inv pc go]
  have cap: "pow2_cap ?r" using inv by (simp add: spsc_inv_def Let_def)
  have len: "?P mod ring_cap ?r < length (rb_buffer ?r)"
    using cap ring_cap_pos [OF cap] by (simp add: pow2_cap_def)
  have "slots_ok (?r\<lparr>rb_buffer := (rb_buffer ?r)[unat h := Some v]\<rparr>) ?P ?C (pushed s) (consumer s)"
    unfolding slots_ok_def
  proof (intro allI impI)
    fix i assume i: "(if \<exists>v nt. consumer s = CTook v nt then ?C + 1 else ?C) \<le> i" "i < ?P"
    then have "?C \<le> i" by (simp split: if_splits)
    with i room have "i mod ring_cap ?r \<noteq> ?P mod ring_cap ?r"
      by (intro mod_neq_window) auto
    then show "rb_buffer (?r\<lparr>rb_buffer := (rb_buffer ?r)[unat h := Some v]\<rparr>) !
        (i mod ring_cap (?r\<lparr>rb_buffer := (rb_buffer ?r)[unat h := Some v]\<rparr>)) = Some (pushed s ! i)"
      using inv i by (simp add: h spsc_inv_def Let_def slots_ok_def)
  qed
  then show ?thesis
    using inv pc room len ring_inc_mod [OF cap h] h
    by (simp add: spsc_inv_def Let_def producer_ok_def consumer_ok_def split: consumer_pc.splits)
qed

lemma inv_c_take:
  assumes inv: "spsc_inv s" and pc: "consumer s = CHead t h" and go: "t \<noteq> h"
  shows "spsc_inv (s\<lparr>sys_ring := (sys_ring s)\<lparr>rb_buffer := (rb_buffer (sys_ring s))[unat t := None]\<rparr>,
       consumer := CTook (rb_buffer (sys_ring s) ! unat t) (ring_inc (sys_ring s) t)\<rparr>)"
proof -
  let ?r = "sys_ring s" and ?C = "length (popped s)" and ?P = "length (pushed s)"
  note t = take_slot_filled [OF inv pc go]
  have cap: "pow2_cap ?r" and lap: "?P < ?C + ring_cap ?r"
    using inv by (simp_all add: spsc_inv_def Let_def)
  have far: "?C mod ring_cap ?r \<noteq> i mod ring_cap ?r" if "?C < i" "i \<le> ?P" for i
    using that lap by (intro mod_neq_window) auto
  have "slots_ok (?r\<lparr>rb_buffer := (rb_buffer ?r)[unat t := None]\<rparr>) ?P ?C (pushed s)
      (CTook (rb_buffer ?r ! unat t) (ring_inc ?r t))"
    using inv pc far by (auto simp: spsc_inv_def Let_def slots_ok_def t)
  moreover have "producer_ok (?r\<lparr>rb_buffer := (rb_buffer ?r)[unat t := None]\<rparr>) ?P ?C (producer s) (pending s)"
    using inv far [of ?P] t
    by (auto simp: spsc_inv_def Let_def producer_ok_def split: producer_pc.splits)
  ultimately show ?thesis
    using inv pc t ring_inc_mod [OF cap t(1)]
    by (simp add: spsc_inv_def Let_def consumer_ok_def)
qed

lemma inv_p_publish:
  assumes inv: "spsc_inv s" and pc: "producer s = PWrote nh"
  shows "spsc_inv (s\<lparr>sys_ring := (sys_ring s)\<lparr>rb_head := nh\<rparr>, producer := PIdle,
       pushed := pushed s @ pending s, pending := []\<rparr>)"
proof -
  let ?r = "sys_ring s" and ?C = "length (popped s)" and ?P = "length (pushed s)"
  obtain v where v: "pending s = [v]" "rb_buffer ?r ! (?P mod ring_cap ?r) = Some v"
    using inv pc by (auto simp: spsc_inv_def Let_def producer_ok_def)
  have "slots_ok (?r\<lparr>rb_head := nh\<rparr>) (Suc ?P) ?C (pushed s @ [v]) (consumer s)"
    using inv v by (auto simp: spsc_inv_def Let_def slots_ok_def nth_append less_Suc_eq)
  moreover have "consumer_ok (?r\<lparr>rb_head := nh\<rparr>) (Suc ?P) ?C (pushed s @ [v]) (consumer s)"
    using inv by (intro consumer_ok_publish) (simp add: spsc_inv_def Let_def)
  ultimately show ?thesis
    using inv pc v by (simp add: spsc_inv_def Let_def producer_ok_def)
qed

lemma inv_c_release:
  assumes inv: "spsc_inv s" and pc: "consumer s = CTook v nt"
  shows "spsc_inv (s\<lparr>sys_ring := (sys_ring s)\<lparr>rb_tail := nt\<rparr>, consumer := CIdle,
       popped := popped s @ (case v of None \<Rightarrow> [] | Some x \<Rightarrow> [x])\<rparr>)"
proof -
  let ?r = "sys_ring s" and ?C = "length (popped s)" and ?P = "length (pushed s)"
  have v: "v = Some (pushed s ! ?C)" "?C < ?P" "unat nt = (?C + 1) mod ring_cap ?r"
    using inv pc by (simp_all add: spsc_inv_def Let_def consumer_ok_def)
  have "producer_ok (?r\<lparr>rb_tail := nt\<rparr>) ?P (Suc ?C) (producer s) (pending s)"
    using inv by (intro producer_ok_release) (simp add: spsc_inv_def Let_def)
  moreover have "popped s @ [pushed s ! ?C] = take (Suc ?C) (pushed s)"
    using inv v(2) by (simp add: spsc_inv_def Let_def take_Suc_conv_app_nth)
  ultimately show ?thesis
    using inv pc v by (simp add: spsc_inv_def Let_def consumer_ok_def slots_ok_def)
qed

lemma spsc_inv_step:
  assumes "spsc_step s s'" and inv: "spsc_inv s"
  shows "spsc_inv s'"
  using assms(1)
proof cases
  case (p_load_tail v h)
  then show ?thesis using inv by (auto simp: spsc_inv_def Let_def producer_ok_def)
next
  case (c_load_head t)
  then show ?thesis using inv by (auto simp: spsc_inv_def Let_def consumer_ok_def slots_ok_def)
next
  case p_write
  then show ?thesis using inv_p_write [OF inv] by blast
next
  case p_publish
  then show ?thesis using inv_p_publish [OF inv] by blast
next
  case c_take
  then show ?thesis using inv_c_take [OF inv] by blast
next
  case c_release
  then show ?thesis using inv_c_release [OF inv] by blast
qed (use inv in \<open>auto simp: spsc_inv_def Let_def producer_ok_def consumer_ok_def slots_ok_def\<close>)

lemma spsc_inv_init: "unat n \<le> 2 ^ 63 \<Longrightarrow> spsc_inv (spsc_init n)"
  using ring_repD [OF ring_new_rep]
  by (auto simp: spsc_inv_def spsc_init_def Let_def producer_ok_def consumer_ok_def slots_ok_def)

lemma spsc_reach_inv: "spsc_reach n s \<Longrightarrow> unat n \<le> 2 ^ 63 \<Longrightarrow> spsc_inv s"
  by (induction rule: spsc_reach.induct) (auto intro: spsc_inv_init spsc_inv_step)


subsection \<open>Properties\<close>



text \<open>C7: With one producer and one consumer running in any interleaving of their atomic steps,
  what the consumer has received is a prefix of what the producer has published, at most
  capacity - 1 elements are in between, and the two threads never touch the same slot: whenever
  one is about to write and the other is about to take, the slots differ, and the slot the
  consumer takes holds the next element in order.\<close>

theorem spsc_interleaved_safe:
  assumes "spsc_reach n s" and "unat n \<le> 2 ^ 63"
  shows "popped s = take (length (popped s)) (pushed s) \<and>
    length (pushed s) - length (popped s) < unat (rb_capacity (sys_ring s)) \<and>
    (\<forall>t h. consumer s = CHead t h \<and> t \<noteq> h \<longrightarrow>
      rb_buffer (sys_ring s) ! unat t = Some (pushed s ! length (popped s)) \<and>
      (\<forall>v ph pt. producer s = PTail v ph pt \<and> ring_inc (sys_ring s) ph \<noteq> pt \<longrightarrow> ph \<noteq> t))"
proof -
  have inv: "spsc_inv s" by (rule spsc_reach_inv [OF assms])
  have take: "popped s = take (length (popped s)) (pushed s)"
      "length (pushed s) - length (popped s) < unat (rb_capacity (sys_ring s))"
    using inv by (auto simp: spsc_inv_def Let_def ring_cap_def)
  have "rb_buffer (sys_ring s) ! unat t = Some (pushed s ! length (popped s)) \<and>
      (\<forall>v ph pt. producer s = PTail v ph pt \<and> ring_inc (sys_ring s) ph \<noteq> pt \<longrightarrow> ph \<noteq> t)"
    if pc: "consumer s = CHead t h" and go: "t \<noteq> h" for t h
  proof -
    note t = take_slot_filled [OF inv pc go]
    have "ph \<noteq> t" if "producer s = PTail v ph pt" "ring_inc (sys_ring s) ph \<noteq> pt" for v ph pt
    proof -
      have "length (popped s) mod ring_cap (sys_ring s) \<noteq> length (pushed s) mod ring_cap (sys_ring s)"
        using write_slot_free(2) [OF inv that] t(2) by (intro mod_neq_window) auto
      then show ?thesis using write_slot_free(1) [OF inv that] t(1) by auto
    qed
    with t(3) show ?thesis by blast
  qed
  with take show ?thesis by blast
qed

lemma spsc_interleaved_safe_witness:
  "\<exists>s :: nat spsc_sys. spsc_reach 2 s \<and> producer s = PHead 5 0 \<and>
    popped s = take (length (popped s)) (pushed s) \<and>
    length (pushed s) - length (popped s) < unat (rb_capacity (sys_ring s)) \<and>
    (\<forall>t h. consumer s = CHead t h \<and> t \<noteq> h \<longrightarrow>
      rb_buffer (sys_ring s) ! unat t = Some (pushed s ! length (popped s)) \<and>
      (\<forall>v ph pt. producer s = PTail v ph pt \<and> ring_inc (sys_ring s) ph \<noteq> pt \<longrightarrow> ph \<noteq> t))"
proof -
  let ?s = "(spsc_init 2 :: nat spsc_sys)\<lparr>producer := PHead 5 0\<rparr>"
  have "spsc_step (spsc_init 2) ?s"
    using p_load_head [of "spsc_init 2 :: nat spsc_sys" 5]
    by (simp add: spsc_init_def ring_new_def Let_def)
  then have reach: "spsc_reach 2 ?s" by (rule spsc_next [OF spsc_start])
  have "unat (2 :: usize) \<le> 2 ^ 63" by simp
  from spsc_interleaved_safe [OF reach this] reach show ?thesis
    by (intro exI [of _ ?s]) simp
qed

end
