(* ===== verification/Sequencer.thy ===== *)
theory Sequencer
  imports Core_Event Clock
begin

section \<open>atomic-bus: the event sequencer (sequencer.rs)\<close>

text \<open>
  \<open>EventSequencer\<close> gives every event the next number of its \<open>SequenceGenerator\<close> and keeps
  the last \<open>max_buffer_size\<close> of them. The numbering rests on the laws of \<open>seq_next\<close>
  proved in the clock theory (interpretation \<open>sg\<close>).
\<close>

record sequencer =
  es_seq_gen :: seq_gen
  es_buffer :: "event list"
  es_max_buffer_size :: usize

definition sequencer_new :: "usize \<Rightarrow> sequencer" where
  "sequencer_new max_size =
     \<lparr>es_seq_gen = seq_gen_new, es_buffer = [], es_max_buffer_size = max_size\<rparr>"

definition sequence :: "sequencer \<Rightarrow> event \<Rightarrow> u64 \<times> sequencer" where
  "sequence s e =
     (let (n, g) = seq_next (es_seq_gen s);
          e = e\<lparr>ev_seq := n\<rparr>;
          buf = (if unat (es_max_buffer_size s) \<le> length (es_buffer s)
                 then tl (es_buffer s) else es_buffer s)
      in (n, s\<lparr>es_seq_gen := g, es_buffer := buf @ [e]\<rparr>))"

definition sequencer_drain :: "sequencer \<Rightarrow> event list \<times> sequencer" where
  "sequencer_drain s = (es_buffer s, s\<lparr>es_buffer := []\<rparr>)"

definition sequencer_peek :: "sequencer \<Rightarrow> event option" where
  "sequencer_peek s = (case es_buffer s of [] \<Rightarrow> None | e # _ \<Rightarrow> Some e)"

definition sequencer_len :: "sequencer \<Rightarrow> nat" where
  "sequencer_len s = length (es_buffer s)"

definition sequencer_is_empty :: "sequencer \<Rightarrow> bool" where
  "sequencer_is_empty s \<longleftrightarrow> es_buffer s = []"

definition current_seq :: "sequencer \<Rightarrow> u64" where
  "current_seq s = seq_peek (es_seq_gen s) - 1"

subsection \<open>Runs of the sequencer\<close>

datatype sequencer_op = Sequence event | Drain

datatype sequencer_out = Numbered u64 | Drained "event list"

fun sequencer_step :: "sequencer \<Rightarrow> sequencer_op \<Rightarrow> sequencer_out \<times> sequencer" where
  "sequencer_step s (Sequence e) = (let (n, s') = sequence s e in (Numbered n, s'))"
| "sequencer_step s Drain = (let (es, s') = sequencer_drain s in (Drained es, s'))"

fun numbers :: "sequencer_out list \<Rightarrow> u64 list" where
  "numbers [] = []"
| "numbers (Numbered n # os) = n # numbers os"
| "numbers (Drained es # os) = numbers os"

fun drained :: "sequencer_out list \<Rightarrow> event list" where
  "drained [] = []"
| "drained (Numbered n # os) = drained os"
| "drained (Drained es # os) = es @ drained os"

text \<open>The buffer holds the events last numbered, without a gap.\<close>

definition sequencer_wf :: "sequencer \<Rightarrow> bool" where
  "sequencer_wf s \<longleftrightarrow>
     length (es_buffer s) \<le> max 1 (unat (es_max_buffer_size s)) \<and>
     (\<forall>i < length (es_buffer s).
        ev_seq (es_buffer s ! i) = es_seq_gen s - of_nat (length (es_buffer s) - i))"

lemma sequencer_wf_new [simp, wf_intros]: "sequencer_wf (sequencer_new n)"
  by (simp add: sequencer_wf_def sequencer_new_def)

lemma sequencer_wf_drain [wf_intros]: "sequencer_wf s \<Longrightarrow> sequencer_wf (snd (sequencer_drain s))"
  by (simp add: sequencer_wf_def sequencer_drain_def)

lemma sequencer_wf_sequence [wf_intros]:
  assumes wf: "sequencer_wf s"
  shows "sequencer_wf (snd (sequence s e))"
proof -
  let ?b = "es_buffer s" and ?m = "unat (es_max_buffer_size s)"
  define buf where "buf = (if ?m \<le> length ?b then tl ?b else ?b)"
  have len: "length buf + 1 \<le> max 1 ?m"
    using wf by (auto simp: buf_def sequencer_wf_def)
  have "ev_seq ((buf @ [e\<lparr>ev_seq := es_seq_gen s\<rparr>]) ! i) =
      es_seq_gen s + 1 - of_nat (length buf + 1 - i)" if i: "i < length buf + 1" for i
  proof (cases "i = length buf")
    case False
    with i have lt: "i < length buf" by simp
    have "ev_seq (buf ! i) = es_seq_gen s - of_nat (length buf - i)"
    proof (cases "?m \<le> length ?b")
      case True
      with lt have "Suc i < length ?b" by (simp add: buf_def)
      with wf have "ev_seq (?b ! Suc i) = es_seq_gen s - of_nat (length ?b - Suc i)"
        by (simp add: sequencer_wf_def)
      with True lt show ?thesis by (simp add: buf_def nth_tl)
    qed (use wf lt in \<open>simp add: buf_def sequencer_wf_def\<close>)
    with lt show ?thesis by (simp add: nth_append Suc_diff_le)
  qed simp
  with len show ?thesis
    by (simp add: sequence_def seq_next_def Let_def sequencer_wf_def buf_def [symmetric])
qed

lemma sequencer_wf_step: "sequencer_wf s \<Longrightarrow> sequencer_wf (snd (sequencer_step s op))"
  using sequencer_wf_sequence [of s] sequencer_wf_drain [of s]
  by (cases op) (auto split: prod.splits, metis snd_conv)

lemma step_gen:
  "es_seq_gen (snd (sequencer_step s op)) = es_seq_gen s + of_nat (length (numbers [fst (sequencer_step s op)]))"
  "numbers [fst (sequencer_step s op)] = (case op of Sequence _ \<Rightarrow> [es_seq_gen s] | Drain \<Rightarrow> [])"
  by (cases op; simp add: sequence_def seq_next_def sequencer_drain_def Let_def)+

lemma run_numbers:
  "numbers (fst (run_ops sequencer_step s ops)) =
     map (\<lambda>i. es_seq_gen s + of_nat i) [0..<length (numbers (fst (run_ops sequencer_step s ops)))]"
proof (induction ops arbitrary: s)
  case (Cons op ops)
  obtain o1 s1 where st: "sequencer_step s op = (o1, s1)" by fastforce
  obtain os s2 where run: "run_ops sequencer_step s1 ops = (os, s2)" by fastforce
  have ih: "numbers os = map (\<lambda>i. es_seq_gen s1 + of_nat i) [0..<length (numbers os)]"
    using Cons.IH [of s1] run by simp
  show ?case
  proof (cases op)
    case (Sequence e)
    then have "o1 = Numbered (es_seq_gen s)" and g: "es_seq_gen s1 = es_seq_gen s + 1"
      using st by (auto simp: sequence_def seq_next_def Let_def)
    moreover have "map (\<lambda>i. es_seq_gen s + of_nat i) [0..<Suc n] =
        es_seq_gen s # map (\<lambda>i. es_seq_gen s1 + of_nat i) [0..<n]" for n
      by (simp add: upt_conv_Cons map_Suc_upt [symmetric] g comp_def del: upt_Suc)
    ultimately show ?thesis using ih st run by (simp del: upt_Suc)
  next
    case Drain
    then have "o1 = Drained (es_buffer s)" and "es_seq_gen s1 = es_seq_gen s"
      using st by (auto simp: sequencer_drain_def)
    with ih st run show ?thesis by simp
  qed
qed simp


lemma sequencer_wf_run: "sequencer_wf s \<Longrightarrow> sequencer_wf (snd (run_ops sequencer_step s ops))"
  by (rule run_ops_invariant [where P = sequencer_wf]) (rule sequencer_wf_step)

lemma run_gen:
  "es_seq_gen (snd (run_ops sequencer_step s ops)) =
     es_seq_gen s + of_nat (length (numbers (fst (run_ops sequencer_step s ops))))"
proof (induction ops arbitrary: s)
  case (Cons op ops)
  obtain o1 s1 where st: "sequencer_step s op = (o1, s1)" by fastforce
  obtain os s2 where run: "run_ops sequencer_step s1 ops = (os, s2)" by fastforce
  have "es_seq_gen s1 = es_seq_gen s + of_nat (length (numbers [o1]))"
    using step_gen(1) [of s op] st by simp
  with Cons.IH [of s1] st run show ?case by (cases o1) simp_all
qed simp

subsection \<open>What the buffer holds\<close>

lemma run_sequence_buffer:
  "es_buffer (snd (run_ops sequence (sequencer_new m) es)) =
     drop (length es - max 1 (unat m)) (number_from 1 es) \<and>
   es_seq_gen (snd (run_ops sequence (sequencer_new m) es)) = 1 + of_nat (length es) \<and>
   es_max_buffer_size (snd (run_ops sequence (sequencer_new m) es)) = m"
proof (induction es rule: rev_induct)
  case Nil
  show ?case by (simp add: sequencer_new_def seq_gen_new_def)
next
  case (snoc e es)
  define s where "s = snd (run_ops sequence (sequencer_new m) es)"
  let ?all = "number_from 1 es" and ?k = "max 1 (unat m)"
  have s: "es_buffer s = drop (length es - ?k) ?all"
      "es_seq_gen s = 1 + of_nat (length es)" "es_max_buffer_size s = m"
    using snoc.IH by (auto simp: s_def)
  have "(if unat m \<le> length (es_buffer s) then tl (es_buffer s) else es_buffer s) =
      drop (Suc (length es) - ?k) ?all"
  proof (cases "?k \<le> length es")
    case True
    then show ?thesis by (simp add: s tl_drop Suc_diff_le drop_Suc)
  next
    case False
    then show ?thesis by (cases es) (auto simp: s)
  qed
  then show ?case
    unfolding snd_run_ops_snoc s_def [symmetric]
    by (simp add: sequence_def seq_next_def Let_def s number_from_snoc)
qed

subsection \<open>Properties\<close>

text \<open> A fresh sequencer hands out the numbers 1, 2, 3, ... without gap or repetition,
  whatever events it is given and however often it is drained in between.\<close>

theorem sequencer_consecutive:
  "numbers (fst (run_ops sequencer_step (sequencer_new m) ops)) =
     map (\<lambda>i. 1 + of_nat i) [0..<length (numbers (fst (run_ops sequencer_step (sequencer_new m) ops)))] \<and>
   current_seq (snd (run_ops sequencer_step (sequencer_new m) ops)) =
     of_nat (length (numbers (fst (run_ops sequencer_step (sequencer_new m) ops))))"
  using run_numbers [of "sequencer_new m" ops] run_gen [of "sequencer_new m" ops]
  by (simp add: sequencer_new_def seq_gen_new_def current_seq_def seq_peek_def)

text \<open> After any sequence of events, the sequencer's buffer holds exactly the last
  \<open>max 1 max_buffer_size\<close> of them, in order, each with its number; \<open>drain\<close> returns them
  and empties the buffer.\<close>

theorem sequencer_keeps_last:
  "sequencer_drain (snd (run_ops sequence (sequencer_new m) es)) =
     (drop (length es - max 1 (unat m)) (number_from 1 es),
      \<lparr>es_seq_gen = 1 + of_nat (length es), es_buffer = [], es_max_buffer_size = m\<rparr>)"
  using run_sequence_buffer [of m es] by (simp add: sequencer_drain_def)

text \<open> In every reachable state the buffered events carry consecutive numbers that end at
  the current one, and the buffer respects its size.\<close>

theorem sequencer_buffer_consecutive:
  "length (es_buffer (snd (run_ops sequencer_step (sequencer_new m) ops))) \<le>
     max 1 (unat (es_max_buffer_size (snd (run_ops sequencer_step (sequencer_new m) ops)))) \<and>
   (let s = snd (run_ops sequencer_step (sequencer_new m) ops); n = length (es_buffer s) in
     \<forall>i. n \<le> i \<or> ev_seq (es_buffer s ! i) = current_seq s - of_nat (n - 1 - i))"
proof -
  define s where "s = snd (run_ops sequencer_step (sequencer_new m) ops)"
  have wf: "sequencer_wf s" unfolding s_def by (intro sequencer_wf_run sequencer_wf_new)
  have "ev_seq (es_buffer s ! i) = current_seq s - of_nat (length (es_buffer s) - 1 - i)"
    if "i < length (es_buffer s)" for i
  proof -
    have n: "length (es_buffer s) - i = Suc (length (es_buffer s) - 1 - i)" using that by simp
    have "ev_seq (es_buffer s ! i) = es_seq_gen s - of_nat (length (es_buffer s) - i)"
      using wf that by (simp add: sequencer_wf_def)
    also have "\<dots> = es_seq_gen s - 1 - of_nat (length (es_buffer s) - 1 - i)"
      unfolding n by (simp only: of_nat_Suc) (simp add: algebra_simps)
    finally show ?thesis by (simp add: current_seq_def seq_peek_def)
  qed
  then have "\<forall>i. length (es_buffer s) \<le> i \<or>
      ev_seq (es_buffer s ! i) = current_seq s - of_nat (length (es_buffer s) - 1 - i)"
    using not_le by blast
  with wf show ?thesis
    unfolding s_def [symmetric] Let_def sequencer_wf_def by blast
qed

end
