(* ===== verification/Book.thy ===== *)
theory Book
  imports Core_Types
begin

section \<open>atomic-orderbook: the L2 book (book.rs)\<close>

text \<open>
  \<open>OrderBook\<close>: two \<open>BTreeMap\<close>s from price to quantity. The level writes of a snapshot and
  of a delta are batches in the sense of the locale \<open>dict\<close>, so what a lookup finds afterwards
  follows from its interpretation \<open>bt\<close>; best levels and iteration order follow from
  \<open>ordered_dict\<close>. \<open>simulate_fill\<close> keeps the source's \<open>i64\<close> and \<open>u64\<close> accumulators.
\<close>

record order_book =
  ob_symbol :: symbol
  ob_bids :: "(i64, qty) btree"
  ob_asks :: "(i64, qty) btree"
  ob_last_update_seq :: u64
  ob_last_update_ts :: u64

definition book_new :: "symbol \<Rightarrow> order_book" where
  "book_new s = \<lparr>ob_symbol = s, ob_bids = [], ob_asks = [],
     ob_last_update_seq = 0, ob_last_update_ts = 0\<rparr>"

text \<open>One pass of the loops of \<open>apply_snapshot\<close> and of \<open>apply_delta\<close>, the same for both sides.\<close>

definition snapshot_level :: "level \<Rightarrow> (i64, qty) btree \<Rightarrow> (i64, qty) btree" where
  "snapshot_level l m = (if 0 < lvl_qty l then bt_insert (lvl_price l) (lvl_qty l) m else m)"

definition delta_level :: "level \<Rightarrow> (i64, qty) btree \<Rightarrow> (i64, qty) btree" where
  "delta_level l m =
     (if lvl_qty l = 0 then bt_remove (lvl_price l) m else bt_insert (lvl_price l) (lvl_qty l) m)"

definition apply_snapshot :: "level list \<Rightarrow> level list \<Rightarrow> u64 \<Rightarrow> u64 \<Rightarrow> order_book \<Rightarrow> order_book" where
  "apply_snapshot bids asks seq ts b = b\<lparr>ob_bids := fold snapshot_level bids [],
     ob_asks := fold snapshot_level asks [], ob_last_update_seq := seq, ob_last_update_ts := ts\<rparr>"

definition apply_delta :: "level list \<Rightarrow> level list \<Rightarrow> u64 \<Rightarrow> u64 \<Rightarrow> order_book \<Rightarrow> order_book" where
  "apply_delta bids asks seq ts b = b\<lparr>ob_bids := fold delta_level bids (ob_bids b),
     ob_asks := fold delta_level asks (ob_asks b), ob_last_update_seq := seq, ob_last_update_ts := ts\<rparr>"

definition entry_level :: "i64 \<times> qty \<Rightarrow> level" where
  "entry_level e = \<lparr>lvl_price = fst e, lvl_qty = snd e\<rparr>"

definition best_bid :: "order_book \<Rightarrow> level option" where
  "best_bid b = map_option entry_level (bt_last (ob_bids b))"

definition best_ask :: "order_book \<Rightarrow> level option" where
  "best_ask b = map_option entry_level (bt_first (ob_asks b))"

definition mid_price :: "order_book \<Rightarrow> price option" where
  "mid_price b = (case (best_bid b, best_ask b) of
     (Some bid, Some ask) \<Rightarrow> Some (midpoint (lvl_price bid) (lvl_price ask))
   | _ \<Rightarrow> None)"

definition spread :: "order_book \<Rightarrow> i64 option" where
  "spread b = (case (best_bid b, best_ask b) of
     (Some bid, Some ask) \<Rightarrow> Some (i64_sub (lvl_price ask) (lvl_price bid))
   | _ \<Rightarrow> None)"

definition top_bids :: "nat \<Rightarrow> order_book \<Rightarrow> level list" where
  "top_bids n b = map entry_level (take n (rev (ob_bids b)))"

definition top_asks :: "nat \<Rightarrow> order_book \<Rightarrow> level list" where
  "top_asks n b = map entry_level (take n (ob_asks b))"

definition bid_depth :: "order_book \<Rightarrow> u64" where
  "bid_depth b = u64_sum (map snd (ob_bids b))"

definition ask_depth :: "order_book \<Rightarrow> u64" where
  "ask_depth b = u64_sum (map snd (ob_asks b))"

definition bid_depth_to_price :: "price \<Rightarrow> order_book \<Rightarrow> u64" where
  "bid_depth_to_price p b = u64_sum (map snd (filter (\<lambda>e. p \<le> fst e) (ob_bids b)))"

definition ask_depth_to_price :: "price \<Rightarrow> order_book \<Rightarrow> u64" where
  "ask_depth_to_price p b = u64_sum (map snd (filter (\<lambda>e. fst e \<le> p) (ob_asks b)))"

text \<open>The loop of \<open>simulate_fill\<close> over \<open>(remaining, total_cost, total_filled)\<close>.\<close>

fun fill_walk :: "level list \<Rightarrow> i64 \<Rightarrow> i64 \<Rightarrow> u64 \<Rightarrow> i64 \<times> i64 \<times> u64" where
  "fill_walk [] remaining cost filled = (remaining, cost, filled)"
| "fill_walk (l # ls) remaining cost filled =
     (if remaining \<le> 0 then (remaining, cost, filled)
      else let f = min remaining (u64_as_i64 (lvl_qty l)) in
        fill_walk ls (i64_sub remaining f) (i64_add cost (i64_mul f (lvl_price l)))
          (filled + i64_as_u64 f))"

definition side_levels :: "side \<Rightarrow> order_book \<Rightarrow> level list" where
  "side_levels s b = (case s of
     Buy \<Rightarrow> top_asks (length (ob_asks b)) b
   | Sell \<Rightarrow> top_bids (length (ob_bids b)) b)"

text \<open>The outer option is the panic of the division, the inner one the source's \<open>Option\<close>.\<close>

definition simulate_fill :: "side \<Rightarrow> qty \<Rightarrow> order_book \<Rightarrow> (price \<times> qty) option option" where
  "simulate_fill s q b =
     (let (remaining, cost, filled) = fill_walk (side_levels s b) (u64_as_i64 q) 0 0 in
      if filled = 0 then Some None
      else map_option (\<lambda>avg. Some (avg, filled)) (i64_div cost (u64_as_i64 filled)))"

definition bid_count :: "order_book \<Rightarrow> nat" where
  "bid_count b = length (ob_bids b)"

definition ask_count :: "order_book \<Rightarrow> nat" where
  "ask_count b = length (ob_asks b)"

subsection \<open>The invariant: ordered sides without empty levels\<close>

definition side_wf :: "(i64, qty) btree \<Rightarrow> bool" where
  "side_wf m \<longleftrightarrow> bt_wf m \<and> (\<forall>e \<in> set m. snd e \<noteq> 0)"

definition book_wf :: "order_book \<Rightarrow> bool" where
  "book_wf b \<longleftrightarrow> side_wf (ob_bids b) \<and> side_wf (ob_asks b)"

lemma side_wf_Nil [wf_intros]: "side_wf []"
  by (simp add: side_wf_def)

lemma side_wf_snapshot_level [wf_intros]: "side_wf m \<Longrightarrow> side_wf (snapshot_level l m)"
  by (auto simp: side_wf_def snapshot_level_def set_bt_insert)

lemma side_wf_delta_level [wf_intros]: "side_wf m \<Longrightarrow> side_wf (delta_level l m)"
  by (auto simp: side_wf_def delta_level_def set_bt_insert bt_remove_def [symmetric])
    (auto simp: bt_remove_def)

lemma side_wf_snapshot [wf_intros]: "side_wf (fold snapshot_level ls [])"
  by (rule fold_invariant) (auto intro: wf_intros)

lemma side_wf_delta [wf_intros]: "side_wf m \<Longrightarrow> side_wf (fold delta_level ls m)"
  by (rule fold_invariant) (auto intro: wf_intros)

lemma book_wf_new [wf_intros]: "book_wf (book_new s)"
  by (simp add: book_wf_def book_new_def side_wf_Nil)

lemma book_wf_snapshot [wf_intros]: "book_wf (apply_snapshot bs as n ts b)"
  by (simp add: book_wf_def apply_snapshot_def side_wf_snapshot)

lemma book_wf_delta [wf_intros]: "book_wf b \<Longrightarrow> book_wf (apply_delta bs as n ts b)"
  by (simp add: book_wf_def apply_delta_def side_wf_delta)

subsection \<open>Batches of level writes\<close>

text \<open>A level as a write to the side: quantity 0 deletes.\<close>

definition level_write :: "level \<Rightarrow> i64 \<times> qty option" where
  "level_write l = (lvl_price l, if lvl_qty l = 0 then None else Some (lvl_qty l))"

definition snapshot_writes :: "level list \<Rightarrow> (i64 \<times> qty) list" where
  "snapshot_writes ls = map (\<lambda>l. (lvl_price l, lvl_qty l)) (filter (\<lambda>l. lvl_qty l \<noteq> 0) ls)"

lemma delta_fold_batch:
  "fold delta_level ls m = fold (\<lambda>(k, c) m. case c of None \<Rightarrow> bt_remove k m | Some v \<Rightarrow> bt_insert k v m)
     (map level_write ls) m"
  by (induction ls arbitrary: m) (auto simp: delta_level_def level_write_def)

lemma snapshot_fold_batch:
  "fold snapshot_level ls m = fold (\<lambda>(k, c) m. case c of None \<Rightarrow> bt_remove k m | Some v \<Rightarrow> bt_insert k v m)
     (map (\<lambda>(k, v). (k, Some v)) (snapshot_writes ls)) m"
  by (induction ls arbitrary: m) (auto simp: snapshot_level_def snapshot_writes_def word_neq_0_conv)

lemma delta_get:
  "bt_wf m \<Longrightarrow> bt_get (fold delta_level ls m) p =
     (case map_of (rev (map level_write ls)) p of None \<Rightarrow> bt_get m p | Some c \<Rightarrow> c)"
  unfolding delta_fold_batch by (rule bt.batch_get)

lemma map_of_map_Some: "map_of (map (\<lambda>(k, v). (k, Some v)) xs) p = map_option Some (map_of xs p)"
  by (induction xs) auto

lemma snapshot_get: "bt_get (fold snapshot_level ls []) p = map_of (rev (snapshot_writes ls)) p"
  unfolding snapshot_fold_batch
  by (subst bt.batch_get) (auto simp: rev_map map_of_map_Some bt_get_def split: option.splits)

subsection \<open>Best levels and iteration order\<close>

lemma best_bid_iff:
  assumes "book_wf b"
  shows "best_bid b = Some l \<longleftrightarrow>
    bt_get (ob_bids b) (lvl_price l) = Some (lvl_qty l) \<and> (\<forall>p. bt_get (ob_bids b) p \<noteq> None \<longrightarrow> p \<le> lvl_price l)"
proof -
  have wf: "bt_wf (ob_bids b)" using assms by (simp add: book_wf_def side_wf_def)
  show ?thesis
  proof (cases "ob_bids b" rule: rev_cases)
    case Nil
    then show ?thesis by (simp add: best_bid_def bt_last_def bt_get_def)
  next
    case (snoc init e)
    have top: "p \<le> fst e" if "bt_get (ob_bids b) p = Some q" for p q
      using bt.last_is_greatest [OF wf _ that] snoc by (metis prod.collapse)
    have get: "bt_get (ob_bids b) (fst e) = Some (snd e)"
      using bt.get_iff [OF wf] snoc by simp
    have "best_bid b = Some (entry_level e)"
      by (simp add: best_bid_def bt_last_def snoc)
    then show ?thesis
      using top get by (cases l) (auto simp: entry_level_def order_antisym, fastforce)
  qed
qed

lemma best_ask_iff:
  assumes "book_wf b"
  shows "best_ask b = Some l \<longleftrightarrow>
    bt_get (ob_asks b) (lvl_price l) = Some (lvl_qty l) \<and> (\<forall>p. bt_get (ob_asks b) p \<noteq> None \<longrightarrow> lvl_price l \<le> p)"
proof -
  have wf: "bt_wf (ob_asks b)" using assms by (simp add: book_wf_def side_wf_def)
  show ?thesis
  proof (cases "ob_asks b")
    case Nil
    then show ?thesis by (simp add: best_ask_def bt_first_def bt_get_def)
  next
    case (Cons e rest)
    have top: "fst e \<le> p" if "bt_get (ob_asks b) p = Some q" for p q
      using bt.first_is_least [OF wf _ that] Cons by (metis prod.collapse)
    have get: "bt_get (ob_asks b) (fst e) = Some (snd e)"
      using bt.get_iff [OF wf] Cons by simp
    have "best_ask b = Some (entry_level e)"
      by (simp add: best_ask_def bt_first_def Cons)
    then show ?thesis
      using top get by (cases l) (auto simp: entry_level_def order_antisym, fastforce)
  qed
qed


subsection \<open>Walking the book\<close>

text \<open>
  The reference: taking \<open>n\<close> from the levels in order, in exact arithmetic. \<open>gcost\<close> is what
  that costs; \<open>worth\<close> bounds every partial sum.
\<close>

abbreviation depth :: "level list \<Rightarrow> nat" where
  "depth ls \<equiv> total (map lvl_qty ls)"

fun gcost :: "level list \<Rightarrow> nat \<Rightarrow> int" where
  "gcost [] n = 0"
| "gcost (l # ls) n = (let f = min n (unat (lvl_qty l)) in int f * lvl_price l + gcost ls (n - f))"

definition worth :: "level list \<Rightarrow> int" where
  "worth ls = (\<Sum>l\<leftarrow>ls. int (unat (lvl_qty l)) * \<bar>lvl_price l\<bar>)"

lemma worth_nonneg: "0 \<le> worth ls"
  by (auto simp: worth_def intro!: sum_list_nonneg)

lemma gcost_zero [simp]: "gcost ls 0 = 0"
  by (induction ls) auto

lemma gcost_abs_le: "\<bar>gcost ls n\<bar> \<le> worth ls"
proof (induction ls arbitrary: n)
  case (Cons l ls)
  let ?q = "unat (lvl_qty l)"
  have "\<bar>int (min n ?q) * lvl_price l\<bar> \<le> int ?q * \<bar>lvl_price l\<bar>"
    by (simp add: abs_mult mult_right_mono)
  then show ?case
    using Cons.IH [of "n - min n ?q"] unfolding worth_def gcost.simps Let_def list.map sum_list.Cons
    by linarith
qed (simp add: worth_def)

lemma fill_walk_exact:
  assumes "n < 2 ^ 63" and "depth ls < 2 ^ 63" and "\<bar>c\<bar> + worth ls < 2 ^ 63"
  shows "fill_walk ls (int n) c f =
    (int (n - min n (depth ls)), c + gcost ls n, f + of_nat (min n (depth ls)))"
  using assms
proof (induction ls arbitrary: n c f)
  case (Cons l ls)
  let ?q = "unat (lvl_qty l)" and ?p = "lvl_price l"
  show ?case
  proof (cases "n = 0")
    case False
    let ?f = "min n ?q"
    have q: "u64_as_i64 (lvl_qty l) = int ?q"
      using Cons.prems(2) by (intro u64_as_i64_small) simp
    have w: "worth (l # ls) = int ?q * \<bar>?p\<bar> + worth ls" by (simp add: worth_def)
    have fp: "\<bar>int ?f * ?p\<bar> \<le> int ?q * \<bar>?p\<bar>"
      by (simp add: abs_mult mult_right_mono)
    with Cons.prems(3) w worth_nonneg [of ls]
    have b: "\<bar>int ?f * ?p\<bar> < 2 ^ 63" "\<bar>c + int ?f * ?p\<bar> + worth ls < 2 ^ 63" by linarith+
    have mul: "i64_mul (int ?f) ?p = int ?f * ?p"
      using b by (intro i64_mul_exact in_i64_absI)
    have add: "i64_add c (int ?f * ?p) = c + int ?f * ?p"
      by (intro i64_add_exact in_i64_absI) (use b worth_nonneg [of ls] in linarith)
    have sub: "i64_sub (int n) (int ?f) = int (n - ?f)"
      using Cons.prems(1) by (subst i64_sub_exact) (auto simp: in_i64_def of_nat_diff)
    have m: "min (int n) (int ?q) = int ?f" by (simp add: of_nat_min)
    have ih: "fill_walk ls (int (n - ?f)) (c + int ?f * ?p) (f + of_nat ?f) =
      (int (n - ?f - min (n - ?f) (depth ls)), c + int ?f * ?p + gcost ls (n - ?f),
        f + of_nat ?f + of_nat (min (n - ?f) (depth ls)))"
      using Cons.prems b by (intro Cons.IH) auto
    have "?f + min (n - ?f) (depth ls) = min n (depth (l # ls))" by auto
    then have "of_nat ?f + of_nat (min (n - ?f) (depth ls)) = (of_nat (min n (depth (l # ls))) :: u64)"
      by (metis of_nat_add)
    with ih False show ?thesis
      by (simp add: Let_def q m mul add sub i64_as_u64_def add.assoc del: min.absorb1 min.absorb2)
  qed simp
qed simp

text \<open>Walking in price order is the cheapest way to buy (dearest way to sell) that quantity.\<close>

definition allocation :: "level list \<Rightarrow> nat list \<Rightarrow> bool" where
  "allocation ls as \<longleftrightarrow> list_all2 (\<lambda>l a. a \<le> unat (lvl_qty l)) ls as"

definition alloc_cost :: "level list \<Rightarrow> nat list \<Rightarrow> int" where
  "alloc_cost ls as = sum_list (map2 (\<lambda>l a. int a * lvl_price l) ls as)"

lemma gcost_step:
  assumes "\<forall>l \<in> set ls. p \<le> lvl_price l" and "m \<le> n" and "n \<le> depth ls"
  shows "gcost ls m + int (n - m) * p \<le> gcost ls n"
  using assms
proof (induction ls arbitrary: m n)
  case (Cons l ls)
  let ?q = "unat (lvl_qty l)" and ?r = "lvl_price l"
  have ih: "gcost ls (m - min m ?q) + int (n - min n ?q - (m - min m ?q)) * p \<le> gcost ls (n - min n ?q)"
    using Cons.prems by (intro Cons.IH) auto
  have "int (min n ?q - min m ?q) * p \<le> int (min n ?q - min m ?q) * ?r"
    using Cons.prems(1) by (intro mult_left_mono) auto
  also have "\<dots> = int (min n ?q) * ?r - int (min m ?q) * ?r"
    using Cons.prems(2) by (simp add: of_nat_diff left_diff_distrib min.mono)
  finally have "int (min n ?q - min m ?q) * p \<le> int (min n ?q) * ?r - int (min m ?q) * ?r" .
  moreover have "int (n - m) * p = int (min n ?q - min m ?q) * p + int (n - min n ?q - (m - min m ?q)) * p"
  proof -
    have "n - m = (min n ?q - min m ?q) + (n - min n ?q - (m - min m ?q))"
      using Cons.prems(2) by auto
    then show ?thesis by (metis distrib_right of_nat_add)
  qed
  ultimately show ?case using ih by (simp add: Let_def)
qed simp

lemma gcost_cheapest:
  assumes "sorted (map lvl_price ls)" and "allocation ls as"
  shows "gcost ls (sum_list as) \<le> alloc_cost ls as"
  using assms
proof (induction ls arbitrary: as)
  case (Cons l ls)
  obtain a as' where as: "as = a # as'" "a \<le> unat (lvl_qty l)" "allocation ls as'"
    using Cons.prems(2) by (auto simp: allocation_def list_all2_Cons1)
  let ?q = "unat (lvl_qty l)" and ?n = "a + sum_list as'" and ?f = "min (a + sum_list as') (unat (lvl_qty l))"
  have le: "sum_list as' \<le> depth ls"
    using as(3) unfolding allocation_def by (induction rule: list_all2_induct) auto
  have "gcost ls (?n - ?f) + int (sum_list as' - (?n - ?f)) * lvl_price l \<le> gcost ls (sum_list as')"
    using Cons.prems(1) le as(2) by (intro gcost_step) auto
  moreover have "gcost ls (sum_list as') \<le> alloc_cost ls as'"
    using Cons.prems(1) as(3) by (intro Cons.IH) auto
  moreover have "int ?f * lvl_price l = int a * lvl_price l + int (sum_list as' - (?n - ?f)) * lvl_price l"
  proof -
    have "?f = a + (sum_list as' - (?n - ?f))" using as(2) by auto
    then show ?thesis by (metis distrib_right of_nat_add)
  qed
  ultimately show ?case by (simp add: as(1) alloc_cost_def Let_def)
qed (simp add: alloc_cost_def)

lemma gcost_bounds:
  assumes "\<forall>l \<in> set ls. lo \<le> lvl_price l \<and> lvl_price l \<le> hi" and "n \<le> depth ls"
  shows "int n * lo \<le> gcost ls n \<and> gcost ls n \<le> int n * hi"
  using assms
proof (induction ls arbitrary: n)
  case (Cons l ls)
  let ?f = "min n (unat (lvl_qty l))"
  have "int (n - ?f) * lo \<le> gcost ls (n - ?f) \<and> gcost ls (n - ?f) \<le> int (n - ?f) * hi"
    using Cons.prems by (intro Cons.IH) auto
  moreover have "int ?f * lo \<le> int ?f * lvl_price l" "int ?f * lvl_price l \<le> int ?f * hi"
    using Cons.prems(1) by (auto intro: mult_left_mono)
  moreover have "int n * x = int ?f * x + int (n - ?f) * x" for x
    by (metis distrib_right le_add_diff_inverse min.cobounded1 of_nat_add)
  ultimately show ?case by (simp add: Let_def)
qed simp


lemma level_prices:
  "map lvl_price (map entry_level m) = map fst m"
  "map lvl_qty (map entry_level m) = map snd m"
  by (simp_all add: entry_level_def)

lemma side_levels_simps:
  "side_levels Buy b = map entry_level (ob_asks b)"
  "side_levels Sell b = map entry_level (rev (ob_bids b))"
  by (simp_all add: side_levels_def top_asks_def top_bids_def)

text \<open>What \<open>simulate_fill\<close> computes when no accumulator overflows.\<close>

lemma simulate_fill_exact:
  assumes "unat q < 2 ^ 63" and d: "depth (side_levels s b) < 2 ^ 63" and "worth (side_levels s b) < 2 ^ 63"
  shows "simulate_fill s q b = (let n = min (unat q) (depth (side_levels s b)) in
    if n = 0 then Some None else Some (Some (gcost (side_levels s b) (unat q) sdiv int n, of_nat n)))"
proof -
  let ?ls = "side_levels s b" and ?n = "min (unat q) (depth (side_levels s b))"
  have w: "fill_walk ?ls (u64_as_i64 q) 0 0 = (int (unat q - ?n), gcost ?ls (unat q), of_nat ?n)"
    using fill_walk_exact [OF assms(1) d, of 0 0] assms by (simp add: u64_as_i64_small)
  have n: "unat (of_nat ?n :: u64) = ?n"
    using d by (simp only: unat_of_nat) simp
  then have nz: "(of_nat ?n :: u64) = 0 \<longleftrightarrow> ?n = 0"
    by (metis unat_eq_zero)
  have "u64_as_i64 (of_nat ?n) = int ?n"
    using u64_as_i64_small [of "of_nat ?n"] d unfolding n by simp
  moreover obtain m where "?n = m" by blast
  ultimately show ?thesis
    using w nz unfolding simulate_fill_def Let_def by (simp add: i64_div_def)
qed

text \<open>The allocation the walk makes, and its cost.\<close>

fun galloc :: "level list \<Rightarrow> nat \<Rightarrow> nat list" where
  "galloc [] n = []"
| "galloc (l # ls) n = min n (unat (lvl_qty l)) # galloc ls (n - min n (unat (lvl_qty l)))"

lemma galloc_allocation:
  "allocation ls (galloc ls n)" "sum_list (galloc ls n) = min n (depth ls)"
  "alloc_cost ls (galloc ls n) = gcost ls n"
proof (induction ls arbitrary: n)
  case (Cons l ls)
  { case 1 show ?case using Cons.IH(1) by (simp add: allocation_def) }
  { case 2 show ?case
      using Cons.IH(2) [of "n - min n (unat (lvl_qty l))"]
      by (simp only: galloc.simps sum_list.Cons list.map) arith }
  { case 3 show ?case using Cons.IH(3) by (simp add: alloc_cost_def Let_def) }
qed (simp_all add: allocation_def alloc_cost_def)

lemma gcost_min_depth: "gcost ls (min n (depth ls)) = gcost ls n"
proof (induction ls arbitrary: n)
  case (Cons l ls)
  let ?q = "unat (lvl_qty l)"
  have "min (min n (depth (l # ls))) ?q = min n ?q"
    and "min n (depth (l # ls)) - min n ?q = min (n - min n ?q) (depth ls)" by auto
  then show ?case using Cons.IH [of "n - min n ?q"] by (simp only: gcost.simps Let_def)
qed simp

text \<open>Selling is buying with the prices negated.\<close>

definition neg_level :: "level \<Rightarrow> level" where
  "neg_level l = l\<lparr>lvl_price := - lvl_price l\<rparr>"

lemma neg_levels:
  "gcost (map neg_level ls) n = - gcost ls n"
  "allocation (map neg_level ls) as = allocation ls as"
  "alloc_cost (map neg_level ls) as = - alloc_cost ls as"
proof -
  show "gcost (map neg_level ls) n = - gcost ls n"
    by (induction ls arbitrary: n) (simp_all add: neg_level_def Let_def)
  show "allocation (map neg_level ls) as = allocation ls as"
    by (simp add: allocation_def list_all2_map1 neg_level_def)
  show "alloc_cost (map neg_level ls) as = - alloc_cost ls as"
    unfolding alloc_cost_def
    by (induction ls arbitrary: as) (simp, case_tac as, simp_all add: neg_level_def)
qed

lemma side_levels_sorted:
  assumes "book_wf b"
  shows "sorted (map lvl_price (side_levels Buy b))"
    and "sorted (map lvl_price (map neg_level (side_levels Sell b)))"
proof -
  show "sorted (map lvl_price (side_levels Buy b))"
    using assms strict_sorted_imp_sorted
    by (auto simp: side_levels_simps entry_level_def comp_def book_wf_def side_wf_def bt_wf_def)
  have "sorted_wrt (<) (map fst (ob_bids b))"
    using assms by (simp add: book_wf_def side_wf_def bt_wf_def)
  then have "sorted_wrt (\<lambda>x y. y < x) (rev (map fst (ob_bids b)))"
    by (simp only: sorted_wrt_rev)
  then have "sorted_wrt (\<lambda>x y. - fst x \<le> - fst y) (rev (ob_bids b))"
    by (simp add: rev_map sorted_wrt_map) (erule sorted_wrt_mono_rel [rotated], simp)
  then show "sorted (map lvl_price (map neg_level (side_levels Sell b)))"
    by (simp add: side_levels_simps entry_level_def neg_level_def comp_def sorted_wrt_map)
qed

lemma gcost_best:
  assumes "book_wf b" and "allocation (side_levels s b) as" and "sum_list as = n"
  shows "if s = Buy then gcost (side_levels s b) n \<le> alloc_cost (side_levels s b) as
    else alloc_cost (side_levels s b) as \<le> gcost (side_levels s b) n"
  using gcost_cheapest [OF side_levels_sorted(1) [OF assms(1)], of as]
    gcost_cheapest [OF side_levels_sorted(2) [OF assms(1)], of as] assms(2,3)
  by (cases s) (simp_all add: neg_levels)

subsection \<open>Properties\<close>

datatype book_op = ApplySnapshot "level list" "level list" u64 u64 | ApplyDelta "level list" "level list" u64 u64

fun book_step :: "book_op \<Rightarrow> order_book \<Rightarrow> order_book" where
  "book_step (ApplySnapshot bs as n ts) b = apply_snapshot bs as n ts b"
| "book_step (ApplyDelta bs as n ts) b = apply_delta bs as n ts b"

lemma book_wf_step [wf_intros]: "book_wf b \<Longrightarrow> book_wf (book_step op b)"
  by (cases op) (auto intro: wf_intros)

lemma book_wf_steps: "book_wf b \<Longrightarrow> book_wf (fold book_step ops b)"
  by (rule fold_invariant) (auto intro: wf_intros)

text \<open> Whatever snapshots and deltas a new book receives, each side stays in strictly
  ascending price order without a level of quantity zero.\<close>

theorem book_sides_ordered:
  "\<forall>m. m = ob_bids (fold book_step ops (book_new s)) \<or> m = ob_asks (fold book_step ops (book_new s)) \<longrightarrow>
     sorted_wrt (<) (map fst m) \<and> 0 \<notin> set (map snd m)"
  using book_wf_steps [OF book_wf_new, of ops s] by (auto simp: book_wf_def side_wf_def bt_wf_def)

lemma book_sides_ordered_witness:
  "let b = fold book_step [ApplySnapshot [\<lparr>lvl_price = 7, lvl_qty = 3\<rparr>] [] 1 1] (book_new \<lparr>sym_base = ''B'', sym_quote = ''Q'', sym_venue = OKX\<rparr>)
   in ob_bids b = [(7, 3)] \<and> sorted_wrt (<) (map fst (ob_bids b)) \<and> 0 \<notin> set (map snd (ob_bids b))"
  using book_sides_ordered [of "[ApplySnapshot [\<lparr>lvl_price = 7, lvl_qty = 3\<rparr>] [] 1 1]"
      "\<lparr>sym_base = ''B'', sym_quote = ''Q'', sym_venue = OKX\<rparr>"]
  by (simp add: Let_def apply_snapshot_def snapshot_level_def)

text \<open>C20: After a delta a bid price holds the quantity of the last level of the message with
  that price, is absent if that quantity is 0, and is unchanged if the message does not name
  it; after a snapshot only the message's nonzero levels remain. The same holds for asks.\<close>

theorem book_updates_lookup:
  assumes "book_wf b"
  shows "bt_get (ob_bids (apply_delta bs as n ts b)) p =
      (case map_of (rev (map level_write bs)) p of None \<Rightarrow> bt_get (ob_bids b) p | Some c \<Rightarrow> c) \<and>
    bt_get (ob_asks (apply_delta bs as n ts b)) p =
      (case map_of (rev (map level_write as)) p of None \<Rightarrow> bt_get (ob_asks b) p | Some c \<Rightarrow> c) \<and>
    bt_get (ob_bids (apply_snapshot bs as n ts b)) p = map_of (rev (snapshot_writes bs)) p \<and>
    bt_get (ob_asks (apply_snapshot bs as n ts b)) p = map_of (rev (snapshot_writes as)) p"
  using assms by (simp add: apply_delta_def apply_snapshot_def delta_get snapshot_get book_wf_def side_wf_def)

lemma book_updates_lookup_witness:
  "bt_get (ob_bids (apply_delta [\<lparr>lvl_price = 7, lvl_qty = 3\<rparr>, \<lparr>lvl_price = 7, lvl_qty = 0\<rparr>] [] 2 2
      (apply_snapshot [\<lparr>lvl_price = 7, lvl_qty = 9\<rparr>] [] 1 1 (book_new (symbol_new ''B'' ''Q'' OKX))))) 7 = None"
  using book_updates_lookup [OF book_wf_snapshot [of "[\<lparr>lvl_price = 7, lvl_qty = 9\<rparr>]" "[]" 1 1
        "book_new (symbol_new ''B'' ''Q'' OKX)"],
      of "[\<lparr>lvl_price = 7, lvl_qty = 3\<rparr>, \<lparr>lvl_price = 7, lvl_qty = 0\<rparr>]" "[]" 2 2 7]
  by (simp add: level_write_def)

text \<open> On a well-formed book \<open>best_bid\<close> is the highest bid with its quantity, \<open>best_ask\<close> the
  lowest ask, and they are absent exactly when the side is empty; \<open>spread\<close> and
  \<open>mid_price\<close> exist exactly when both do.\<close>

theorem book_best_levels:
  assumes "book_wf b"
  shows "(best_bid b = Some l \<longleftrightarrow> bt_get (ob_bids b) (lvl_price l) = Some (lvl_qty l) \<and>
      (\<forall>p. bt_get (ob_bids b) p \<noteq> None \<longrightarrow> p \<le> lvl_price l)) \<and>
    (best_ask b = Some l \<longleftrightarrow> bt_get (ob_asks b) (lvl_price l) = Some (lvl_qty l) \<and>
      (\<forall>p. bt_get (ob_asks b) p \<noteq> None \<longrightarrow> lvl_price l \<le> p)) \<and>
    (best_bid b = None \<longleftrightarrow> bid_count b = 0) \<and> (best_ask b = None \<longleftrightarrow> ask_count b = 0) \<and>
    (spread b \<noteq> None \<longleftrightarrow> bid_count b \<noteq> 0 \<and> ask_count b \<noteq> 0) \<and>
    (mid_price b \<noteq> None \<longleftrightarrow> bid_count b \<noteq> 0 \<and> ask_count b \<noteq> 0)"
proof -
  have n: "best_bid b = None \<longleftrightarrow> bid_count b = 0" "best_ask b = None \<longleftrightarrow> ask_count b = 0"
    by (auto simp: best_bid_def best_ask_def bt_last_def bt_first_def bid_count_def ask_count_def split: list.splits)
  moreover have "spread b \<noteq> None \<longleftrightarrow> best_bid b \<noteq> None \<and> best_ask b \<noteq> None"
      "mid_price b \<noteq> None \<longleftrightarrow> best_bid b \<noteq> None \<and> best_ask b \<noteq> None"
    by (auto simp: spread_def mid_price_def split: option.splits)
  ultimately show ?thesis
    using best_bid_iff [OF assms] best_ask_iff [OF assms] by simp
qed

lemma book_best_levels_witness:
  "let b = apply_snapshot [\<lparr>lvl_price = 7, lvl_qty = 9\<rparr>, \<lparr>lvl_price = 8, lvl_qty = 1\<rparr>] [] 1 1 (book_new (symbol_new ''B'' ''Q'' OKX))
   in best_bid b = Some \<lparr>lvl_price = 8, lvl_qty = 1\<rparr> \<and> spread b = None"
  using book_best_levels [OF book_wf_snapshot [of "[\<lparr>lvl_price = 7, lvl_qty = 9\<rparr>, \<lparr>lvl_price = 8, lvl_qty = 1\<rparr>]"
        "[]" 1 1 "book_new (symbol_new ''B'' ''Q'' OKX)"], of "\<lparr>lvl_price = 8, lvl_qty = 1\<rparr>"]
  by (simp add: Let_def apply_snapshot_def snapshot_level_def book_new_def bt_get_def ask_count_def split: if_splits)

text \<open>C11: When no accumulator of \<open>simulate_fill\<close> overflows, it never panics, it fills
  the smaller of the quantity asked and the depth of the side (None only when that is 0), and it
  walks the best way: no way of taking that quantity from the levels costs less (for a buy) or
  brings more (for a sell) than the amount whose truncated average it returns, and that average
  lies within the side's prices.\<close>

theorem simulate_fill_optimal:
  assumes "book_wf b" and "unat q < 2 ^ 63" and "depth (side_levels s b) < 2 ^ 63"
    and "worth (side_levels s b) < 2 ^ 63"
  shows "let ls = side_levels s b; n = min (unat q) (depth ls) in
    if n = 0 then simulate_fill s q b = Some None
    else \<exists>avg as. simulate_fill s q b = Some (Some (avg, of_nat n)) \<and>
      allocation ls as \<and> sum_list as = n \<and> avg = alloc_cost ls as sdiv int n \<and>
      (\<forall>as'. allocation ls as' \<and> sum_list as' = n \<longrightarrow>
         (if s = Buy then alloc_cost ls as \<le> alloc_cost ls as' else alloc_cost ls as' \<le> alloc_cost ls as)) \<and>
      (\<forall>lo hi. (\<forall>l \<in> set ls. lo \<le> lvl_price l \<and> lvl_price l \<le> hi) \<longrightarrow> lo \<le> avg \<and> avg \<le> hi)"
proof -
  define ls where "ls = side_levels s b"
  define n where "n = min (unat q) (depth ls)"
  note exact = simulate_fill_exact [OF assms(2-4), folded ls_def, unfolded Let_def, folded n_def]
  have g: "alloc_cost ls (galloc ls n) = gcost ls (unat q)" "gcost ls n = gcost ls (unat q)"
    using gcost_min_depth [of ls "unat q"] by (simp_all add: galloc_allocation n_def)
  have best: "if s = Buy then gcost ls n \<le> alloc_cost ls as else alloc_cost ls as \<le> gcost ls n"
    if "allocation ls as \<and> sum_list as = n" for as
    using gcost_best [OF assms(1)] that unfolding ls_def by blast
  have mid: "lo \<le> gcost ls n sdiv int n \<and> gcost ls n sdiv int n \<le> hi"
    if "\<forall>l \<in> set ls. lo \<le> lvl_price l \<and> lvl_price l \<le> hi" and "n \<noteq> 0" for lo hi
  proof -
    have "int n * lo \<le> gcost ls n \<and> gcost ls n \<le> int n * hi"
      using gcost_bounds [OF that(1), of n] by (simp add: n_def)
    then show ?thesis using sdiv_between [of n lo "gcost ls n" hi] that(2) by blast
  qed
  have sum: "sum_list (galloc ls n) = n"
    by (simp add: galloc_allocation n_def)
  show ?thesis
    unfolding Let_def ls_def [symmetric] n_def [symmetric]
    using exact galloc_allocation(1) [of ls n] sum g best mid
    by (cases "n = 0") (auto intro!: exI [of _ "galloc ls n"])
qed

lemma simulate_fill_optimal_witness:
  "let b = apply_snapshot [] [\<lparr>lvl_price = 100, lvl_qty = 50\<rparr>, \<lparr>lvl_price = 101, lvl_qty = 50\<rparr>] 1 1
      (book_new (symbol_new ''B'' ''Q'' OKX)) in
   book_wf b \<and> (\<exists>avg. simulate_fill Buy 80 b = Some (Some (avg, 80)) \<and> 100 \<le> avg \<and> avg \<le> 101)"
proof -
  let ?b = "apply_snapshot [] [\<lparr>lvl_price = 100, lvl_qty = 50\<rparr>, \<lparr>lvl_price = 101, lvl_qty = 50\<rparr>] 1 1
      (book_new (symbol_new ''B'' ''Q'' OKX))"
  have wf: "book_wf ?b" by (rule book_wf_snapshot)
  have ls: "side_levels Buy ?b = [\<lparr>lvl_price = 100, lvl_qty = 50\<rparr>, \<lparr>lvl_price = 101, lvl_qty = 50\<rparr>]"
    by (simp add: side_levels_simps apply_snapshot_def snapshot_level_def entry_level_def)
  have mn: "min (unat (80 :: qty)) (depth (side_levels Buy ?b)) = 80"
    by (simp add: ls)
  have "\<exists>avg. simulate_fill Buy 80 ?b = Some (Some (avg, 80)) \<and> 100 \<le> avg \<and> avg \<le> 101"
  proof -
    have "worth (side_levels Buy ?b) < 2 ^ 63" "depth (side_levels Buy ?b) < 2 ^ 63"
      by (simp_all add: ls worth_def)
    then obtain avg where "simulate_fill Buy 80 ?b = Some (Some (avg, of_nat 80))"
      and "\<forall>lo hi. (\<forall>l \<in> set (side_levels Buy ?b). lo \<le> lvl_price l \<and> lvl_price l \<le> hi) \<longrightarrow>
        lo \<le> avg \<and> avg \<le> hi"
      using simulate_fill_optimal [OF wf, of 80 Buy] unfolding Let_def mn by auto
    moreover from this(2) have "100 \<le> avg \<and> avg \<le> 101"
      unfolding ls by (elim allE [of _ 100] allE [of _ 101]) simp
    ultimately show ?thesis by auto
  qed
  with wf show ?thesis by (simp add: Let_def)
qed

text \<open> A snapshot erases the past: two books of the same symbol that receive the same snapshot
  and then the same deltas are equal, whatever they held before.\<close>

theorem book_snapshot_resyncs:
  assumes "ob_symbol b = ob_symbol b'"
  shows "fold book_step ops (apply_snapshot bs as n ts b) = fold book_step ops (apply_snapshot bs as n ts b')"
  using assms by (cases b; cases b') (simp add: apply_snapshot_def)

lemma book_snapshot_resyncs_witness:
  "fold book_step [ApplyDelta [] [\<lparr>lvl_price = 3, lvl_qty = 1\<rparr>] 3 3] (apply_snapshot [] [] 2 2 (book_new (symbol_new ''B'' ''Q'' OKX))) =
   fold book_step [ApplyDelta [] [\<lparr>lvl_price = 3, lvl_qty = 1\<rparr>] 3 3] (apply_snapshot [] [] 2 2
     (apply_snapshot [] [\<lparr>lvl_price = 9, lvl_qty = 1\<rparr>] 1 1 (book_new (symbol_new ''B'' ''Q'' OKX))))"
  by (rule book_snapshot_resyncs) (simp add: apply_snapshot_def)

end
