(* ===== verification/Replica.thy ===== *)
theory Replica
  imports Prelude
begin

section \<open>Replicas: what deterministic replay asks of a component\<close>

text \<open>
  The nodes of the mesh run the same component on the same events and compare digests of the
  state. \<open>eqv\<close> relates two representations of one logical state (for instance two hash
  maps with the same entries in different iteration orders). The locale states what the
  component has to respect, and proves once that replicas stay together over every run: the
  same answers, equivalent states and equal digests.
\<close>

fun run_states :: "('s \<Rightarrow> 'op \<Rightarrow> 'v \<times> 's) \<Rightarrow> 's \<Rightarrow> 'op list \<Rightarrow> 's list" where
  "run_states step s [] = [s]"
| "run_states step s (op # ops) = s # run_states step (snd (step s op)) ops"

locale replica =
  fixes step :: "'s \<Rightarrow> 'op \<Rightarrow> 'v \<times> 's"
    and eqv :: "'s \<Rightarrow> 's \<Rightarrow> bool"
    and ok :: "'s \<Rightarrow> bool"
    and digest :: "'s \<Rightarrow> 'd"
  assumes eqv_refl: "eqv s s"
    and step_ok: "ok s \<Longrightarrow> ok (snd (step s op))"
    and step_eqv: "ok s \<Longrightarrow> ok t \<Longrightarrow> eqv s t \<Longrightarrow>
      fst (step s op) = fst (step t op) \<and> eqv (snd (step s op)) (snd (step t op))"
    and digest_eqv: "ok s \<Longrightarrow> ok t \<Longrightarrow> eqv s t \<Longrightarrow> digest s = digest t"
begin

lemma run_ok: "ok s \<Longrightarrow> ok (snd (run_ops step s ops))"
  by (rule run_ops_invariant [where P = ok]) (auto intro: step_ok)

lemma run_agrees:
  assumes "ok s" and "ok t" and "eqv s t"
  shows "fst (run_ops step s ops) = fst (run_ops step t ops) \<and>
    eqv (snd (run_ops step s ops)) (snd (run_ops step t ops))"
  using assms
proof (induction ops arbitrary: s t)
  case (Cons op ops)
  from step_eqv [OF Cons.prems, of op] step_ok [OF Cons.prems(1), of op] step_ok [OF Cons.prems(2), of op]
    Cons.IH [of "snd (step s op)" "snd (step t op)"]
  show ?case by (auto simp: Let_def split: prod.splits)
qed simp

lemma digests_agree:
  assumes "ok s" and "ok t" and "eqv s t"
  shows "map digest (run_states step s ops) = map digest (run_states step t ops)"
  using assms
proof (induction ops arbitrary: s t)
  case (Cons op ops)
  from step_eqv [OF Cons.prems, of op] step_ok [OF Cons.prems(1), of op] step_ok [OF Cons.prems(2), of op]
    Cons.IH [of "snd (step s op)" "snd (step t op)"] digest_eqv [OF Cons.prems]
  show ?case by simp
qed (simp add: digest_eqv)

end

end
