(* ===== verification/Order_State.thy ===== *)
theory Order_State
  imports Core_Event
begin

section \<open>atomic-execution: the order state machine (state_machine.rs)\<close>

text \<open>
  \<open>OrderState\<close> with its transition table, \<open>LiveOrder\<close> and \<open>StateVerifier\<close>. The
  abstract lifecycle \<open>lifecycle\<close> is the step relation of one order; what it reaches is what
  the execution engine is shown to stay within. \<open>LiveOrder::fill_pct\<close> returns an \<open>f64\<close> for
  display and is not modelled.
\<close>

datatype order_state = New | Ack | PartialFill | Filled | Canceled | Rejected

fun is_terminal :: "order_state \<Rightarrow> bool" where
  "is_terminal Filled = True"
| "is_terminal Canceled = True"
| "is_terminal Rejected = True"
| "is_terminal _ = False"

fun can_transition_to :: "order_state \<Rightarrow> order_state \<Rightarrow> bool" where
  "can_transition_to New Ack = True"
| "can_transition_to New Rejected = True"
| "can_transition_to Ack PartialFill = True"
| "can_transition_to Ack Filled = True"
| "can_transition_to Ack Canceled = True"
| "can_transition_to PartialFill PartialFill = True"
| "can_transition_to PartialFill Filled = True"
| "can_transition_to PartialFill Canceled = True"
| "can_transition_to _ _ = False"

text \<open>The derived \<open>Debug\<close> output, which the error messages contain.\<close>

fun debug_state :: "order_state \<Rightarrow> string" where
  "debug_state New = ''New''"
| "debug_state Ack = ''Ack''"
| "debug_state PartialFill = ''PartialFill''"
| "debug_state Filled = ''Filled''"
| "debug_state Canceled = ''Canceled''"
| "debug_state Rejected = ''Rejected''"

record live_order =
  lo_order_id :: order_id
  lo_exchange_order_id :: "string option"
  lo_symbol :: symbol
  lo_side :: side
  lo_order_type :: order_type
  lo_price :: price
  lo_original_qty :: qty
  lo_filled_qty :: qty
  lo_remaining_qty :: qty
  lo_time_in_force :: time_in_force
  lo_venue :: venue
  lo_state :: order_state
  lo_created_at :: u64
  lo_updated_at :: u64

definition live_order_new ::
  "order_id \<Rightarrow> symbol \<Rightarrow> side \<Rightarrow> order_type \<Rightarrow> price \<Rightarrow> qty \<Rightarrow> time_in_force \<Rightarrow> venue \<Rightarrow> u64 \<Rightarrow> live_order" where
  "live_order_new oid smb sd ot p q tif v ts =
     \<lparr>lo_order_id = oid, lo_exchange_order_id = None, lo_symbol = smb, lo_side = sd,
      lo_order_type = ot, lo_price = p, lo_original_qty = q, lo_filled_qty = 0,
      lo_remaining_qty = q, lo_time_in_force = tif, lo_venue = v, lo_state = New,
      lo_created_at = ts, lo_updated_at = ts\<rparr>"

subsection \<open>The transition table\<close>

lemma terminal_final: "is_terminal s \<Longrightarrow> \<not> can_transition_to s t"
  by (cases s; cases t) auto

lemma transition_from_New: "can_transition_to New t \<longleftrightarrow> t = Ack \<or> t = Rejected"
  by (cases t) auto

lemma transition_to:
  "can_transition_to s New \<longleftrightarrow> False"
  "can_transition_to s Ack \<longleftrightarrow> s = New"
  "can_transition_to s Rejected \<longleftrightarrow> s = New"
  "can_transition_to s PartialFill \<longleftrightarrow> s = Ack \<or> s = PartialFill"
  "can_transition_to s Filled \<longleftrightarrow> s = Ack \<or> s = PartialFill"
  "can_transition_to s Canceled \<longleftrightarrow> s = Ack \<or> s = PartialFill"
  by (cases s; simp)+

text \<open>An order's possible histories.\<close>

inductive state_path :: "order_state \<Rightarrow> order_state \<Rightarrow> bool" where
  path_refl: "state_path s s"
| path_step: "state_path s t \<Longrightarrow> can_transition_to t u \<Longrightarrow> state_path s u"

text \<open>How far an order is in its life.\<close>

fun state_rank :: "order_state \<Rightarrow> nat" where
  "state_rank New = 0"
| "state_rank Ack = 1"
| "state_rank PartialFill = 2"
| "state_rank Filled = 3"
| "state_rank Canceled = 3"
| "state_rank Rejected = 3"

lemma transition_rank: "can_transition_to s t \<Longrightarrow> state_rank s < state_rank t \<or> (s = PartialFill \<and> t = PartialFill)"
  by (cases s; cases t) auto

lemma state_path_rank: "state_path s t \<Longrightarrow> state_rank s \<le> state_rank t"
  by (induction rule: state_path.induct) (auto dest: transition_rank)

lemma state_path_terminal: "state_path s t \<Longrightarrow> is_terminal s \<Longrightarrow> t = s"
  by (induction rule: state_path.induct) (auto simp: terminal_final)

lemma state_path_trans: "state_path t u \<Longrightarrow> state_path s t \<Longrightarrow> state_path s u"
  by (induction rule: state_path.induct) (auto intro: state_path.intros)

subsection \<open>The periodic verifier\<close>

record state_verifier =
  sv_interval :: u64
  sv_events_since_verify :: u64
  sv_last_verified_seq :: u64
  sv_last_hash :: "u8 list"

definition verifier_new :: "u64 \<Rightarrow> state_verifier" where
  "verifier_new interval = \<lparr>sv_interval = interval, sv_events_since_verify = 0,
     sv_last_verified_seq = 0, sv_last_hash = replicate 8 0\<rparr>"

definition verifier_tick :: "state_verifier \<Rightarrow> bool \<times> state_verifier" where
  "verifier_tick v = (let n = sv_events_since_verify v + 1 in
     (sv_interval v \<le> n, v\<lparr>sv_events_since_verify := n\<rparr>))"

definition on_verified :: "u64 \<Rightarrow> u8 list \<Rightarrow> state_verifier \<Rightarrow> state_verifier" where
  "on_verified seq h v = v\<lparr>sv_last_verified_seq := seq, sv_last_hash := h, sv_events_since_verify := 0\<rparr>"

definition verify_peer :: "u64 \<Rightarrow> u8 list \<Rightarrow> state_verifier \<Rightarrow> bool" where
  "verify_peer seq peer_hash v \<longleftrightarrow> (if seq \<noteq> sv_last_verified_seq v then True else sv_last_hash v = peer_hash)"

lemma ticks_after:
  assumes "sv_events_since_verify v = of_nat k" and "k + n < 2 ^ 64"
  shows "fst (run_ops (\<lambda>v (_ :: unit). verifier_tick v) v (replicate n ())) =
      map (\<lambda>i. unat (sv_interval v) \<le> k + i) [1..<Suc n]"
  using assms
proof (induction n arbitrary: v k)
  case (Suc n)
  obtain b v' where st: "verifier_tick v = (b, v')" by fastforce
  obtain bs v'' where run: "run_ops (\<lambda>v (_ :: unit). verifier_tick v) v' (replicate n ()) = (bs, v'')" by fastforce
  have v': "sv_events_since_verify v' = of_nat (Suc k)" "sv_interval v' = sv_interval v"
    and b: "b \<longleftrightarrow> sv_interval v \<le> of_nat (Suc k)"
    using st Suc.prems(1) by (auto simp: verifier_tick_def Let_def add.commute)
  have "unat (of_nat (Suc k) :: u64) = Suc k"
    using Suc.prems(2) by (simp only: unat_of_nat) simp
  then have "b \<longleftrightarrow> unat (sv_interval v) \<le> k + 1"
    by (simp only: b word_le_nat_alt) simp
  moreover have "bs = map (\<lambda>i. unat (sv_interval v) \<le> Suc k + i) [1..<Suc n]"
    using Suc.IH [OF v'(1)] Suc.prems(2) run v'(2) by simp
  moreover have "[1..<Suc (Suc n)] = 1 # map Suc [1..<Suc n]"
    by (simp add: upt_conv_Cons map_Suc_upt del: upt_Suc)
  ultimately show ?case
    using st run by (simp add: comp_def del: upt_Suc)
qed simp

text \<open> After \<open>on_verified\<close> the verifier stays silent for \<open>interval - 1\<close> events and asks for
  the next verification from the \<open>interval\<close>-th event on.\<close>

theorem verifier_interval:
  assumes "n < 2 ^ 64"
  shows "fst (run_ops (\<lambda>v (_ :: unit). verifier_tick v) (on_verified seq h v) (replicate n ())) =
    map (\<lambda>i. unat (sv_interval v) \<le> i) [1..<Suc n]"
  using ticks_after [of "on_verified seq h v" 0 n] assms by (simp add: on_verified_def)

lemma verifier_interval_witness:
  "fst (run_ops (\<lambda>v (_ :: unit). verifier_tick v) (on_verified 9 [] (verifier_new 2)) (replicate 3 ())) = [False, True, True]"
  using verifier_interval [of 3 9 "[]" "verifier_new 2"] by (simp add: verifier_new_def upt_rec)

end
