(* ===== verification/Execution.thy ===== *)
theory Execution
  imports Order_State Replica Core_Snapshot
begin

section \<open>atomic-execution: the execution engine (state_machine.rs)\<close>

text \<open>
  \<open>ExecutionEngine\<close>: the hash map of live orders and the id counter. Each \<open>on_*\<close> operation is
  the whole method, with its error strings; an operation returns the method's \<open>Result\<close> and
  the engine afterwards. \<open>bincode\<close> is a pair of parameters, \<open>ser\<close> and \<open>deser\<close>, whose
  round trip is a named hypothesis of the snapshot properties; \<open>xxh3\<close> is the hash function.
\<close>

record execution_engine =
  ee_orders :: "(string, live_order) hashmap"
  ee_next_local_id :: u64

definition engine_new :: execution_engine where
  "engine_new = \<lparr>ee_orders = [], ee_next_local_id = 1\<rparr>"

definition next_order_id :: "venue \<Rightarrow> execution_engine \<Rightarrow> order_id \<times> execution_engine" where
  "next_order_id v en =
     (order_id_new v (ee_next_local_id en), en\<lparr>ee_next_local_id := ee_next_local_id en + 1\<rparr>)"

definition register_order :: "live_order \<Rightarrow> execution_engine \<Rightarrow> (unit, string) result \<times> execution_engine" where
  "register_order ord en =
     (if hm_get (ee_orders en) (lo_order_id ord) \<noteq> None
      then (Inl (''order already exists: '' @ lo_order_id ord), en)
      else (Inr (), en\<lparr>ee_orders := hm_insert (lo_order_id ord) ord (ee_orders en)\<rparr>))"

definition on_ack :: "string \<Rightarrow> string \<Rightarrow> u64 \<Rightarrow> execution_engine \<Rightarrow> (unit, string) result \<times> execution_engine" where
  "on_ack oid exchange_id ts en = (case hm_get (ee_orders en) oid of
     None \<Rightarrow> (Inl ''order not found'', en)
   | Some ord \<Rightarrow>
       if \<not> can_transition_to (lo_state ord) Ack
       then (Inl (''invalid transition: '' @ debug_state (lo_state ord) @ '' -> Ack''), en)
       else (Inr (), en\<lparr>ee_orders := hm_insert oid
         (ord\<lparr>lo_state := Ack, lo_exchange_order_id := Some exchange_id, lo_updated_at := ts\<rparr>)
         (ee_orders en)\<rparr>))"

definition on_fill :: "string \<Rightarrow> qty \<Rightarrow> price \<Rightarrow> u64 \<Rightarrow> execution_engine \<Rightarrow> (bool, string) result \<times> execution_engine" where
  "on_fill oid fq fp ts en = (case hm_get (ee_orders en) oid of
     None \<Rightarrow> (Inl ''order not found'', en)
   | Some ord \<Rightarrow>
       let new_filled = lo_filled_qty ord + fq;
           is_complete = lo_original_qty ord \<le> new_filled;
           target = (if is_complete then Filled else PartialFill)
       in if \<not> can_transition_to (lo_state ord) target
          then (Inl (''invalid transition: '' @ debug_state (lo_state ord) @ '' -> '' @ debug_state target), en)
          else (Inr is_complete, en\<lparr>ee_orders := hm_insert oid
            (ord\<lparr>lo_filled_qty := new_filled,
                 lo_remaining_qty := u64_saturating_sub (lo_original_qty ord) new_filled,
                 lo_state := target, lo_updated_at := ts\<rparr>)
            (ee_orders en)\<rparr>))"

definition on_cancel :: "string \<Rightarrow> u64 \<Rightarrow> execution_engine \<Rightarrow> (unit, string) result \<times> execution_engine" where
  "on_cancel oid ts en = (case hm_get (ee_orders en) oid of
     None \<Rightarrow> (Inl ''order not found'', en)
   | Some ord \<Rightarrow>
       if \<not> can_transition_to (lo_state ord) Canceled
       then (Inl (''invalid transition: '' @ debug_state (lo_state ord) @ '' -> Canceled''), en)
       else (Inr (), en\<lparr>ee_orders := hm_insert oid
         (ord\<lparr>lo_state := Canceled, lo_updated_at := ts\<rparr>) (ee_orders en)\<rparr>))"

definition on_reject :: "string \<Rightarrow> u64 \<Rightarrow> execution_engine \<Rightarrow> (unit, string) result \<times> execution_engine" where
  "on_reject oid ts en = (case hm_get (ee_orders en) oid of
     None \<Rightarrow> (Inl ''order not found'', en)
   | Some ord \<Rightarrow>
       if \<not> can_transition_to (lo_state ord) Rejected
       then (Inl (''invalid transition: '' @ debug_state (lo_state ord) @ '' -> Rejected''), en)
       else (Inr (), en\<lparr>ee_orders := hm_insert oid
         (ord\<lparr>lo_state := Rejected, lo_updated_at := ts\<rparr>) (ee_orders en)\<rparr>))"

definition get_order :: "string \<Rightarrow> execution_engine \<Rightarrow> live_order option" where
  "get_order oid en = hm_get (ee_orders en) oid"

definition open_orders :: "execution_engine \<Rightarrow> live_order list" where
  "open_orders en = filter (\<lambda>ord. \<not> is_terminal (lo_state ord)) (hm_values (ee_orders en))"

definition open_order_ids :: "execution_engine \<Rightarrow> order_id list" where
  "open_order_ids en =
     map lo_order_id (filter (\<lambda>ord. \<not> is_terminal (lo_state ord)) (hm_values (ee_orders en)))"

definition stale_order_ids :: "u64 \<Rightarrow> u64 \<Rightarrow> execution_engine \<Rightarrow> order_id list" where
  "stale_order_ids now_ns timeout_ns en =
     map lo_order_id (filter (\<lambda>ord. \<not> is_terminal (lo_state ord) \<and> lo_state ord \<noteq> New \<and>
       timeout_ns < u64_saturating_sub now_ns (lo_updated_at ord)) (hm_values (ee_orders en)))"

definition gc_terminal :: "execution_engine \<Rightarrow> nat \<times> execution_engine" where
  "gc_terminal en =
     (let kept = hm_retain (\<lambda>ord. \<not> is_terminal (lo_state ord)) (ee_orders en)
      in (length (ee_orders en) - length kept, en\<lparr>ee_orders := kept\<rparr>))"

record engine_state =
  st_orders :: "live_order list"
  st_next_local_id :: u64

definition engine_state_of :: "execution_engine \<Rightarrow> engine_state" where
  "engine_state_of en = \<lparr>st_orders = sort_key lo_order_id (hm_values (ee_orders en)),
     st_next_local_id = ee_next_local_id en\<rparr>"

definition serialize_state :: "(engine_state \<Rightarrow> u8 list option) \<Rightarrow> execution_engine \<Rightarrow> u8 list" where
  "serialize_state ser en = (case ser (engine_state_of en) of None \<Rightarrow> [] | Some bs \<Rightarrow> bs)"

definition state_hash :: "(engine_state \<Rightarrow> u8 list option) \<Rightarrow> (u8 list \<Rightarrow> u64) \<Rightarrow> execution_engine \<Rightarrow> u8 list" where
  "state_hash ser xxh3 en = compute_hash xxh3 (serialize_state ser en)"

definition engine_snapshot ::
  "(engine_state \<Rightarrow> u8 list option) \<Rightarrow> (u8 list \<Rightarrow> u64) \<Rightarrow> u64 \<Rightarrow> u64 \<Rightarrow> execution_engine \<Rightarrow> engine_snapshot" where
  "engine_snapshot ser xxh3 seq timestamp en =
     (let data = serialize_state ser en in
      \<lparr>sn_seq = seq, sn_timestamp = timestamp, sn_state_hash = compute_hash xxh3 data,
       sn_events_since_last = 0, sn_state_data = data\<rparr>)"

definition restore ::
  "(u8 list \<Rightarrow> string + engine_state) \<Rightarrow> (u8 list \<Rightarrow> u64) \<Rightarrow> engine_snapshot \<Rightarrow> execution_engine
    \<Rightarrow> (unit, string) result \<times> execution_engine" where
  "restore deser xxh3 snap en =
     (if \<not> snapshot_verify xxh3 snap then (Inl ''snapshot hash verification failed'', en)
      else case deser (sn_state_data snap) of
        Inl e \<Rightarrow> (Inl (''failed to deserialize snapshot: '' @ e), en)
      | Inr st \<Rightarrow> (Inr (), \<lparr>ee_orders = fold (\<lambda>ord m. hm_insert (lo_order_id ord) ord m) (st_orders st) [],
                           ee_next_local_id = st_next_local_id st\<rparr>))"

definition and_ok :: "'v \<Rightarrow> ('a, 'e) result \<times> 's \<Rightarrow> ('v, 'e) result \<times> 's" where
  "and_ok v rs = (try_res (fst rs) (\<lambda>_. Inr v), snd rs)"

definition process_event :: "event \<Rightarrow> execution_engine \<Rightarrow> (bool, string) result \<times> execution_engine" where
  "process_event ev en = (case ev_payload ev of
     OrderNew e \<Rightarrow> and_ok True (register_order
       (live_order_new (ne_order_id e) (ne_symbol e) (ne_side e) (ne_order_type e) (ne_price e)
         (ne_qty e) (ne_time_in_force e) (ne_venue e) (ev_timestamp ev)) en)
   | OrderAck e \<Rightarrow> and_ok True (on_ack (ae_order_id e) (ae_exchange_order_id e) (ev_timestamp ev) en)
   | OrderFill e \<Rightarrow> and_ok True (on_fill (fe_order_id e) (fe_qty e) (fe_price e) (ev_timestamp ev) en)
   | OrderPartialFill e \<Rightarrow> and_ok True (on_fill (fe_order_id e) (fe_qty e) (fe_price e) (ev_timestamp ev) en)
   | OrderCancel e \<Rightarrow> and_ok True (on_cancel (ce_order_id e) (ev_timestamp ev) en)
   | OrderReject e \<Rightarrow> and_ok True (on_reject (re_order_id e) (ev_timestamp ev) en)
   | _ \<Rightarrow> (Inr False, en))"


subsection \<open>The specification: every order runs its own lifecycle\<close>

text \<open>
  \<open>order_moves ev c c'\<close>: the event \<open>ev\<close>, addressed to the order whose entry is \<open>c\<close>, is
  accepted and leaves \<open>c'\<close>. This is what the engine promises of one order, without maps.
\<close>

definition event_order :: "event \<Rightarrow> order_id option" where
  "event_order ev = (case ev_payload ev of
     OrderNew e \<Rightarrow> Some (ne_order_id e)
   | OrderAck e \<Rightarrow> Some (ae_order_id e)
   | OrderFill e \<Rightarrow> Some (fe_order_id e)
   | OrderPartialFill e \<Rightarrow> Some (fe_order_id e)
   | OrderCancel e \<Rightarrow> Some (ce_order_id e)
   | OrderReject e \<Rightarrow> Some (re_order_id e)
   | _ \<Rightarrow> None)"

inductive order_moves :: "event \<Rightarrow> live_order option \<Rightarrow> live_order option \<Rightarrow> bool" where
  born: "ev_payload ev = OrderNew e \<Longrightarrow>
     order_moves ev None (Some (live_order_new (ne_order_id e) (ne_symbol e) (ne_side e) (ne_order_type e)
       (ne_price e) (ne_qty e) (ne_time_in_force e) (ne_venue e) (ev_timestamp ev)))"
| acked: "ev_payload ev = OrderAck e \<Longrightarrow> lo_state ord = New \<Longrightarrow>
     order_moves ev (Some ord) (Some (ord\<lparr>lo_state := Ack,
       lo_exchange_order_id := Some (ae_exchange_order_id e), lo_updated_at := ev_timestamp ev\<rparr>))"
| part_filled: "fill_of ev = Some e \<Longrightarrow> lo_state ord = Ack \<or> lo_state ord = PartialFill \<Longrightarrow>
     lo_filled_qty ord + fe_qty e < lo_original_qty ord \<Longrightarrow>
     order_moves ev (Some ord) (Some (ord\<lparr>lo_filled_qty := lo_filled_qty ord + fe_qty e,
       lo_remaining_qty := lo_original_qty ord - (lo_filled_qty ord + fe_qty e),
       lo_state := PartialFill, lo_updated_at := ev_timestamp ev\<rparr>))"
| completed: "fill_of ev = Some e \<Longrightarrow> lo_state ord = Ack \<or> lo_state ord = PartialFill \<Longrightarrow>
     lo_original_qty ord \<le> lo_filled_qty ord + fe_qty e \<Longrightarrow>
     order_moves ev (Some ord) (Some (ord\<lparr>lo_filled_qty := lo_filled_qty ord + fe_qty e,
       lo_remaining_qty := 0, lo_state := Filled, lo_updated_at := ev_timestamp ev\<rparr>))"
| canceled: "ev_payload ev = OrderCancel e \<Longrightarrow> lo_state ord = Ack \<or> lo_state ord = PartialFill \<Longrightarrow>
     order_moves ev (Some ord) (Some (ord\<lparr>lo_state := Canceled, lo_updated_at := ev_timestamp ev\<rparr>))"
| rejected: "ev_payload ev = OrderReject e \<Longrightarrow> lo_state ord = New \<Longrightarrow>
     order_moves ev (Some ord) (Some (ord\<lparr>lo_state := Rejected, lo_updated_at := ev_timestamp ev\<rparr>))"

inductive_cases order_movesE: "order_moves ev c c'"
inductive_simps order_moves_None: "order_moves ev None c'"
inductive_simps order_moves_Some: "order_moves ev (Some ord) c'"

definition engine_wf :: "execution_engine \<Rightarrow> bool" where
  "engine_wf en \<longleftrightarrow> hm_wf (ee_orders en) \<and> (\<forall>(k, ord) \<in> set (ee_orders en). lo_order_id ord = k)"

lemma engine_wf_get: "engine_wf en \<Longrightarrow> hm_get (ee_orders en) k = Some ord \<Longrightarrow> lo_order_id ord = k"
  by (auto simp: engine_wf_def hm_get_in_set)

lemma set_hm_insert: "hm_wf m \<Longrightarrow> set (hm_insert k v m) = {(k, v)} \<union> {e \<in> set m. fst e \<noteq> k}"
  unfolding hm_wf_def hm_insert_def
  by (induction m) (auto simp: rev_image_eqI)

lemma engine_wf_insert:
  "engine_wf en \<Longrightarrow> lo_order_id ord = k \<Longrightarrow> engine_wf (en\<lparr>ee_orders := hm_insert k ord (ee_orders en)\<rparr>)"
  by (auto simp: engine_wf_def set_hm_insert)

lemma engine_wf_new [wf_intros]: "engine_wf engine_new"
  by (simp add: engine_wf_def engine_new_def)

lemma u64_saturating_sub_le: "b \<le> a \<Longrightarrow> u64_saturating_sub a b = a - b"
  and u64_saturating_sub_ge: "a \<le> b \<Longrightarrow> u64_saturating_sub a b = 0"
  by (auto simp: u64_saturating_sub_def)

lemmas engine_ops = register_order_def on_ack_def on_fill_def on_cancel_def on_reject_def and_ok_def

text \<open>What one call of \<open>process_event\<close> does, for every payload and every branch.\<close>

lemma process_event_cases:
  assumes "process_event ev en = (r, en')"
  shows "(event_order ev = None \<and> r = Inr False \<and> en' = en) \<or>
    (\<exists>k. event_order ev = Some k \<and>
      ((\<exists>err. r = Inl err \<and> en' = en \<and> (\<forall>c'. \<not> order_moves ev (hm_get (ee_orders en) k) c')) \<or>
       (\<exists>ord. r = Inr True \<and> order_moves ev (hm_get (ee_orders en) k) (Some ord) \<and>
          en' = en\<lparr>ee_orders := hm_insert k ord (ee_orders en)\<rparr>)))"
proof -
  consider (other) "event_order ev = None" "r = Inr False" "en' = en"
    | (new) e where "ev_payload ev = OrderNew e" | (ack) e where "ev_payload ev = OrderAck e"
    | (fill) e where "ev_payload ev = OrderFill e \<or> ev_payload ev = OrderPartialFill e"
    | (cancel) e where "ev_payload ev = OrderCancel e" | (reject) e where "ev_payload ev = OrderReject e"
    using assms by (cases "ev_payload ev") (auto simp: process_event_def event_order_def)
  then show ?thesis
  proof cases
    case new
    then show ?thesis
      using assms by (cases "hm_get (ee_orders en) (ne_order_id e)")
        (auto simp: process_event_def event_order_def engine_ops order_moves_None order_moves_Some
          live_order_new_def fill_of_def)
  next
    case ack
    then show ?thesis
      using assms by (cases "hm_get (ee_orders en) (ae_order_id e)")
        (auto simp: process_event_def event_order_def engine_ops order_moves_None order_moves_Some
          transition_to fill_of_def split: if_splits)
  next
    case fill
    then have pe: "process_event ev en = and_ok True (on_fill (fe_order_id e) (fe_qty e) (fe_price e) (ev_timestamp ev) en)"
      and f: "fill_of ev = Some e" and k: "event_order ev = Some (fe_order_id e)"
      and np: "\<And>e. ev_payload ev \<noteq> OrderNew e" "\<And>e. ev_payload ev \<noteq> OrderAck e"
        "\<And>e. ev_payload ev \<noteq> OrderCancel e" "\<And>e. ev_payload ev \<noteq> OrderReject e"
      by (auto simp: process_event_def fill_of_def event_order_def)
    show ?thesis
    proof (cases "hm_get (ee_orders en) (fe_order_id e)")
      case None
      then show ?thesis
        using assms k by (auto simp: pe on_fill_def and_ok_def order_moves_None np)
    next
      case (Some ord)
      show ?thesis
      proof (cases "lo_original_qty ord \<le> lo_filled_qty ord + fe_qty e")
        case True
        with Some assms k show ?thesis
          by (auto simp: pe on_fill_def and_ok_def order_moves_Some np f transition_to Let_def
              u64_saturating_sub_ge linorder_not_less split: if_splits)
      next
        case False
        with Some assms k show ?thesis
          by (auto simp: pe on_fill_def and_ok_def order_moves_Some np f transition_to Let_def
              u64_saturating_sub_le linorder_not_le split: if_splits)
      qed
    qed
  next
    case cancel
    then show ?thesis
      using assms by (cases "hm_get (ee_orders en) (ce_order_id e)")
        (auto simp: process_event_def event_order_def engine_ops order_moves_None order_moves_Some
          transition_to fill_of_def split: if_splits)
  next
    case reject
    then show ?thesis
      using assms by (cases "hm_get (ee_orders en) (re_order_id e)")
        (auto simp: process_event_def event_order_def engine_ops order_moves_None order_moves_Some
          transition_to fill_of_def split: if_splits)
  qed simp
qed

lemma order_moves_id: "order_moves ev c (Some ord) \<Longrightarrow> event_order ev = Some k \<Longrightarrow>
  (\<And>ord0. c = Some ord0 \<Longrightarrow> lo_order_id ord0 = k) \<Longrightarrow> lo_order_id ord = k"
  by (auto elim!: order_movesE simp: event_order_def live_order_new_def)

lemma engine_wf_process [wf_intros]:
  assumes "engine_wf en"
  shows "engine_wf (snd (process_event ev en))"
proof -
  obtain r en' where pe: "process_event ev en = (r, en')" by fastforce
  from process_event_cases [OF pe] show ?thesis
    using assms engine_wf_get [OF assms] order_moves_id engine_wf_insert [OF assms] pe
    by (metis snd_conv)
qed


lemma hm_get_process:
  assumes "process_event ev en = (r, en')"
  shows "hm_get (ee_orders en') k = hm_get (ee_orders en) k \<or>
    event_order ev = Some k \<and> r = Inr True \<and>
    (\<exists>ord. hm_get (ee_orders en') k = Some ord \<and> order_moves ev (hm_get (ee_orders en) k) (Some ord))"
  using process_event_cases [OF assms] by (auto simp: hm_get_insert split: if_splits)

lemma next_id_process: "ee_next_local_id (snd (process_event ev en)) = ee_next_local_id en"
proof -
  obtain r en' where "process_event ev en = (r, en')" by fastforce
  from process_event_cases [OF this] this show ?thesis by auto
qed

subsection \<open>Invariants of one order\<close>

definition order_wf :: "live_order \<Rightarrow> bool" where
  "order_wf ord \<longleftrightarrow>
     lo_remaining_qty ord = u64_saturating_sub (lo_original_qty ord) (lo_filled_qty ord) \<and>
     (case lo_state ord of
        New \<Rightarrow> lo_filled_qty ord = 0 \<and> lo_exchange_order_id ord = None
      | Rejected \<Rightarrow> lo_filled_qty ord = 0 \<and> lo_exchange_order_id ord = None
      | Ack \<Rightarrow> lo_filled_qty ord = 0 \<and> lo_exchange_order_id ord \<noteq> None
      | PartialFill \<Rightarrow> lo_filled_qty ord < lo_original_qty ord \<and> lo_exchange_order_id ord \<noteq> None
      | Filled \<Rightarrow> lo_original_qty ord \<le> lo_filled_qty ord \<and> lo_remaining_qty ord = 0 \<and>
          lo_exchange_order_id ord \<noteq> None
      | Canceled \<Rightarrow> (lo_filled_qty ord = 0 \<or> lo_filled_qty ord < lo_original_qty ord) \<and>
          lo_exchange_order_id ord \<noteq> None)"

lemma order_moves_wf:
  assumes "order_moves ev c (Some ord)" and "\<And>ord0. c = Some ord0 \<Longrightarrow> order_wf ord0"
  shows "order_wf ord"
  using assms(1)
proof cases
  case (part_filled e ord0)
  then show ?thesis using assms(2) [of ord0]
    by (auto simp: order_wf_def u64_saturating_sub_le less_imp_le)
next
  case (completed e ord0)
  then show ?thesis using assms(2) [of ord0]
    by (auto simp: order_wf_def u64_saturating_sub_ge)
qed (use assms(2) in \<open>auto simp: order_wf_def live_order_new_def u64_saturating_sub_def\<close>)

lemma order_moves_transition:
  "order_moves ev (Some ord) (Some ord') \<Longrightarrow> can_transition_to (lo_state ord) (lo_state ord')"
  by (auto elim!: order_movesE)

text \<open>What an order is: fixed at registration.\<close>

definition order_terms :: "live_order \<Rightarrow> order_id \<times> symbol \<times> side \<times> order_type \<times> price \<times> qty \<times> time_in_force \<times> venue \<times> u64" where
  "order_terms ord = (lo_order_id ord, lo_symbol ord, lo_side ord, lo_order_type ord, lo_price ord,
     lo_original_qty ord, lo_time_in_force ord, lo_venue ord, lo_created_at ord)"

lemma order_moves_terms: "order_moves ev (Some ord) (Some ord') \<Longrightarrow> order_terms ord' = order_terms ord"
  by (auto elim!: order_movesE simp: order_terms_def)

subsection \<open>Runs\<close>

abbreviation process_step :: "execution_engine \<Rightarrow> event \<Rightarrow> (bool, string) result \<times> execution_engine" where
  "process_step en ev \<equiv> process_event ev en"

abbreviation run_events :: "event list \<Rightarrow> execution_engine \<Rightarrow> execution_engine" where
  "run_events evs en \<equiv> snd (run_ops process_step en evs)"

definition orders_wf :: "execution_engine \<Rightarrow> bool" where
  "orders_wf en \<longleftrightarrow> engine_wf en \<and> (\<forall>k ord. hm_get (ee_orders en) k = Some ord \<longrightarrow> order_wf ord)"

lemma orders_wf_new [wf_intros]: "orders_wf engine_new"
  by (simp add: orders_wf_def engine_wf_new) (simp add: engine_new_def hm_get_def)

lemma orders_wf_process [wf_intros]:
  assumes "orders_wf en"
  shows "orders_wf (snd (process_event ev en))"
proof -
  obtain r en' where pe: "process_event ev en = (r, en')" by fastforce
  have "order_wf ord" if "hm_get (ee_orders en') k = Some ord" for k ord
    using hm_get_process [OF pe, of k] assms that order_moves_wf
    unfolding orders_wf_def by (metis option.inject)
  then show ?thesis
    using assms pe engine_wf_process [of en ev] by (auto simp: orders_wf_def)
qed

lemma orders_wf_run: "orders_wf en \<Longrightarrow> orders_wf (run_events evs en)"
  by (rule run_ops_invariant [where P = orders_wf]) (auto intro: wf_intros)

lemma run_order_path:
  assumes "hm_get (ee_orders en) k = Some ord"
  shows "\<exists>ord'. hm_get (ee_orders (run_events evs en)) k = Some ord' \<and>
    state_path (lo_state ord) (lo_state ord') \<and> order_terms ord' = order_terms ord \<and>
    (is_terminal (lo_state ord) \<longrightarrow> ord' = ord)"
  using assms
proof (induction evs arbitrary: en ord)
  case Nil
  then show ?case by (auto intro: path_refl)
next
  case (Cons ev evs)
  obtain r en' where pe: "process_event ev en = (r, en')" by fastforce
  show ?case
  proof (cases "hm_get (ee_orders en') k = hm_get (ee_orders en) k")
    case True
    with Cons.prems have "hm_get (ee_orders en') k = Some ord" by simp
    from Cons.IH [OF this] show ?thesis by (simp add: snd_run_ops_Cons pe del: run_ops.simps(2))
  next
    case False
    then obtain ord1 where o1: "hm_get (ee_orders en') k = Some ord1"
        "order_moves ev (Some ord) (Some ord1)"
      using hm_get_process [OF pe, of k] Cons.prems by auto
    have tr: "can_transition_to (lo_state ord) (lo_state ord1)"
      using o1(2) by (rule order_moves_transition)
    then have nt: "\<not> is_terminal (lo_state ord)" using terminal_final by blast
    have "state_path (lo_state ord) (lo_state ord1)"
      using path_step [OF path_refl tr] .
    with nt Cons.IH [OF o1(1)] order_moves_terms [OF o1(2)] show ?thesis
      by (auto simp: snd_run_ops_Cons pe simp del: run_ops.simps(2) intro: state_path_trans)
  qed
qed

text \<open>The quantities of the fills the engine accepted for an order.\<close>

fun accepted_fills :: "string \<Rightarrow> execution_engine \<Rightarrow> event list \<Rightarrow> u64 list" where
  "accepted_fills k en [] = []"
| "accepted_fills k en (ev # evs) =
     (case (fill_of ev, fst (process_event ev en)) of
        (Some e, Inr _) \<Rightarrow> (if fe_order_id e = k then [fe_qty e] else [])
      | _ \<Rightarrow> []) @ accepted_fills k (snd (process_event ev en)) evs"

lemma order_moves_filled:
  assumes "order_moves ev (Some ord) (Some ord')"
  shows "lo_filled_qty ord' = lo_filled_qty ord + (case fill_of ev of None \<Rightarrow> 0 | Some e \<Rightarrow> fe_qty e)"
  using assms by (auto elim!: order_movesE simp: fill_of_def)

lemma fill_of_order: "fill_of ev = Some e \<Longrightarrow> event_order ev = Some (fe_order_id e)"
  by (auto simp: fill_of_def event_order_def split: event_payload.splits)

lemma fills_accounted:
  "lo_filled_qty ord' = (case hm_get (ee_orders en) k of None \<Rightarrow> 0 | Some ord \<Rightarrow> lo_filled_qty ord) +
     u64_sum (accepted_fills k en evs)"
  if "hm_get (ee_orders (run_events evs en)) k = Some ord'"
  using that
proof (induction evs arbitrary: en)
  case Nil
  then show ?case by (simp add: u64_sum_def)
next
  case (Cons ev evs)
  obtain r en' where pe: "process_event ev en = (r, en')" by fastforce
  let ?filled = "\<lambda>en. case hm_get (ee_orders en) k of None \<Rightarrow> 0 | Some ord \<Rightarrow> lo_filled_qty ord"
  have head: "?filled en' = ?filled en + u64_sum (case (fill_of ev, r) of
        (Some e, Inr _) \<Rightarrow> (if fe_order_id e = k then [fe_qty e] else []) | _ \<Rightarrow> [])"
  proof (cases "event_order ev = Some k \<and> r = Inr True")
    case True
    then obtain ord1 where o1: "hm_get (ee_orders en') k = Some ord1"
        "order_moves ev (hm_get (ee_orders en) k) (Some ord1)"
      using process_event_cases [OF pe] by (auto simp: hm_get_insert)
    show ?thesis
    proof (cases "hm_get (ee_orders en) k")
      case None
      with o1 show ?thesis
        by (auto simp: order_moves_None live_order_new_def fill_of_def u64_sum_def)
    next
      case (Some ord)
      with o1 order_moves_filled [of ev ord ord1] True show ?thesis
        by (auto simp: u64_sum_def dest: fill_of_order split: option.splits)
    qed
  next
    case False
    then have "hm_get (ee_orders en') k = hm_get (ee_orders en) k"
      using hm_get_process [OF pe, of k] by blast
    moreover have "(case (fill_of ev, r) of (Some e, Inr _) \<Rightarrow> (if fe_order_id e = k then [fe_qty e] else []) | _ \<Rightarrow> []) = []"
      using False process_event_cases [OF pe] by (auto dest: fill_of_order split: option.splits sum.splits)
    ultimately show ?thesis by (simp add: u64_sum_def)
  qed
  have "hm_get (ee_orders (run_events evs en')) k = Some ord'"
    using Cons.prems by (simp add: snd_run_ops_Cons pe del: run_ops.simps(2))
  from Cons.IH [OF this] head show ?case
    by (simp add: pe u64_sum_def add.assoc)
qed


subsection \<open>Replicas agree whatever their hash seeds\<close>

definition engine_eqv :: "execution_engine \<Rightarrow> execution_engine \<Rightarrow> bool" where
  "engine_eqv en en' \<longleftrightarrow> hm_eq (ee_orders en) (ee_orders en') \<and> ee_next_local_id en = ee_next_local_id en'"

lemma engine_eqv_get: "engine_eqv en en' \<Longrightarrow> hm_get (ee_orders en) k = hm_get (ee_orders en') k"
  by (simp add: engine_eqv_def hm_eq_get)

lemma engine_eqv_insert:
  "engine_eqv en en' \<Longrightarrow> engine_eqv (en\<lparr>ee_orders := hm_insert k v (ee_orders en)\<rparr>)
     (en'\<lparr>ee_orders := hm_insert k v (ee_orders en')\<rparr>)"
  by (simp add: engine_eqv_def hm_eq_insert)

lemma engine_ops_eqv:
  assumes "engine_eqv en en'"
  shows "fst (register_order ord en) = fst (register_order ord en') \<and>
      engine_eqv (snd (register_order ord en)) (snd (register_order ord en'))"
    and "fst (on_ack k x ts en) = fst (on_ack k x ts en') \<and> engine_eqv (snd (on_ack k x ts en)) (snd (on_ack k x ts en'))"
    and "fst (on_fill k q p ts en) = fst (on_fill k q p ts en') \<and> engine_eqv (snd (on_fill k q p ts en)) (snd (on_fill k q p ts en'))"
    and "fst (on_cancel k ts en) = fst (on_cancel k ts en') \<and> engine_eqv (snd (on_cancel k ts en)) (snd (on_cancel k ts en'))"
    and "fst (on_reject k ts en) = fst (on_reject k ts en') \<and> engine_eqv (snd (on_reject k ts en)) (snd (on_reject k ts en'))"
  using assms engine_eqv_insert [OF assms]
  by (auto simp: register_order_def on_ack_def on_fill_def on_cancel_def on_reject_def Let_def
      engine_eqv_get [OF assms] split: option.split)

lemma process_event_eqv:
  assumes "engine_eqv en en'"
  shows "fst (process_event ev en) = fst (process_event ev en') \<and>
    engine_eqv (snd (process_event ev en)) (snd (process_event ev en'))"
  using assms engine_ops_eqv [OF assms]
  by (auto simp: process_event_def and_ok_def split: event_payload.split)

lemma engine_wf_values:
  assumes "engine_wf en"
  shows "map lo_order_id (hm_values (ee_orders en)) = map fst (ee_orders en)"
  using assms by (auto simp: engine_wf_def hm_values_def)

lemma distinct_map_sort_key: "distinct (map f (sort_key g xs)) = distinct (map f xs)"
  by (simp add: distinct_map)

lemma engine_wf_distinct:
  assumes "engine_wf en"
  shows "distinct (map lo_order_id (hm_values (ee_orders en)))"
  using assms by (simp add: engine_wf_values) (simp add: engine_wf_def hm_wf_def)

lemma engine_state_eqv:
  assumes "engine_wf en" and "engine_wf en'" and eqv: "engine_eqv en en'"
  shows "engine_state_of en = engine_state_of en'"
proof -
  let ?vs = "hm_values (ee_orders en)" and ?vs' = "hm_values (ee_orders en')"
  have "set (ee_orders en) = set (ee_orders en')"
    using assms by (simp add: engine_wf_def engine_eqv_def hm_eq_set)
  then have set: "set ?vs = set ?vs'" by (simp add: hm_values_def)
  have "inj_on lo_order_id (set ?vs)"
    using engine_wf_distinct [OF assms(1)] by (simp only: distinct_map)
  with set have "sort_key lo_order_id ?vs = sort_key lo_order_id ?vs'"
    using engine_wf_distinct [OF assms(1)] engine_wf_distinct [OF assms(2)]
    by (intro map_sorted_distinct_set_unique [where f = lo_order_id])
      (simp_all add: distinct_map_sort_key)
  then show ?thesis using eqv by (simp add: engine_state_of_def engine_eqv_def)
qed

interpretation exec: replica process_step engine_eqv engine_wf "state_hash ser xxh3" for ser xxh3
proof unfold_locales
  show "state_hash ser xxh3 en = state_hash ser xxh3 en'"
    if "engine_wf en" "engine_wf en'" "engine_eqv en en'" for en en'
    using engine_state_eqv [OF that] by (simp add: state_hash_def serialize_state_def)
  show "fst (process_step en ev) = fst (process_step en' ev) \<and>
      engine_eqv (snd (process_step en ev)) (snd (process_step en' ev))"
    if "engine_eqv en en'" for en en' ev
    using that by (rule process_event_eqv)
qed (simp_all add: engine_eqv_def engine_wf_process)

subsection \<open>Snapshot and restore\<close>

lemma engine_state_distinct: "engine_wf en \<Longrightarrow> distinct (map lo_order_id (st_orders (engine_state_of en)))"
  by (simp add: engine_state_of_def distinct_map_sort_key engine_wf_distinct)

lemma engine_state_get:
  assumes wf: "engine_wf en"
  shows "map_of (map (\<lambda>ord. (lo_order_id ord, ord)) (st_orders (engine_state_of en))) k = hm_get (ee_orders en) k"
proof -
  let ?os = "st_orders (engine_state_of en)"
  have "distinct (map fst (map (\<lambda>ord. (lo_order_id ord, ord)) ?os))"
    using engine_state_distinct [OF wf] by (simp add: comp_def)
  then have "map_of (map (\<lambda>ord. (lo_order_id ord, ord)) ?os) k = Some ord \<longleftrightarrow>
      (k, ord) \<in> set (map (\<lambda>ord. (lo_order_id ord, ord)) ?os)" for ord
    by (rule map_of_eq_Some_iff)
  also have "(k, ord) \<in> set (map (\<lambda>ord. (lo_order_id ord, ord)) ?os) \<longleftrightarrow> (k, ord) \<in> set (ee_orders en)" for ord
    using wf by (force simp: engine_state_of_def hm_values_def engine_wf_def)
  also have "(k, ord) \<in> set (ee_orders en) \<longleftrightarrow> hm_get (ee_orders en) k = Some ord" for ord
    using wf by (simp add: engine_wf_def hm_get_in_set)
  finally have "map_of (map (\<lambda>ord. (lo_order_id ord, ord)) ?os) k = Some ord \<longleftrightarrow>
      hm_get (ee_orders en) k = Some ord" for ord .
  then show ?thesis by (metis not_Some_eq)
qed

lemma fold_insert_get:
  assumes "distinct (map lo_order_id os)"
  shows "hm_wf (fold (\<lambda>ord m. hm_insert (lo_order_id ord) ord m) os []) \<and>
    hm_get (fold (\<lambda>ord m. hm_insert (lo_order_id ord) ord m) os []) k =
      map_of (map (\<lambda>ord. (lo_order_id ord, ord)) os) k"
proof -
  let ?us = "map (\<lambda>ord. (lo_order_id ord, Some ord)) os"
  have "fold (\<lambda>ord m. hm_insert (lo_order_id ord) ord m) os m =
      fold (\<lambda>(k, c) m. case c of None \<Rightarrow> hm_remove k m | Some v \<Rightarrow> hm_insert k v m) ?us m" for m
    by (induction os arbitrary: m) (auto simp: hm_get_insert split: if_splits)
  moreover have "map_of (rev ?us) k = map_of ?us k"
  proof -
    have "distinct (map fst ?us)" using assms by (simp add: comp_def)
    then have "map_of (rev ?us) = map_of ?us"
      by (subst map_of_inject_set) (simp_all add: rev_map [symmetric])
    then show ?thesis by (rule fun_cong)
  qed
  moreover have "map_of ?us k = map_option Some (map_of (map (\<lambda>ord. (lo_order_id ord, ord)) os) k)"
    by (induction os) auto
  ultimately show ?thesis
    using hm.batch_ok [of "[]" ?us] hm.batch_get [of "[]" ?us k]
    by (simp add: hm_get_def split: option.splits)
qed


text \<open>What the properties assume of \<open>bincode\<close>: the state at hand is decoded from its own encoding.\<close>

definition codec_at :: "(engine_state \<Rightarrow> u8 list option) \<Rightarrow> (u8 list \<Rightarrow> string + engine_state) \<Rightarrow> engine_state \<Rightarrow> bool" where
  "codec_at ser deser st \<longleftrightarrow> (\<exists>bs. ser st = Some bs \<and> deser bs = Inr st)"

lemma snapshot_verifies: "snapshot_verify xxh3 (engine_snapshot ser xxh3 seq ts en)"
  by (simp add: snapshot_verify_def engine_snapshot_def Let_def)

lemma engine_wf_fold:
  assumes "distinct (map lo_order_id os)"
  shows "engine_wf \<lparr>ee_orders = fold (\<lambda>ord m. hm_insert (lo_order_id ord) ord m) os [], ee_next_local_id = n\<rparr>"
proof -
  have "lo_order_id ord = k" if "(k, ord) \<in> set (fold (\<lambda>ord m. hm_insert (lo_order_id ord) ord m) os [])" for k ord
  proof -
    have "map_of (map (\<lambda>ord. (lo_order_id ord, ord)) os) k = Some ord"
      using fold_insert_get [OF assms, of k] that by (metis hm_get_in_set)
    then show ?thesis by (auto dest!: map_of_SomeD)
  qed
  then show ?thesis using fold_insert_get [OF assms] by (auto simp: engine_wf_def)
qed

lemma restore_snapshot:
  assumes wf: "engine_wf en" and codec: "codec_at ser deser (engine_state_of en)"
  shows "\<exists>en1. restore deser xxh3 (engine_snapshot ser xxh3 seq ts en) en0 = (Inr (), en1) \<and>
    engine_wf en1 \<and> engine_eqv en1 en"
proof -
  let ?st = "engine_state_of en"
  let ?m = "fold (\<lambda>ord m. hm_insert (lo_order_id ord) ord m) (st_orders ?st) []"
  note dist = engine_state_distinct [OF wf]
  have "hm_get ?m k = hm_get (ee_orders en) k" for k
    using fold_insert_get [OF dist, of k] engine_state_get [OF wf, of k] by simp
  then have "hm_eq ?m (ee_orders en)" by (simp add: hm_eq_get fun_eq_iff)
  then have "engine_eqv \<lparr>ee_orders = ?m, ee_next_local_id = st_next_local_id ?st\<rparr> en"
    by (simp add: engine_eqv_def) (simp add: engine_state_of_def)
  moreover obtain bs where "ser ?st = Some bs" "deser bs = Inr ?st"
    using codec by (auto simp: codec_at_def)
  ultimately show ?thesis
    using engine_wf_fold [OF dist] snapshot_verifies [of xxh3 ser seq ts en]
    by (simp add: restore_def) (simp add: engine_snapshot_def serialize_state_def Let_def)
qed

subsection \<open>Order ids\<close>

lemma next_ids:
  "fst (run_ops (\<lambda>en v. next_order_id v en) en vs) =
     map (\<lambda>(v, i). order_id_new v (ee_next_local_id en + of_nat i)) (zip vs [0..<length vs])"
proof (induction vs arbitrary: en)
  case (Cons v vs)
  let ?en = "en\<lparr>ee_next_local_id := ee_next_local_id en + 1\<rparr>"
  obtain ids en' where run: "run_ops (\<lambda>en v. next_order_id v en) ?en vs = (ids, en')" by fastforce
  have "[0..<Suc (length vs)] = 0 # map Suc [0..<length vs]"
    by (simp add: upt_conv_Cons map_Suc_upt del: upt_Suc)
  then show ?case
    using Cons.IH [of ?en] run
    by (simp add: next_order_id_def zip_map2 comp_def case_prod_beta add.assoc del: upt_Suc)
qed simp

lemma next_ids_distinct:
  assumes "length vs < 2 ^ 64"
  shows "distinct (fst (run_ops (\<lambda>en v. next_order_id v en) en vs))"
proof -
  have "inj_on (\<lambda>i. ee_next_local_id en + of_nat i) {0..<length vs}"
  proof (rule inj_onI)
    fix i j assume "i \<in> {0..<length vs}" "j \<in> {0..<length vs}"
      "ee_next_local_id en + of_nat i = ee_next_local_id en + of_nat j"
    then have "i < 2 ^ 64" "j < 2 ^ 64" "(of_nat i :: u64) = of_nat j"
      using assms by auto
    then show "i = j" by (metis unat_of_nat_u64)
  qed
  then have "inj_on (\<lambda>(v, i). order_id_new v (ee_next_local_id en + of_nat i)) (set (zip vs [0..<length vs]))"
    by (auto simp: inj_on_def order_id_new_inj set_zip)
  then show ?thesis
    unfolding next_ids by (simp add: distinct_map distinct_zipI2)
qed


subsection \<open>Properties\<close>

text \<open>C1: The engine refines the per-order specification. An event the engine accepts moves the one
  order it names as \<open>order_moves\<close> allows and leaves all other orders alone; an event
  it refuses is one for which that order has no move, and it changes nothing; an event that is
  not about orders changes nothing.\<close>

theorem process_event_refines:
  "case process_event ev en of
     (Inr True, en') \<Rightarrow> \<exists>k. event_order ev = Some k \<and>
       order_moves ev (get_order k en) (get_order k en') \<and> (\<forall>j. j = k \<or> get_order j en' = get_order j en) \<and>
       ee_next_local_id en' = ee_next_local_id en
   | (Inr False, en') \<Rightarrow> event_order ev = None \<and> en' = en
   | (Inl err, en') \<Rightarrow> en' = en \<and>
       (\<exists>k. event_order ev = Some k \<and> (\<forall>c. \<not> order_moves ev (get_order k en) c))"
proof -
  obtain r en' where pe: "process_event ev en = (r, en')" by fastforce
  from process_event_cases [OF pe] show ?thesis
    by (auto simp: pe get_order_def hm_get_insert)
qed

text \<open>C2: In every state reachable from the empty engine each order is well-formed: it is stored
  under its own id, the remaining quantity is the original less the filled one, the filled
  quantity and the exchange id are those its state allows, and the filled quantity is exactly
  the sum of the fills the engine accepted for it.\<close>

theorem reachable_orders_consistent:
  assumes "get_order k (run_events evs engine_new) = Some ord"
  shows "lo_order_id ord = k \<and> order_wf ord \<and>
    lo_filled_qty ord = u64_sum (accepted_fills k engine_new evs)"
proof -
  have wf: "orders_wf (run_events evs engine_new)"
    by (rule orders_wf_run [OF orders_wf_new])
  have "hm_get (ee_orders engine_new) k = None" by (simp add: engine_new_def hm_get_def)
  with fills_accounted [where en = engine_new and k = k and evs = evs and ord' = ord] assms
  have "lo_filled_qty ord = u64_sum (accepted_fills k engine_new evs)"
    by (simp add: get_order_def)
  with wf assms engine_wf_get show ?thesis by (auto simp: orders_wf_def get_order_def)
qed

lemma reachable_orders_consistent_witness:
  "\<exists>ord. get_order ''a'' (run_events [ex_event 1 (ex_new ''a'' 10), ex_event 2 (ex_ack ''a''),
      ex_event 3 (ex_fill ''a'' 4), ex_event 4 (ex_fill ''a'' 5)] engine_new) = Some ord \<and>
    order_wf ord \<and> lo_filled_qty ord = 9 \<and>
    lo_filled_qty ord = u64_sum (accepted_fills ''a'' engine_new [ex_event 1 (ex_new ''a'' 10),
      ex_event 2 (ex_ack ''a''), ex_event 3 (ex_fill ''a'' 4), ex_event 4 (ex_fill ''a'' 5)])"
proof -
  let ?evs = "[ex_event 1 (ex_new ''a'' 10), ex_event 2 (ex_ack ''a''),
      ex_event 3 (ex_fill ''a'' 4), ex_event 4 (ex_fill ''a'' 5)]"
  have "\<exists>ord. get_order ''a'' (run_events ?evs engine_new) = Some ord \<and> lo_filled_qty ord = 9"
    by (simp add: ex_defs process_event_def engine_ops engine_new_def get_order_def hm_get_def
        hm_insert_def live_order_new_def)
  then show ?thesis using reachable_orders_consistent [of "''a''" ?evs] by blast
qed

text \<open>C12: Along every run of events an order that exists keeps existing, keeps its terms (id,
  symbol, side, type, price, quantity, venue, creation time), moves only along the transition
  table, and once Filled, Canceled or Rejected never changes again in any field.\<close>

theorem order_history:
  assumes "get_order k en = Some ord"
  shows "\<exists>ord'. get_order k (run_events evs en) = Some ord' \<and>
    state_path (lo_state ord) (lo_state ord') \<and> order_terms ord' = order_terms ord \<and>
    (is_terminal (lo_state ord) \<longrightarrow> ord' = ord)"
  using run_order_path [OF assms [unfolded get_order_def]] by (simp add: get_order_def)

lemma order_history_witness:
  "\<exists>ord ord'. get_order ''a'' (run_events [ex_event 1 (ex_new ''a'' 10)] engine_new) = Some ord \<and>
    state_path (lo_state ord) (lo_state ord') \<and> order_terms ord' = order_terms ord"
proof -
  let ?en = "run_events [ex_event 1 (ex_new ''a'' 10)] engine_new"
  obtain ord where ord: "get_order ''a'' ?en = Some ord"
    by (simp add: ex_defs process_event_def engine_ops engine_new_def get_order_def hm_get_def
        hm_insert_def live_order_new_def)
  from order_history [OF ord, of "[ex_event 2 (ex_ack ''a'')]"] ord show ?thesis by blast
qed

text \<open>C3: Deterministic replay: two engines that hold the same orders, in whatever hash-map order,
  answer every further event alike and have the same state hash after each of them, for any
  serializer and any hash function.\<close>

theorem engines_replay_alike:
  assumes "engine_wf en" and "engine_wf en'" and "engine_eqv en en'"
  shows "fst (run_ops process_step en evs) = fst (run_ops process_step en' evs) \<and>
    map (state_hash ser xxh3) (run_states process_step en evs) =
      map (state_hash ser xxh3) (run_states process_step en' evs)"
  using exec.run_agrees [OF assms] exec.digests_agree [OF assms] by blast

lemma engines_replay_alike_witness:
  "let en = run_events [ex_event 1 (ex_new ''a'' 1), ex_event 2 (ex_new ''b'' 2)] engine_new;
       en' = run_events [ex_event 2 (ex_new ''b'' 2), ex_event 1 (ex_new ''a'' 1)] engine_new
   in ee_orders en \<noteq> ee_orders en' \<and>
     map (state_hash (\<lambda>_. None) (\<lambda>_. 0)) (run_states process_step en [ex_event 3 (ex_ack ''a'')]) =
     map (state_hash (\<lambda>_. None) (\<lambda>_. 0)) (run_states process_step en' [ex_event 3 (ex_ack ''a'')])"
proof -
  let ?a = "ex_event 1 (ex_new ''a'' 1)" and ?b = "ex_event 2 (ex_new ''b'' 2)"
  let ?en = "run_events [?a, ?b] engine_new" and ?en' = "run_events [?b, ?a] engine_new"
  have "engine_eqv ?en ?en' \<and> ee_orders ?en \<noteq> ee_orders ?en'"
    by (simp add: ex_defs process_event_def engine_ops engine_new_def hm_get_def
        hm_insert_def live_order_new_def engine_eqv_def hm_eq_def fun_upd_twist)
  moreover have "engine_wf ?en" "engine_wf ?en'"
    by (rule exec.run_ok, rule engine_wf_new)+
  ultimately show ?thesis
    using engines_replay_alike [of ?en ?en' "[ex_event 3 (ex_ack ''a'')]" "\<lambda>_. None" "\<lambda>_. 0"]
    unfolding Let_def by blast
qed

text \<open>C13: Restoring a snapshot into any engine succeeds when bincode decodes what it encoded, and
  the restored engine is as good as the one that wrote the snapshot: every further event gets the same
  answer and leads to the same state hash.\<close>

theorem snapshot_restore_resumes:
  assumes "codec_at ser deser (engine_state_of (run_events evs engine_new))"
  shows "\<exists>en1. restore deser xxh3 (engine_snapshot ser xxh3 seq ts (run_events evs engine_new)) en0 = (Inr (), en1) \<and>
    fst (run_ops process_step en1 later) = fst (run_ops process_step (run_events evs engine_new) later) \<and>
    map (state_hash ser xxh3) (run_states process_step en1 later) =
      map (state_hash ser xxh3) (run_states process_step (run_events evs engine_new) later)"
proof -
  have wf: "engine_wf (run_events evs engine_new)"
    by (rule exec.run_ok [OF engine_wf_new])
  obtain en1 where "restore deser xxh3 (engine_snapshot ser xxh3 seq ts (run_events evs engine_new)) en0 = (Inr (), en1)"
    and en1: "engine_wf en1" "engine_eqv en1 (run_events evs engine_new)"
    using restore_snapshot [OF wf assms] by blast
  with exec.run_agrees [OF en1(1) wf en1(2)] exec.digests_agree [OF en1(1) wf en1(2)] show ?thesis by blast
qed

lemma snapshot_restore_resumes_witness:
  "let en = run_events [ex_event 1 (ex_new ''a'' 1)] engine_new; ser = (\<lambda>_. Some [1]); deser = (\<lambda>_. Inr (engine_state_of en))
   in \<exists>en1. restore deser (\<lambda>_. 7) (engine_snapshot ser (\<lambda>_. 7) 5 5 en) engine_new = (Inr (), en1) \<and>
     fst (run_ops process_step en1 [ex_event 2 (ex_ack ''a'')]) = fst (run_ops process_step en [ex_event 2 (ex_ack ''a'')])"
proof -
  let ?en = "run_events [ex_event 1 (ex_new ''a'' 1)] engine_new"
  have "codec_at (\<lambda>_. Some [1]) (\<lambda>_. Inr (engine_state_of ?en)) (engine_state_of ?en)"
    by (simp add: codec_at_def)
  from snapshot_restore_resumes [OF this] show ?thesis unfolding Let_def by blast
qed

text \<open> \<open>restore\<close> changes nothing unless the snapshot's hash verifies and its data decodes:
  it refuses exactly the other snapshots, with the engine left as it was.\<close>

theorem restore_refuses:
  "case restore deser xxh3 snap en of
     (Inr _, en') \<Rightarrow> compute_hash xxh3 (sn_state_data snap) = sn_state_hash snap \<and>
       (\<exists>st. deser (sn_state_data snap) = Inr st \<and> ee_next_local_id en' = st_next_local_id st \<and>
         lo_order_id ` set (st_orders st) = {k. get_order k en' \<noteq> None})
   | (Inl err, en') \<Rightarrow> en' = en \<and>
       \<not> (compute_hash xxh3 (sn_state_data snap) = sn_state_hash snap \<and> is_ok (deser (sn_state_data snap)))"
proof -
  have *: "{k. hm_get (fold (\<lambda>ord m. hm_insert (lo_order_id ord) ord m) os m) k \<noteq> None} =
      lo_order_id ` set os \<union> {k. hm_get m k \<noteq> None}" for os :: "live_order list" and m
    by (induction os arbitrary: m) (auto simp: hm_get_insert split: if_splits)
  have get: "lo_order_id ` set os = {k. get_order k \<lparr>ee_orders =
      fold (\<lambda>ord m. hm_insert (lo_order_id ord) ord m) os [], ee_next_local_id = n\<rparr> \<noteq> None}" for os n
    using * [of os "[]"] by (simp add: get_order_def hm_get_def [of "[]"])
  show ?thesis
    by (cases "deser (sn_state_data snap)")
      (simp_all add: restore_def snapshot_verify_def get [where n = "st_next_local_id (projr (deser (sn_state_data snap)))"])
qed

text \<open> \<open>gc_terminal\<close> removes exactly the Filled, Canceled and Rejected orders and returns how
  many they were; the open orders, the counter and the list of open ids stay.\<close>

theorem gc_terminal_exact:
  assumes "engine_wf en"
  shows "get_order k (snd (gc_terminal en)) = (case get_order k en of None \<Rightarrow> None
      | Some ord \<Rightarrow> if is_terminal (lo_state ord) then None else Some ord) \<and>
    fst (gc_terminal en) = length (filter (\<lambda>ord. is_terminal (lo_state ord)) (hm_values (ee_orders en))) \<and>
    open_order_ids (snd (gc_terminal en)) = open_order_ids en \<and>
    ee_next_local_id (snd (gc_terminal en)) = ee_next_local_id en"
proof -
  have "length m - length (filter (\<lambda>e. \<not> is_terminal (lo_state (snd e))) m) =
      length (filter (\<lambda>ord. is_terminal (lo_state ord)) (map snd m))" for m :: "(string, live_order) hashmap"
    using sum_length_filter_compl [of "\<lambda>e. is_terminal (lo_state (snd e))" m]
    by (simp add: filter_map comp_def)
  moreover have "hm_get (hm_retain (\<lambda>ord. \<not> is_terminal (lo_state ord)) (ee_orders en)) k =
      (case hm_get (ee_orders en) k of None \<Rightarrow> None | Some ord \<Rightarrow> if is_terminal (lo_state ord) then None else Some ord)"
    using assms by (simp add: hm_get_retain engine_wf_def split: option.split)
  ultimately show ?thesis
    by (simp add: gc_terminal_def Let_def get_order_def open_order_ids_def hm_values_def
        hm_retain_def filter_map comp_def)
qed

lemma gc_terminal_exact_witness:
  "let en = run_events [ex_event 1 (ex_new ''a'' 1), ex_event 2 (ex_ack ''a''), ex_event 3 (ex_fill ''a'' 1)] engine_new
   in get_order ''a'' en \<noteq> None \<and> get_order ''a'' (snd (gc_terminal en)) = None"
proof -
  let ?en = "run_events [ex_event 1 (ex_new ''a'' 1), ex_event 2 (ex_ack ''a''), ex_event 3 (ex_fill ''a'' 1)] engine_new"
  have "engine_wf ?en" by (rule exec.run_ok [OF engine_wf_new])
  moreover have "\<exists>ord. get_order ''a'' ?en = Some ord \<and> is_terminal (lo_state ord)"
    by (simp add: ex_defs process_event_def engine_ops engine_new_def get_order_def hm_get_def
        hm_insert_def live_order_new_def)
  ultimately show ?thesis
    using gc_terminal_exact [of ?en "''a''"] unfolding Let_def by auto
qed

text \<open> The ids the engine hands out are pairwise different for fewer than \<open>2^64\<close> calls,
  whatever venues they are asked for.\<close>

theorem order_ids_distinct:
  assumes "length vs < 2 ^ 64"
  shows "distinct (fst (run_ops (\<lambda>en v. next_order_id v en) en vs))"
  by (rule next_ids_distinct [OF assms])

lemma order_ids_distinct_witness:
  "distinct (fst (run_ops (\<lambda>en v. next_order_id v en) engine_new [Binance, Binance, OKX]))"
  by (rule order_ids_distinct) simp

text \<open> Replaying an \<open>OrderNew\<close> event does not advance the id counter: after a cold start
  that replays the log, the engine hands out the id of an order it already holds, and
  registering the new order fails.\<close>

theorem replay_reuses_order_id:
  "let en = run_events [ex_event 1 (ex_new (order_id_new Simulated 1) 10)] engine_new;
       (oid, en') = next_order_id Simulated en
   in get_order oid en \<noteq> None \<and>
      (\<exists>err. process_event (ex_event 2 (ex_new oid 5)) en' = (Inl err, en'))"
  by (simp add: ex_defs process_event_def engine_ops engine_new_def get_order_def hm_get_def
      hm_insert_def live_order_new_def next_order_id_def)

end
