(* ===== verification/Simulator.thy ===== *)
theory Simulator
  imports Book Core_Event
begin

section \<open>atomic-execution: the simulated exchange (simulator.rs)\<close>

text \<open>
  \<open>SimulatedExchange\<close>: per-pair books, resting limit orders, the queue of generated events.
  \<open>match_order\<close> is the matching loop over the prices of one side. Iteration over the hash
  map of resting orders is iteration over the model's list, whose order is arbitrary.
  \<open>SimulatorConfig::default\<close> is \<open>simulator_default\<close>.
\<close>

subsection \<open>The book and the matching loop\<close>

record simulator_config =
  sc_ack_latency_ns :: u64
  sc_fill_latency_ns :: u64
  sc_maker_fee_bps :: i64
  sc_taker_fee_bps :: i64

definition simulator_default :: simulator_config where
  "simulator_default = \<lparr>sc_ack_latency_ns = 1000000, sc_fill_latency_ns = 5000000,
     sc_maker_fee_bps = 2, sc_taker_fee_bps = 5\<rparr>"

record sim_order =
  so_order_id :: order_id
  so_symbol :: symbol
  so_side :: side
  so_order_type :: order_type
  so_price :: price
  so_qty :: qty
  so_remaining :: u64
  so_time_in_force :: time_in_force
  so_submitted_at :: u64
  so_source :: node_id

record sim_book =
  sb_bids :: "(i64, u64) btree"
  sb_asks :: "(i64, u64) btree"

definition sim_book_new :: sim_book where
  "sim_book_new = \<lparr>sb_bids = [], sb_asks = []\<rparr>"

definition sim_level :: "level \<Rightarrow> (i64, u64) btree \<Rightarrow> (i64, u64) btree" where
  "sim_level l m = (if lvl_qty l = 0 then bt_remove (lvl_price l) m
     else bt_insert (lvl_price l) (lvl_qty l) m)"

definition apply_levels :: "level list \<Rightarrow> level list \<Rightarrow> bool \<Rightarrow> sim_book \<Rightarrow> sim_book" where
  "apply_levels bids asks is_snapshot b =
     (let b = (if is_snapshot then b\<lparr>sb_bids := [], sb_asks := []\<rparr> else b)
      in b\<lparr>sb_bids := fold sim_level bids (sb_bids b), sb_asks := fold sim_level asks (sb_asks b)\<rparr>)"

type_synonym match_fill = "price \<times> u64"

text \<open>Whether the limit lets an order of this side trade at a price; no limit, any price.\<close>

definition crosses :: "side \<Rightarrow> i64 option \<Rightarrow> i64 \<Rightarrow> bool" where
  "crosses s lim p = (case lim of None \<Rightarrow> True | Some l \<Rightarrow> (case s of Buy \<Rightarrow> p \<le> l | Sell \<Rightarrow> l \<le> p))"

fun match_loop :: "side \<Rightarrow> i64 option \<Rightarrow> i64 list \<Rightarrow> (i64, u64) btree \<Rightarrow> u64 \<Rightarrow> (i64, u64) btree \<times> match_fill list \<times> u64" where
  "match_loop s lim [] m remaining = (m, [], remaining)"
| "match_loop s lim (p # ps) m remaining =
     (if remaining = 0 then (m, [], remaining)
      else if \<not> crosses s lim p then (m, [], remaining)
      else case bt_get m p of
        None \<Rightarrow> match_loop s lim ps m remaining
      | Some avail \<Rightarrow>
          let f = min remaining avail in
          if 0 < f then
            (let m' = (if avail - f = 0 then bt_remove p m else bt_insert p (avail - f) m);
                 (m'', fills, r) = match_loop s lim ps m' (remaining - f)
             in (m'', (p, f) # fills, r))
          else match_loop s lim ps m remaining)"

definition match_order :: "(i64, u64) btree \<Rightarrow> side \<Rightarrow> u64 \<Rightarrow> i64 option \<Rightarrow> (i64, u64) btree \<times> match_fill list \<times> u64" where
  "match_order m s q lim = (let prices = (case s of Buy \<Rightarrow> bt_keys m | Sell \<Rightarrow> rev (bt_keys m))
     in match_loop s lim prices m q)"

subsection \<open>The exchange\<close>

record exchange =
  sx_config :: simulator_config
  sx_books :: "(string, sim_book) hashmap"
  sx_resting :: "(string, sim_order) hashmap"
  sx_pending :: "event list"
  sx_next_exchange_id :: u64

definition exchange_new :: "simulator_config \<Rightarrow> exchange" where
  "exchange_new c = \<lparr>sx_config = c, sx_books = [], sx_resting = [], sx_pending = [], sx_next_exchange_id = 1\<rparr>"

definition push_event :: "event \<Rightarrow> exchange \<Rightarrow> exchange" where
  "push_event e x = x\<lparr>sx_pending := sx_pending x @ [e]\<rparr>"

text \<open>The side of the book an order of a side trades against.\<close>

definition contra :: "side \<Rightarrow> sim_book \<Rightarrow> (i64, u64) btree" where
  "contra s b = (case s of Buy \<Rightarrow> sb_asks b | Sell \<Rightarrow> sb_bids b)"

definition set_contra :: "side \<Rightarrow> (i64, u64) btree \<Rightarrow> sim_book \<Rightarrow> sim_book" where
  "set_contra s m b = (case s of Buy \<Rightarrow> b\<lparr>sb_asks := m\<rparr> | Sell \<Rightarrow> b\<lparr>sb_bids := m\<rparr>)"

definition limit_price :: "order_new_event \<Rightarrow> i64 option" where
  "limit_price ord = (case ne_order_type ord of
     Market \<Rightarrow> None | Limit \<Rightarrow> Some (ne_price ord) | StopLimit \<Rightarrow> Some (ne_price ord) | StopMarket \<Rightarrow> None)"

definition fok_available :: "order_new_event \<Rightarrow> exchange \<Rightarrow> u64" where
  "fok_available ord x = (case hm_get (sx_books x) (pair (ne_symbol ord)) of
     None \<Rightarrow> 0
   | Some b \<Rightarrow> u64_sum (map snd (filter (\<lambda>e. crosses (ne_side ord) (limit_price ord) (fst e)) (contra (ne_side ord) b))))"

definition has_liquidity :: "order_new_event \<Rightarrow> exchange \<Rightarrow> bool" where
  "has_liquidity ord x = (case hm_get (sx_books x) (pair (ne_symbol ord)) of
     None \<Rightarrow> False | Some b \<Rightarrow> contra (ne_side ord) b \<noteq> [])"

definition reject_event :: "order_new_event \<Rightarrow> string \<Rightarrow> u64 \<Rightarrow> node_id \<Rightarrow> event" where
  "reject_event ord why ack_ts src = event_new 0 ack_ts src
     (OrderReject \<lparr>re_order_id = ne_order_id ord, re_reason = why, re_venue = Simulated\<rparr>)"

definition sim_ack_event :: "order_new_event \<Rightarrow> u64 \<Rightarrow> u64 \<Rightarrow> node_id \<Rightarrow> event" where
  "sim_ack_event ord n ack_ts src = event_new 0 ack_ts src
     (OrderAck \<lparr>ae_order_id = ne_order_id ord, ae_exchange_order_id = ''SIM-'' @ show_u64 n, ae_venue = Simulated\<rparr>)"

definition trade_fee :: "price \<Rightarrow> u64 \<Rightarrow> i64 \<Rightarrow> i64" where
  "trade_fee p q bps = i64_quot (i64_mul (i64_mul p (u64_as_i64 q)) bps) 10000"

definition taker_fill_event :: "exchange \<Rightarrow> order_new_event \<Rightarrow> u64 \<Rightarrow> node_id \<Rightarrow> match_fill \<Rightarrow> u64 \<Rightarrow> event" where
  "taker_fill_event x ord fill_ts src fl remaining = event_new 0 fill_ts src
     (OrderFill \<lparr>fe_order_id = ne_order_id ord, fe_symbol = ne_symbol ord, fe_side = ne_side ord,
        fe_price = fst fl, fe_qty = snd fl, fe_remaining = remaining,
        fe_fee = trade_fee (fst fl) (snd fl) (sc_taker_fee_bps (sx_config x)),
        fe_is_maker = False, fe_venue = Simulated\<rparr>)"

fun fill_events :: "exchange \<Rightarrow> order_new_event \<Rightarrow> u64 \<Rightarrow> node_id \<Rightarrow> match_fill list \<Rightarrow> u64 \<Rightarrow> event list" where
  "fill_events x ord fill_ts src [] remaining = []"
| "fill_events x ord fill_ts src (fl # fls) remaining =
     (let remaining = u64_saturating_sub remaining (snd fl)
      in taker_fill_event x ord fill_ts src fl remaining # fill_events x ord fill_ts src fls remaining)"

definition cancel_event :: "order_id \<Rightarrow> string \<Rightarrow> u64 \<Rightarrow> node_id \<Rightarrow> event" where
  "cancel_event oid why ts src = event_new 0 ts src
     (OrderCancel \<lparr>ce_order_id = oid, ce_reason = why, ce_venue = Simulated\<rparr>)"

definition rest_order :: "order_new_event \<Rightarrow> u64 \<Rightarrow> u64 \<Rightarrow> node_id \<Rightarrow> sim_order" where
  "rest_order ord remaining timestamp src =
     \<lparr>so_order_id = ne_order_id ord, so_symbol = ne_symbol ord, so_side = ne_side ord,
      so_order_type = ne_order_type ord, so_price = ne_price ord, so_qty = ne_qty ord,
      so_remaining = remaining, so_time_in_force = ne_time_in_force ord,
      so_submitted_at = timestamp, so_source = src\<rparr>"

definition handle_remaining :: "order_new_event \<Rightarrow> u64 \<Rightarrow> u64 \<Rightarrow> node_id \<Rightarrow> u64 \<Rightarrow> exchange \<Rightarrow> exchange" where
  "handle_remaining ord timestamp fill_ts src remaining x =
     (if 0 < remaining then
        (case ne_time_in_force ord of
           ImmediateOrCancel \<Rightarrow> push_event (cancel_event (ne_order_id ord) ''ioc_expired'' fill_ts src) x
         | FillOrKill \<Rightarrow> x
         | _ \<Rightarrow> if ne_order_type ord = Limit
               then x\<lparr>sx_resting := hm_insert (ne_order_id ord) (rest_order ord remaining timestamp src) (sx_resting x)\<rparr>
               else x)
      else x)"

definition submit_order :: "order_new_event \<Rightarrow> u64 \<Rightarrow> node_id \<Rightarrow> exchange \<Rightarrow> exchange" where
  "submit_order ord timestamp src x =
     (let key = pair (ne_symbol ord);
          ack_ts = timestamp + sc_ack_latency_ns (sx_config x);
          fill_ts = timestamp + sc_fill_latency_ns (sx_config x)
      in if ne_time_in_force ord = FillOrKill \<and> fok_available ord x < ne_qty ord
         then push_event (reject_event ord ''fok_unfillable'' ack_ts src) x
         else if ne_order_type ord = Market \<and> \<not> has_liquidity ord x
         then push_event (reject_event ord ''no_liquidity'' ack_ts src) x
         else
           (let x1 = push_event (sim_ack_event ord (sx_next_exchange_id x) ack_ts src)
                       (x\<lparr>sx_next_exchange_id := sx_next_exchange_id x + 1\<rparr>);
                (books, fills, remaining) = (case hm_get (sx_books x1) key of
                   None \<Rightarrow> (sx_books x1, [], ne_qty ord)
                 | Some b \<Rightarrow>
                     let (m, fills, r) = match_order (contra (ne_side ord) b) (ne_side ord) (ne_qty ord) (limit_price ord)
                     in (hm_insert key (set_contra (ne_side ord) m b) (sx_books x1), fills, r));
                x2 = x1\<lparr>sx_books := books,
                        sx_pending := sx_pending x1 @ fill_events x1 ord fill_ts src fills (ne_qty ord)\<rparr>
            in handle_remaining ord timestamp fill_ts src remaining x2))"

definition cancel_order :: "order_id \<Rightarrow> u64 \<Rightarrow> node_id \<Rightarrow> exchange \<Rightarrow> exchange" where
  "cancel_order oid timestamp src x =
     (if hm_get (sx_resting x) oid \<noteq> None
      then push_event (cancel_event oid ''user_cancel'' (timestamp + sc_ack_latency_ns (sx_config x)) src)
             (x\<lparr>sx_resting := hm_remove oid (sx_resting x)\<rparr>)
      else x)"

definition can_cross :: "sim_order \<Rightarrow> exchange \<Rightarrow> bool" where
  "can_cross ord x = (case hm_get (sx_books x) (pair (so_symbol ord)) of
     None \<Rightarrow> False
   | Some b \<Rightarrow> (case so_side ord of
       Buy \<Rightarrow> (case bt_first (sb_asks b) of None \<Rightarrow> False | Some e \<Rightarrow> fst e \<le> so_price ord)
     | Sell \<Rightarrow> (case bt_last (sb_bids b) of None \<Rightarrow> False | Some e \<Rightarrow> so_price ord \<le> fst e)))"

definition maker_fill_event :: "exchange \<Rightarrow> sim_order \<Rightarrow> event" where
  "maker_fill_event x ord = event_new 0 (so_submitted_at ord + sc_fill_latency_ns (sx_config x)) (so_source ord)
     (OrderFill \<lparr>fe_order_id = so_order_id ord, fe_symbol = so_symbol ord, fe_side = so_side ord,
        fe_price = so_price ord, fe_qty = so_remaining ord, fe_remaining = 0,
        fe_fee = trade_fee (so_price ord) (so_remaining ord) (sc_maker_fee_bps (sx_config x)),
        fe_is_maker = True, fe_venue = Simulated\<rparr>)"

definition check_one :: "string \<Rightarrow> exchange \<Rightarrow> exchange" where
  "check_one oid x = (case hm_get (sx_resting x) oid of
     None \<Rightarrow> x
   | Some ord \<Rightarrow>
       if \<not> can_cross ord x then x
       else (let x = push_event (maker_fill_event x ord) x
             in x\<lparr>sx_resting := hm_remove oid (sx_resting x)\<rparr>))"

definition check_resting_orders :: "string \<Rightarrow> exchange \<Rightarrow> exchange" where
  "check_resting_orders key x =
     (let order_ids = map fst (filter (\<lambda>e. pair (so_symbol (snd e)) = key) (sx_resting x))
      in fold check_one order_ids x)"

definition on_book_update :: "symbol \<Rightarrow> level list \<Rightarrow> level list \<Rightarrow> bool \<Rightarrow> exchange \<Rightarrow> exchange" where
  "on_book_update smb bids asks is_snapshot x =
     (let key = pair smb;
          b = (case hm_get (sx_books x) key of None \<Rightarrow> sim_book_new | Some b \<Rightarrow> b);
          x = x\<lparr>sx_books := hm_insert key (apply_levels bids asks is_snapshot b) (sx_books x)\<rparr>
      in check_resting_orders key x)"

definition drain_events :: "u64 \<Rightarrow> exchange \<Rightarrow> event list \<times> exchange" where
  "drain_events start_seq x = (number_from start_seq (sx_pending x), x\<lparr>sx_pending := []\<rparr>)"

definition pending_count :: "exchange \<Rightarrow> nat" where
  "pending_count x = length (sx_pending x)"

definition resting_order_count :: "exchange \<Rightarrow> nat" where
  "resting_order_count x = length (sx_resting x)"


subsection \<open>The matching loop\<close>

definition cell :: "(i64, u64) btree \<Rightarrow> i64 \<Rightarrow> nat" where
  "cell m p = (case bt_get m p of None \<Rightarrow> 0 | Some q \<Rightarrow> unat q)"

definition filled_at :: "i64 \<Rightarrow> match_fill list \<Rightarrow> nat" where
  "filled_at p fills = total (map snd (filter (\<lambda>f. fst f = p) fills))"

text \<open>\<open>better s p q\<close>: an order of side \<open>s\<close> trades at \<open>p\<close> before \<open>q\<close>.\<close>

definition better :: "side \<Rightarrow> i64 \<Rightarrow> i64 \<Rightarrow> bool" where
  "better s p q = (case s of Buy \<Rightarrow> p < q | Sell \<Rightarrow> q < p)"

lemma crosses_mono: "better s p q \<Longrightarrow> crosses s lim q \<Longrightarrow> crosses s lim p"
  by (cases s) (auto simp: better_def crosses_def split: option.splits)

lemma side_wf_bt: "side_wf m \<Longrightarrow> bt_wf m"
  by (simp add: side_wf_def)

lemma side_wf_remove: "side_wf m \<Longrightarrow> side_wf (bt_remove p m)"
  by (auto simp: side_wf_def) (auto simp: bt_remove_def)

lemma side_wf_put: "side_wf m \<Longrightarrow> q \<noteq> 0 \<Longrightarrow> side_wf (bt_insert p q m)"
  by (auto simp: side_wf_def set_bt_insert)

lemma side_wf_get: "side_wf m \<Longrightarrow> bt_get m p = Some q \<Longrightarrow> q \<noteq> 0"
  by (auto simp: side_wf_def bt.get_iff)

lemma cell_remove: "cell (bt_remove p m) q = (if q = p then 0 else cell m q)"
  by (simp add: cell_def bt_get_remove)

lemma cell_insert: "bt_wf m \<Longrightarrow> cell (bt_insert p v m) q = (if q = p then unat v else cell m q)"
  by (simp add: cell_def bt_get_insert)

lemma cell_zero: "side_wf m \<Longrightarrow> cell m p = 0 \<longleftrightarrow> bt_get m p = None"
  by (auto simp: cell_def unat_eq_zero dest: side_wf_get split: option.splits)

text \<open>One level consumed: what is left of it and of the order.\<close>

definition consume :: "i64 \<Rightarrow> u64 \<Rightarrow> u64 \<Rightarrow> (i64, u64) btree \<Rightarrow> (i64, u64) btree" where
  "consume p f avail m = (if avail - f = 0 then bt_remove p m else bt_insert p (avail - f) m)"

lemma consume_wf: "side_wf m \<Longrightarrow> side_wf (consume p f avail m)"
  by (simp add: consume_def side_wf_remove side_wf_put)

lemma consume_cell:
  "side_wf m \<Longrightarrow> f \<le> avail \<Longrightarrow> cell (consume p f avail m) q = (if q = p then unat avail - unat f else cell m q)"
  by (auto simp: consume_def cell_remove cell_insert side_wf_bt unat_sub)

lemma match_loop_step:
  assumes "side_wf m" and "remaining \<noteq> 0" and "crosses s lim p" and "bt_get m p = Some avail"
  shows "match_loop s lim (p # ps) m remaining =
    (let f = min remaining avail; (m'', fills, r) = match_loop s lim ps (consume p f avail m) (remaining - f)
     in (m'', (p, f) # fills, r))"
    and "min remaining avail \<noteq> 0"
proof -
  have "avail \<noteq> 0" using side_wf_get assms(1,4) by blast
  with assms(2) show "min remaining avail \<noteq> 0" by (simp add: min_def)
  with assms show "match_loop s lim (p # ps) m remaining =
    (let f = min remaining avail; (m'', fills, r) = match_loop s lim ps (consume p f avail m) (remaining - f)
     in (m'', (p, f) # fills, r))"
    by (simp add: consume_def Let_def word_neq_0_conv [symmetric])
qed

text \<open>Induction over the loop, with its four ways on.\<close>

lemma match_loop_induct [consumes 2, case_names stop skip take]:
  assumes "side_wf m" and "match_loop s lim ps m r = (m', fills, r')"
    and stop: "\<And>m r ps. side_wf m \<Longrightarrow> ps = [] \<or> r = 0 \<or> \<not> crosses s lim (hd ps) \<Longrightarrow> P ps m r m [] r"
    and skip: "\<And>p ps m r m' fills r'. side_wf m \<Longrightarrow> r \<noteq> 0 \<Longrightarrow> crosses s lim p \<Longrightarrow> bt_get m p = None \<Longrightarrow>
      P ps m r m' fills r' \<Longrightarrow> P (p # ps) m r m' fills r'"
    and take: "\<And>p ps m r avail f m' fills r'. side_wf m \<Longrightarrow> r \<noteq> 0 \<Longrightarrow> crosses s lim p \<Longrightarrow>
      bt_get m p = Some avail \<Longrightarrow> f = min r avail \<Longrightarrow> f \<noteq> 0 \<Longrightarrow>
      P ps (consume p f avail m) (r - f) m' fills r' \<Longrightarrow> P (p # ps) m r m' ((p, f) # fills) r'"
  shows "P ps m r m' fills r'"
  using assms(1,2)
proof (induction ps arbitrary: m r m' fills r')
  case Nil
  then show ?case using stop by simp
next
  case (Cons p ps)
  show ?case
  proof (cases "r = 0 \<or> \<not> crosses s lim p")
    case True
    with Cons.prems have "m' = m" "fills = []" "r' = r" by (auto split: if_splits)
    with True Cons.prems(1) show ?thesis using stop [of m "p # ps" r] by simp
  next
    case False
    show ?thesis
    proof (cases "bt_get m p")
      case None
      with False Cons.prems(2) have "match_loop s lim ps m r = (m', fills, r')" by simp
      with Cons.IH [OF Cons.prems(1)] skip [OF Cons.prems(1)] None False show ?thesis by blast
    next
      case (Some avail)
      let ?f = "min r avail"
      have r: "r \<noteq> 0" and cr: "crosses s lim p" using False by auto
      obtain m2 fs r2 where rec: "match_loop s lim ps (consume p ?f avail m) (r - ?f) = (m2, fs, r2)"
        by (metis prod_cases3)
      have "m' = m2" "fills = (p, ?f) # fs" "r' = r2"
        using Cons.prems(2) match_loop_step(1) [OF Cons.prems(1) r cr Some] rec by (auto simp: Let_def)
      with take [OF Cons.prems(1) r cr Some refl match_loop_step(2) [OF Cons.prems(1) r cr Some]]
        Cons.IH [OF consume_wf [OF Cons.prems(1)] rec] show ?thesis by blast
    qed
  qed
qed

lemma match_loop_wf:
  "side_wf m \<Longrightarrow> match_loop s lim ps m r = (m', fills, r') \<Longrightarrow> side_wf m'"
  by (induction rule: match_loop_induct) auto

lemma match_loop_total:
  "side_wf m \<Longrightarrow> match_loop s lim ps m r = (m', fills, r') \<Longrightarrow> total (map snd fills) + unat r' = unat r"
  by (induction rule: match_loop_induct) (auto simp: unat_sub min_def word_le_nat_alt)

lemma match_loop_fills:
  "side_wf m \<Longrightarrow> match_loop s lim ps m r = (m', fills, r') \<Longrightarrow>
    \<forall>(p, f) \<in> set fills. p \<in> set ps \<and> crosses s lim p \<and> f \<noteq> 0 \<and> f \<le> r"
proof (induction rule: match_loop_induct)
  case (take p ps m r avail f m' fills r')
  have "r - f \<le> r" using take(5) by (simp add: min_def word_sub_le)
  moreover have "f \<le> r" using take(5) by simp
  ultimately show ?case using take by auto
qed auto

lemma filled_at_none: "p \<notin> fst ` set fills \<Longrightarrow> filled_at p fills = 0"
  by (auto simp: filled_at_def filter_empty_conv rev_image_eqI)

lemma filled_at_Cons: "filled_at p ((q, f) # fills) = (if q = p then unat f else 0) + filled_at p fills"
  by (simp add: filled_at_def)

lemma match_loop_frame:
  "side_wf m \<Longrightarrow> match_loop s lim ps m r = (m', fills, r') \<Longrightarrow> p \<notin> set ps \<longrightarrow> cell m' p = cell m p"
  by (induction rule: match_loop_induct) (auto simp: consume_cell)

lemma match_loop_sorted:
  assumes "side_wf m" and "match_loop s lim ps m r = (m', fills, r')"
  shows "sorted_wrt (better s) ps \<longrightarrow> sorted_wrt (better s) (map fst fills) \<and> fst ` set fills \<subseteq> set ps"
  using assms by (induction rule: match_loop_induct) auto

lemma match_loop_conserves:
  assumes "side_wf m" and "match_loop s lim ps m r = (m', fills, r')"
  shows "distinct ps \<longrightarrow> fst ` set fills \<subseteq> set ps \<and> (\<forall>q. cell m q = cell m' q + filled_at q fills) \<and>
    (\<forall>q. q \<notin> set ps \<longrightarrow> cell m' q = cell m q)"
  using assms
proof (induction rule: match_loop_induct)
  case (stop m r ps)
  then show ?case by (simp add: filled_at_def)
next
  case (take p ps m r avail f m' fills r')
  have avail: "cell m p = unat avail" and f: "f \<le> avail"
    using take(4,5) by (simp_all add: cell_def)
  show ?case
  proof (intro impI conjI allI)
    assume d: "distinct (p # ps)"
    then have "distinct ps" by simp
    with take(7) have ih: "fst ` set fills \<subseteq> set ps" "\<forall>q. cell (consume p f avail m) q = cell m' q + filled_at q fills"
      "\<forall>q. q \<notin> set ps \<longrightarrow> cell m' q = cell (consume p f avail m) q" by blast+
    show "fst ` set ((p, f) # fills) \<subseteq> set (p # ps)" using ih(1) by auto
    fix q
    have "unat f \<le> unat avail" using f by (simp add: word_le_nat_alt)
    then have "cell m q = cell (consume p f avail m) q + (if p = q then unat f else 0)"
      using consume_cell [OF take(1) f, of p q] avail by auto
    then show "cell m q = cell m' q + filled_at q ((p, f) # fills)"
      using spec [OF ih(2), of q] by (simp only: filled_at_Cons)
    show "cell m' q = cell m q" if "q \<notin> set (p # ps)"
      using that ih(3) consume_cell [OF take(1) f, of p q] by simp
  qed
next
  case (skip p ps m r m' fills r')
  from skip(5) show ?case unfolding distinct.simps list.set by blast
qed

lemma better_irrefl: "\<not> better s p p"
  and better_asym: "better s p q \<Longrightarrow> \<not> better s q p"
  by (cases s; simp add: better_def)+

lemma better_distinct: "sorted_wrt (better s) ps \<Longrightarrow> distinct ps"
  by (induction ps) (auto simp: better_irrefl)

text \<open>Nothing better than a filled price, and nothing the limit allows if the order is not
  complete, is left in the book.\<close>

lemma match_loop_exhausts:
  assumes "side_wf m" and "match_loop s lim ps m r = (m', fills, r')"
  shows "sorted_wrt (better s) ps \<longrightarrow>
    (r' \<noteq> 0 \<longrightarrow> (\<forall>q \<in> set ps. crosses s lim q \<longrightarrow> cell m' q = 0)) \<and>
    (\<forall>p \<in> fst ` set fills. \<forall>q \<in> set ps. better s q p \<longrightarrow> cell m' q = 0) \<and>
    (\<forall>q. q \<notin> set ps \<longrightarrow> cell m' q = cell m q) \<and> fst ` set fills \<subseteq> set ps \<and>
    (fills \<noteq> [] \<or> r' \<noteq> 0 \<longrightarrow> r \<noteq> 0)"
  using assms
proof (induction rule: match_loop_induct)
  case (stop m r ps)
  show ?case
  proof (cases ps)
    case (Cons p ps')
    then show ?thesis using stop crosses_mono by (auto simp: word_neq_0_conv)
  qed simp
next
  case (skip p ps m r m' fills r')
  have "cell m p = 0" using skip(4) by (simp add: cell_def)
  moreover have "p \<notin> set ps" if "sorted_wrt (better s) (p # ps)"
    using better_distinct [OF that] by simp
  ultimately show ?case using skip(2,5) by auto
next
  case (take p ps m r avail f m' fills r')
  show ?case
  proof (intro impI)
    assume sorted: "sorted_wrt (better s) (p # ps)"
    then have p: "p \<notin> set ps" using better_distinct by fastforce
    have worse: "\<not> better s q p" if "q \<in> set (p # ps)" for q
      using sorted that better_asym better_irrefl by auto
    have ih: "r' \<noteq> 0 \<longrightarrow> (\<forall>q \<in> set ps. crosses s lim q \<longrightarrow> cell m' q = 0)"
      "\<forall>p' \<in> fst ` set fills. \<forall>q \<in> set ps. better s q p' \<longrightarrow> cell m' q = 0"
      "\<forall>q. q \<notin> set ps \<longrightarrow> cell m' q = cell (consume p f avail m) q" "fst ` set fills \<subseteq> set ps"
      "fills \<noteq> [] \<or> r' \<noteq> 0 \<longrightarrow> r - f \<noteq> 0"
      using take(7) sorted by auto
    have "f \<le> avail" using take(5) by simp
    then have c: "cell (consume p f avail m) q = (if q = p then unat avail - unat f else cell m q)" for q
      by (rule consume_cell [OF take(1)])
    have gone: "cell m' p = 0" if "fills \<noteq> [] \<or> r' \<noteq> 0"
    proof -
      have "f = avail" using ih(5) that take(5) by (auto simp: min_def split: if_splits)
      then show ?thesis using ih(3) p c [of p] by simp
    qed
    show "(r' \<noteq> 0 \<longrightarrow> (\<forall>q \<in> set (p # ps). crosses s lim q \<longrightarrow> cell m' q = 0)) \<and>
      (\<forall>p' \<in> fst ` set ((p, f) # fills). \<forall>q \<in> set (p # ps). better s q p' \<longrightarrow> cell m' q = 0) \<and>
      (\<forall>q. q \<notin> set (p # ps) \<longrightarrow> cell m' q = cell m q) \<and> fst ` set ((p, f) # fills) \<subseteq> set (p # ps) \<and>
      ((p, f) # fills \<noteq> [] \<or> r' \<noteq> 0 \<longrightarrow> r \<noteq> 0)"
    proof (intro conjI)
      show "r' \<noteq> 0 \<longrightarrow> (\<forall>q \<in> set (p # ps). crosses s lim q \<longrightarrow> cell m' q = 0)"
        using ih(1) gone by simp
      have "\<forall>p' \<in> fst ` set fills. cell m' p = 0" using gone by fastforce
      then show "\<forall>p' \<in> fst ` set ((p, f) # fills). \<forall>q \<in> set (p # ps). better s q p' \<longrightarrow> cell m' q = 0"
        using ih(2) worse by auto
      show "\<forall>q. q \<notin> set (p # ps) \<longrightarrow> cell m' q = cell m q"
        using ih(3) c by simp
      show "fst ` set ((p, f) # fills) \<subseteq> set (p # ps)" using ih(4) by auto
    qed (use take(2) in simp)
  qed
qed


lemma better_simps: "better Buy = (<)" "better Sell = (\<lambda>p q. q < p)"
  by (simp_all add: fun_eq_iff better_def)

lemma match_prices_sorted:
  assumes "side_wf m"
  shows "sorted_wrt (better s) (case s of Buy \<Rightarrow> bt_keys m | Sell \<Rightarrow> rev (bt_keys m))"
  using assms by (cases s) (simp_all add: side_wf_def bt_wf_def bt_keys_def better_simps sorted_wrt_rev)

lemma match_prices_set: "set (case s of Buy \<Rightarrow> bt_keys m | Sell \<Rightarrow> rev (bt_keys m)) = fst ` set m"
  by (cases s) (simp_all add: bt_keys_def)

lemma cell_absent: "p \<notin> fst ` set m \<Longrightarrow> cell m p = 0"
  by (auto simp: cell_def bt_get_def map_of_eq_None_iff split: option.splits dest: map_of_SomeD)
    (metis fst_conv image_eqI map_of_SomeD)

lemma match_order_spec:
  assumes wf: "side_wf m" and run: "match_order m s q lim = (m', fills, r)"
  shows "side_wf m'" and "total (map snd fills) + unat r = unat q"
    and "cell m p = cell m' p + filled_at p fills"
    and "\<forall>(p, f) \<in> set fills. crosses s lim p \<and> f \<noteq> 0"
    and "sorted_wrt (better s) (map fst fills)"
    and "p \<in> fst ` set fills \<Longrightarrow> better s p' p \<Longrightarrow> bt_get m' p' = None"
    and "r \<noteq> 0 \<Longrightarrow> crosses s lim p \<Longrightarrow> bt_get m' p = None"
proof -
  let ?ps = "case s of Buy \<Rightarrow> bt_keys m | Sell \<Rightarrow> rev (bt_keys m)"
  have loop: "match_loop s lim ?ps m q = (m', fills, r)"
    using run by (simp add: match_order_def Let_def)
  note sorted = match_prices_sorted [OF wf, of s]
  have ex: "(r \<noteq> 0 \<longrightarrow> (\<forall>q \<in> set ?ps. crosses s lim q \<longrightarrow> cell m' q = 0)) \<and>
    (\<forall>p \<in> fst ` set fills. \<forall>q \<in> set ?ps. better s q p \<longrightarrow> cell m' q = 0) \<and>
    (\<forall>q. q \<notin> set ?ps \<longrightarrow> cell m' q = cell m q)"
    using match_loop_exhausts [OF wf loop] sorted by blast
  have out: "cell m' q = 0" if "q \<notin> set ?ps" for q
    using ex that cell_absent [of q m] by (simp add: match_prices_set)
  show wf': "side_wf m'" by (rule match_loop_wf [OF wf loop])
  show "total (map snd fills) + unat r = unat q" by (rule match_loop_total [OF wf loop])
  show "cell m p = cell m' p + filled_at p fills"
    using match_loop_conserves [OF wf loop] better_distinct [OF sorted] by blast
  show "\<forall>(p, f) \<in> set fills. crosses s lim p \<and> f \<noteq> 0"
    using match_loop_fills [OF wf loop] by auto
  show "sorted_wrt (better s) (map fst fills)"
    using match_loop_sorted [OF wf loop] sorted by blast
  show "bt_get m' p' = None" if "p \<in> fst ` set fills" "better s p' p"
  proof (cases "p' \<in> set ?ps")
    case True
    with ex that have "cell m' p' = 0" by blast
    then show ?thesis by (simp add: cell_zero [OF wf'])
  qed (simp add: out flip: cell_zero [OF wf'])
  show "bt_get m' p = None" if "r \<noteq> 0" "crosses s lim p"
  proof (cases "p \<in> set ?ps")
    case True
    with ex that have "cell m' p = 0" by blast
    then show ?thesis by (simp add: cell_zero [OF wf'])
  qed (simp add: out flip: cell_zero [OF wf'])
qed

subsection \<open>The exchange's invariant\<close>

definition sim_book_wf :: "sim_book \<Rightarrow> bool" where
  "sim_book_wf b \<longleftrightarrow> side_wf (sb_bids b) \<and> side_wf (sb_asks b)"

definition sim_order_wf :: "string \<Rightarrow> sim_order \<Rightarrow> bool" where
  "sim_order_wf k ord \<longleftrightarrow> so_order_id ord = k \<and> so_remaining ord \<noteq> 0 \<and>
     so_remaining ord \<le> so_qty ord \<and> so_order_type ord = Limit"

definition exchange_wf :: "exchange \<Rightarrow> bool" where
  "exchange_wf x \<longleftrightarrow> hm_wf (sx_books x) \<and> hm_wf (sx_resting x) \<and>
     (\<forall>k b. hm_get (sx_books x) k = Some b \<longrightarrow> sim_book_wf b) \<and>
     (\<forall>k ord. hm_get (sx_resting x) k = Some ord \<longrightarrow> sim_order_wf k ord)"

lemma exchange_wf_new [wf_intros]: "exchange_wf (exchange_new c)"
  by (simp add: exchange_wf_def exchange_new_def hm_get_def)

lemma sim_level_delta: "sim_level = delta_level"
  by (simp add: fun_eq_iff sim_level_def delta_level_def)

lemma sim_book_wf_levels [wf_intros]: "sim_book_wf b \<Longrightarrow> sim_book_wf (apply_levels bs as snap b)"
  by (auto simp: sim_book_wf_def apply_levels_def Let_def sim_level_delta intro: wf_intros)

lemma sim_book_wf_contra: "sim_book_wf b \<Longrightarrow> side_wf (contra s b)"
  by (cases s) (simp_all add: sim_book_wf_def contra_def)

lemma sim_book_wf_set_contra: "sim_book_wf b \<Longrightarrow> side_wf m \<Longrightarrow> sim_book_wf (set_contra s m b)"
  by (cases s) (simp_all add: sim_book_wf_def set_contra_def)

lemma push_event_frame [simp, frame_simps]:
  "sx_config (push_event e x) = sx_config x" "sx_books (push_event e x) = sx_books x"
  "sx_resting (push_event e x) = sx_resting x" "sx_next_exchange_id (push_event e x) = sx_next_exchange_id x"
  "sx_pending (push_event e x) = sx_pending x @ [e]"
  by (simp_all add: push_event_def)

lemma exchange_wf_push [wf_intros]: "exchange_wf (push_event e x) = exchange_wf x"
  by (simp add: exchange_wf_def)

lemma exchange_wf_cancel [wf_intros]: "exchange_wf x \<Longrightarrow> exchange_wf (cancel_order oid ts src x)"
  by (auto simp: cancel_order_def exchange_wf_def hm_get_remove split: if_splits)

text \<open>The three outcomes of \<open>submit_order\<close>: refused, acknowledged, and what becomes of the rest.\<close>

definition ioc_cancel :: "order_new_event \<Rightarrow> u64 \<Rightarrow> node_id \<Rightarrow> u64 \<Rightarrow> event list" where
  "ioc_cancel ord fill_ts src r =
     (if r \<noteq> 0 \<and> ne_time_in_force ord = ImmediateOrCancel
      then [cancel_event (ne_order_id ord) ''ioc_expired'' fill_ts src] else [])"

definition rests :: "order_new_event \<Rightarrow> u64 \<Rightarrow> bool" where
  "rests ord r \<longleftrightarrow> r \<noteq> 0 \<and> ne_order_type ord = Limit \<and>
     ne_time_in_force ord \<noteq> ImmediateOrCancel \<and> ne_time_in_force ord \<noteq> FillOrKill"

lemma handle_remaining_fields:
  "sx_pending (handle_remaining ord ts fill_ts src r x) = sx_pending x @ ioc_cancel ord fill_ts src r"
  "sx_books (handle_remaining ord ts fill_ts src r x) = sx_books x"
  "sx_resting (handle_remaining ord ts fill_ts src r x) =
     (if rests ord r then hm_insert (ne_order_id ord) (rest_order ord r ts src) (sx_resting x) else sx_resting x)"
  "sx_config (handle_remaining ord ts fill_ts src r x) = sx_config x"
  "sx_next_exchange_id (handle_remaining ord ts fill_ts src r x) = sx_next_exchange_id x"
  by (auto simp: handle_remaining_def ioc_cancel_def rests_def word_neq_0_conv [symmetric] split: time_in_force.splits)

definition refuses :: "order_new_event \<Rightarrow> exchange \<Rightarrow> string option" where
  "refuses ord x =
     (if ne_time_in_force ord = FillOrKill \<and> fok_available ord x < ne_qty ord then Some ''fok_unfillable''
      else if ne_order_type ord = Market \<and> \<not> has_liquidity ord x then Some ''no_liquidity'' else None)"

lemma submit_refused:
  "refuses ord x = Some why \<Longrightarrow> submit_order ord ts src x =
     push_event (reject_event ord why (ts + sc_ack_latency_ns (sx_config x)) src) x"
  by (auto simp: refuses_def submit_order_def Let_def split: if_splits)

lemma fill_events_config: "sx_config x = sx_config y \<Longrightarrow>
  fill_events x ord fill_ts src fls rem = fill_events y ord fill_ts src fls rem"
  by (induction fls arbitrary: rem) (simp_all add: Let_def taker_fill_event_def)

lemma submit_accepted:
  fixes ts :: u64
  assumes wf: "exchange_wf x" and acc: "refuses ord x = None"
  defines "m \<equiv> (case hm_get (sx_books x) (pair (ne_symbol ord)) of None \<Rightarrow> [] | Some b \<Rightarrow> contra (ne_side ord) b)"
    and "fill_ts \<equiv> ts + sc_fill_latency_ns (sx_config x)" and "ack_ts \<equiv> ts + sc_ack_latency_ns (sx_config x)"
  shows "\<exists>m' fills r. match_order m (ne_side ord) (ne_qty ord) (limit_price ord) = (m', fills, r) \<and>
    sx_pending (submit_order ord ts src x) = sx_pending x @
      sim_ack_event ord (sx_next_exchange_id x) ack_ts src # fill_events x ord fill_ts src fills (ne_qty ord) @
      ioc_cancel ord fill_ts src r \<and>
    sx_resting (submit_order ord ts src x) = (if rests ord r then
      hm_insert (ne_order_id ord) (rest_order ord r ts src) (sx_resting x) else sx_resting x) \<and>
    sx_books (submit_order ord ts src x) = (case hm_get (sx_books x) (pair (ne_symbol ord)) of
      None \<Rightarrow> sx_books x
    | Some b \<Rightarrow> hm_insert (pair (ne_symbol ord)) (set_contra (ne_side ord) m' b) (sx_books x)) \<and>
    sx_next_exchange_id (submit_order ord ts src x) = sx_next_exchange_id x + 1 \<and>
    sx_config (submit_order ord ts src x) = sx_config x"
proof -
  have conds: "\<not> (ne_time_in_force ord = FillOrKill \<and> fok_available ord x < ne_qty ord)"
      "\<not> (ne_order_type ord = Market \<and> \<not> has_liquidity ord x)"
    using acc by (auto simp: refuses_def split: if_splits)
  note fe = fill_events_config [of "push_event e (x\<lparr>sx_next_exchange_id := n\<rparr>)" x for e n, simplified]
  show ?thesis
  proof (cases "hm_get (sx_books x) (pair (ne_symbol ord))")
    case None
    have "match_order [] (ne_side ord) (ne_qty ord) (limit_price ord) = ([], [], ne_qty ord)"
      by (simp add: match_order_def bt_keys_def split: side.split)
    with None conds show ?thesis
      by (simp add: submit_order_def Let_def handle_remaining_fields m_def ack_ts_def fill_ts_def)
  next
    case (Some b)
    obtain m' fills r where mo: "match_order (contra (ne_side ord) b) (ne_side ord) (ne_qty ord) (limit_price ord) = (m', fills, r)"
      by (metis prod_cases3)
    with Some conds show ?thesis
      by (simp add: submit_order_def Let_def handle_remaining_fields m_def ack_ts_def fill_ts_def fe)
  qed
qed


lemma exchange_wf_submit [wf_intros]:
  assumes wf: "exchange_wf x"
  shows "exchange_wf (submit_order ord ts src x)"
proof (cases "refuses ord x")
  case (Some why)
  with wf show ?thesis by (simp add: submit_refused exchange_wf_push)
next
  case None
  let ?m = "case hm_get (sx_books x) (pair (ne_symbol ord)) of None \<Rightarrow> [] | Some b \<Rightarrow> contra (ne_side ord) b"
  obtain m' fills r where run: "match_order ?m (ne_side ord) (ne_qty ord) (limit_price ord) = (m', fills, r)"
    and res: "sx_resting (submit_order ord ts src x) = (if rests ord r then
      hm_insert (ne_order_id ord) (rest_order ord r ts src) (sx_resting x) else sx_resting x)"
    and books: "sx_books (submit_order ord ts src x) = (case hm_get (sx_books x) (pair (ne_symbol ord)) of
      None \<Rightarrow> sx_books x
    | Some b \<Rightarrow> hm_insert (pair (ne_symbol ord)) (set_contra (ne_side ord) m' b) (sx_books x))"
    using submit_accepted [OF wf None, of ts src] by blast
  have "side_wf ?m"
    using wf by (auto simp: exchange_wf_def sim_book_wf_contra side_wf_Nil split: option.split)
  note spec = match_order_spec(1,2) [OF this run]
  have "unat r \<le> unat (ne_qty ord)" using spec(2) by linarith
  then have "sim_order_wf (ne_order_id ord) (rest_order ord r ts src)" if "rests ord r"
    using that by (simp add: sim_order_wf_def rest_order_def rests_def word_le_nat_alt)
  with wf spec(1) show ?thesis
    by (auto simp: exchange_wf_def res books hm_get_insert sim_book_wf_set_contra split: option.split)
qed

subsection \<open>Resting orders\<close>

lemma can_cross_books: "sx_books x = sx_books y \<Longrightarrow> can_cross ord x = can_cross ord y"
  by (simp add: can_cross_def)

lemma maker_fill_config: "sx_config x = sx_config y \<Longrightarrow> maker_fill_event x ord = maker_fill_event y ord"
  by (simp add: maker_fill_event_def)

lemma check_fold:
  assumes "distinct ids"
  shows "sx_books (fold check_one ids x) = sx_books x \<and> sx_config (fold check_one ids x) = sx_config x \<and>
    hm_get (sx_resting (fold check_one ids x)) k = (case hm_get (sx_resting x) k of None \<Rightarrow> None
      | Some ord \<Rightarrow> if k \<in> set ids \<and> can_cross ord x then None else Some ord) \<and>
    sx_pending (fold check_one ids x) = sx_pending x @ concat (map (\<lambda>oid. case hm_get (sx_resting x) oid of
        None \<Rightarrow> [] | Some ord \<Rightarrow> if can_cross ord x then [maker_fill_event x ord] else []) ids) \<and>
    (hm_wf (sx_resting x) \<longrightarrow> hm_wf (sx_resting (fold check_one ids x)))"
  using assms
proof (induction ids arbitrary: x)
  case Nil
  show ?case by (simp split: option.split)
next
  case (Cons oid ids)
  let ?y = "check_one oid x"
  have y: "sx_books ?y = sx_books x" "sx_config ?y = sx_config x"
    by (simp_all add: check_one_def Let_def split: option.split)
  have cc: "can_cross ord ?y = can_cross ord x" for ord
    by (rule can_cross_books) (rule y)
  have mf: "maker_fill_event ?y ord = maker_fill_event x ord" for ord
    by (rule maker_fill_config) (rule y)
  have res: "hm_get (sx_resting ?y) j = (case hm_get (sx_resting x) j of None \<Rightarrow> None
      | Some ord \<Rightarrow> if j = oid \<and> can_cross ord x then None else Some ord)" for j
  proof (cases "hm_get (sx_resting x) oid")
    case None
    then show ?thesis by (simp add: check_one_def split: option.split)
  next
    case (Some ord)
    then show ?thesis
      by (cases "j = oid") (simp_all add: check_one_def Let_def hm_get_remove split: option.split)
  qed
  have pend: "sx_pending ?y = sx_pending x @ (case hm_get (sx_resting x) oid of
        None \<Rightarrow> [] | Some ord \<Rightarrow> if can_cross ord x then [maker_fill_event x ord] else [])"
    by (simp add: check_one_def Let_def split: option.split)
  have wf: "hm_wf (sx_resting x) \<longrightarrow> hm_wf (sx_resting ?y)"
    by (simp add: check_one_def Let_def split: option.split)
  have d: "distinct ids" and oid: "oid \<notin> set ids" using Cons.prems by auto
  have rest: "map (\<lambda>oid. case hm_get (sx_resting ?y) oid of None \<Rightarrow> []
        | Some ord \<Rightarrow> if can_cross ord ?y then [maker_fill_event ?y ord] else []) ids =
      map (\<lambda>oid. case hm_get (sx_resting x) oid of None \<Rightarrow> []
        | Some ord \<Rightarrow> if can_cross ord x then [maker_fill_event x ord] else []) ids"
    using oid by (intro map_cong refl) (auto simp: res cc mf split: option.splits)
  note ih = Cons.IH [OF d, of ?y, unfolded rest, unfolded y cc pend]
  have "(case hm_get (sx_resting ?y) k of None \<Rightarrow> None
      | Some ord \<Rightarrow> if k \<in> set ids \<and> can_cross ord x then None else Some ord) =
    (case hm_get (sx_resting x) k of None \<Rightarrow> None
      | Some ord \<Rightarrow> if k \<in> set (oid # ids) \<and> can_cross ord x then None else Some ord)"
    by (simp add: res split: option.split)
  with ih wf show ?case by simp
qed

definition resting_ids :: "string \<Rightarrow> exchange \<Rightarrow> string list" where
  "resting_ids key x = map fst (filter (\<lambda>e. pair (so_symbol (snd e)) = key) (sx_resting x))"

lemma check_resting_fold: "check_resting_orders key x = fold check_one (resting_ids key x) x"
  by (simp add: check_resting_orders_def resting_ids_def)

lemma resting_ids_distinct: "hm_wf (sx_resting x) \<Longrightarrow> distinct (resting_ids key x)"
  by (simp add: resting_ids_def hm_wf_def distinct_map_filter)

lemma resting_ids_iff:
  "hm_wf (sx_resting x) \<Longrightarrow> hm_get (sx_resting x) k = Some ord \<Longrightarrow>
    k \<in> set (resting_ids key x) \<longleftrightarrow> pair (so_symbol ord) = key"
  by (auto simp: resting_ids_def hm_get_in_set image_iff)
    (metis hm_get_in_set option.inject)

lemma exchange_wf_update [wf_intros]:
  assumes wf: "exchange_wf x"
  shows "exchange_wf (on_book_update smb bs as snap x)"
proof -
  let ?b = "case hm_get (sx_books x) (pair smb) of None \<Rightarrow> sim_book_new | Some b \<Rightarrow> b"
  let ?y = "x\<lparr>sx_books := hm_insert (pair smb) (apply_levels bs as snap ?b) (sx_books x)\<rparr>"
  have "sim_book_wf ?b"
    using wf by (auto simp: exchange_wf_def sim_book_new_def sim_book_wf_def side_wf_Nil split: option.split)
  then have y: "exchange_wf ?y"
    using wf by (auto simp: exchange_wf_def hm_get_insert intro: wf_intros)
  then have d: "distinct (resting_ids (pair smb) ?y)"
    by (simp add: exchange_wf_def resting_ids_distinct)
  show ?thesis
    using y check_fold [OF d, of ?y]
    by (auto simp: on_book_update_def Let_def check_resting_fold exchange_wf_def split: option.splits)
qed


subsection \<open>Fill-or-kill\<close>

lemma filled_at_sum: "distinct ps \<Longrightarrow> (\<Sum>p\<leftarrow>ps. filled_at p fills) \<le> total (map snd fills)"
proof (induction fills)
  case Nil
  then show ?case by (simp add: filled_at_def)
next
  case (Cons fl fills)
  obtain p f where fl: "fl = (p, f)" by fastforce
  have one: "(\<Sum>q\<leftarrow>ps. if p = q then unat f else 0) \<le> unat f"
    using Cons.prems by (induction ps) auto
  have "(\<Sum>q\<leftarrow>ps. filled_at q ((p, f) # fills)) =
      (\<Sum>q\<leftarrow>ps. if p = q then unat f else 0) + (\<Sum>q\<leftarrow>ps. filled_at q fills)"
    by (simp add: filled_at_Cons sum_list_addf)
  with one Cons.IH [OF Cons.prems] show ?case by (simp add: fl)
qed

lemma match_covers:
  assumes wf: "side_wf m" and run: "match_order m s q lim = (m', fills, r)"
    and enough: "unat q \<le> total (map snd (filter (\<lambda>e. crosses s lim (fst e)) m))"
  shows "r = 0"
proof (rule ccontr)
  assume r: "r \<noteq> 0"
  let ?es = "filter (\<lambda>e. crosses s lim (fst e)) m"
  have "unat (snd e) = filled_at (fst e) fills" if "e \<in> set ?es" for e
  proof -
    have "cell m (fst e) = unat (snd e)"
      using that bt.get_iff [OF side_wf_bt [OF wf], of "fst e" "snd e"] by (simp add: cell_def)
    moreover have "cell m' (fst e) = 0"
      using match_order_spec(7) [OF wf run r] that by (simp add: cell_def)
    ultimately show ?thesis using match_order_spec(3) [OF wf run, of "fst e"] by simp
  qed
  then have "total (map snd ?es) = (\<Sum>p\<leftarrow>map fst ?es. filled_at p fills)"
    unfolding map_map comp_def by (intro arg_cong [where f = sum_list] map_cong refl)
  also have "\<dots> \<le> total (map snd fills)"
    using bt_wf_distinct [OF side_wf_bt [OF wf]] by (intro filled_at_sum) (simp add: distinct_map_filter)
  finally have "unat q \<le> total (map snd fills)" using enough by simp
  moreover have "total (map snd fills) + unat r = unat q" by (rule match_order_spec(2) [OF wf run])
  moreover have "0 < unat r" using r by (simp add: unat_gt_0)
  ultimately show False by linarith
qed

subsection \<open>Properties\<close>

text \<open>C5: Matching an order against a well-formed side of the book keeps the side well-formed,
  conserves every price level (what was there is what is left plus what was filled), fills and
  rest add up to the quantity asked, no fill is empty or beyond the limit, fills come in price
  priority and only once every better level is exhausted, and an order is left incomplete only
  when the side has nothing left that its limit allows.\<close>

theorem match_order_correct:
  assumes "side_wf m" and "match_order m s q lim = (m', fills, r)"
  shows "side_wf m' \<and> total (map snd fills) + unat r = unat q \<and>
    (\<forall>p. cell m p = cell m' p + filled_at p fills) \<and>
    (\<forall>(p, f) \<in> set fills. crosses s lim p \<and> f \<noteq> 0) \<and> sorted_wrt (better s) (map fst fills) \<and>
    (\<forall>(p, f) \<in> set fills. \<forall>p'. better s p' p \<longrightarrow> bt_get m' p' = None) \<and>
    (r \<noteq> 0 \<longrightarrow> (\<forall>p. crosses s lim p \<longrightarrow> bt_get m' p = None))"
  using match_order_spec [OF assms] by force

lemma match_order_correct_witness:
  "match_order [(100, 5), (101, 5), (103, 9)] Buy 7 (Some 102) = ([(101, 3), (103, 9)], [(100, 5), (101, 2)], 0) \<and>
   total (map snd [(100 :: int, 5 :: u64), (101, 2)]) + unat (0 :: u64) = unat (7 :: u64)"
proof -
  have "side_wf [(100, 5), (101, 5), (103, 9)]" by (simp add: side_wf_def bt_wf_def)
  moreover have run: "match_order [(100, 5), (101, 5), (103, 9)] Buy 7 (Some 102) =
      ([(101, 3), (103, 9)], [(100, 5), (101, 2)], 0)"
    by (simp add: match_order_def bt_keys_def crosses_def bt_get_def bt_remove_def Let_def)
  ultimately show ?thesis using match_order_correct by blast
qed

text \<open>C15: Fill-or-kill is all or nothing: if the crossing side's depth fits in 64 bits, the
  order either gets a single reject event and changes nothing else, or an ack followed by
  fills for its whole quantity; nothing ever rests or expires.\<close>

theorem fok_all_or_nothing:
  assumes wf: "exchange_wf x" and "ne_time_in_force ord = FillOrKill"
    and depth: "\<And>b. hm_get (sx_books x) (pair (ne_symbol ord)) = Some b \<Longrightarrow>
      total (map snd (contra (ne_side ord) b)) < 2 ^ 64"
  shows "(\<exists>why ack_ts. submit_order ord ts src x = push_event (reject_event ord why ack_ts src) x) \<or>
    (\<exists>ack fills fill_ts. total (map snd fills) = unat (ne_qty ord) \<and>
      sx_pending (submit_order ord ts src x) = sx_pending x @ ack # fill_events x ord fill_ts src fills (ne_qty ord) \<and>
      ev_payload ack = OrderAck \<lparr>ae_order_id = ne_order_id ord,
        ae_exchange_order_id = ''SIM-'' @ show_u64 (sx_next_exchange_id x), ae_venue = Simulated\<rparr> \<and>
      sx_resting (submit_order ord ts src x) = sx_resting x)"
proof (cases "refuses ord x")
  case (Some why)
  then show ?thesis using submit_refused by blast
next
  case None
  let ?m = "case hm_get (sx_books x) (pair (ne_symbol ord)) of None \<Rightarrow> [] | Some b \<Rightarrow> contra (ne_side ord) b"
  let ?es = "filter (\<lambda>e. crosses (ne_side ord) (limit_price ord) (fst e)) ?m"
  have m: "side_wf ?m"
    using wf by (auto simp: exchange_wf_def sim_book_wf_contra side_wf_Nil split: option.split)
  obtain m' fills r where run: "match_order ?m (ne_side ord) (ne_qty ord) (limit_price ord) = (m', fills, r)"
    and out: "sx_pending (submit_order ord ts src x) = sx_pending x @
      sim_ack_event ord (sx_next_exchange_id x) (ts + sc_ack_latency_ns (sx_config x)) src #
      fill_events x ord (ts + sc_fill_latency_ns (sx_config x)) src fills (ne_qty ord) @
      ioc_cancel ord (ts + sc_fill_latency_ns (sx_config x)) src r"
      "sx_resting (submit_order ord ts src x) = (if rests ord r then
        hm_insert (ne_order_id ord) (rest_order ord r ts src) (sx_resting x) else sx_resting x)"
    using submit_accepted [OF wf None, of ts src] by blast
  have "total (map snd ?m) < 2 ^ 64"
    using depth by (auto split: option.split)
  moreover have "total (map snd ?es) \<le> total (map snd ?m)"
    by (rule total_filter_le)
  ultimately have "unat (u64_sum (map snd ?es)) = total (map snd ?es)"
    by (intro unat_u64_sum) linarith
  moreover have "\<not> fok_available ord x < ne_qty ord"
    using None assms(2) by (auto simp: refuses_def split: if_splits)
  moreover have "fok_available ord x = u64_sum (map snd ?es)"
    by (simp add: fok_available_def u64_sum_def split: option.split)
  ultimately have "unat (ne_qty ord) \<le> total (map snd ?es)"
    by (simp add: word_less_nat_alt)
  then have r: "r = 0" by (rule match_covers [OF m run])
  with match_order_spec(2) [OF m run] have "total (map snd fills) = unat (ne_qty ord)" by simp
  with out r show ?thesis
    by (auto simp: ioc_cancel_def rests_def sim_ack_event_def)
qed

lemma fok_all_or_nothing_witness:
  "let ord = \<lparr>ne_order_id = ''a'', ne_symbol = ex_sym, ne_side = Buy, ne_order_type = Limit, ne_price = 100,
       ne_qty = 5, ne_time_in_force = FillOrKill, ne_venue = Simulated\<rparr>;
     x = on_book_update ex_sym [] [\<lparr>lvl_price = 100, lvl_qty = 4\<rparr>] True (exchange_new simulator_default)
   in \<exists>why ack_ts. submit_order ord 0 [] x = push_event (reject_event ord why ack_ts []) x"
proof -
  let ?ord = "\<lparr>ne_order_id = ''a'', ne_symbol = ex_sym, ne_side = Buy, ne_order_type = Limit, ne_price = 100,
       ne_qty = 5, ne_time_in_force = FillOrKill, ne_venue = Simulated\<rparr>"
  let ?x = "on_book_update ex_sym [] [\<lparr>lvl_price = 100, lvl_qty = 4\<rparr>] True (exchange_new simulator_default)"
  have wf: "exchange_wf ?x" by (intro wf_intros)
  have book: "hm_get (sx_books ?x) (pair ex_sym) = Some \<lparr>sb_bids = [], sb_asks = [(100, 4)]\<rparr>"
    and no: "sx_pending (submit_order ?ord 0 [] ?x) = [reject_event ?ord ''fok_unfillable'' 1000000 []]"
    by (simp_all add: on_book_update_def exchange_new_def check_resting_orders_def hm_get_insert hm_get_def
        hm_insert_def sim_book_new_def apply_levels_def sim_level_def submit_order_def fok_available_def
        contra_def limit_price_def crosses_def u64_sum_def simulator_default_def Let_def)
  have d: "total (map snd (contra (ne_side ?ord) b)) < 2 ^ 64" if "hm_get (sx_books ?x) (pair (ne_symbol ?ord)) = Some b" for b
    using that book by (auto simp: contra_def)
  have pend: "sx_pending ?x = []"
    by (simp add: on_book_update_def exchange_new_def check_resting_orders_def hm_insert_def Let_def)
  from fok_all_or_nothing [OF wf _ d, of 0 "[]"] show ?thesis
    unfolding Let_def by (auto simp: no pend reject_event_def)
qed




text \<open> The order in which a book update fills several resting orders is the iteration order of
  the hash map: two exchanges that hold the same orders and books can emit the same fills in
  different orders, so the event stream is not a function of the inputs alone.\<close>

theorem resting_fills_follow_hash_order:
  "\<exists>x y. exchange_wf x \<and> exchange_wf y \<and> hm_eq (sx_resting x) (sx_resting y) \<and>
     sx_books x = sx_books y \<and> sx_pending x = sx_pending y \<and> sx_config x = sx_config y \<and>
     fst (drain_events 1 (on_book_update ex_sym [] [\<lparr>lvl_price = 99, lvl_qty = 4\<rparr>] True x)) \<noteq>
     fst (drain_events 1 (on_book_update ex_sym [] [\<lparr>lvl_price = 99, lvl_qty = 4\<rparr>] True y))"
proof -
  let ?o = "\<lambda>k. \<lparr>so_order_id = k, so_symbol = ex_sym, so_side = Buy, so_order_type = Limit, so_price = 100,
      so_qty = 1, so_remaining = 1, so_time_in_force = GoodTilCancel, so_submitted_at = 0, so_source = []\<rparr>"
  let ?x = "exchange_new simulator_default \<lparr>sx_resting := [(''a'', ?o ''a''), (''b'', ?o ''b'')]\<rparr>"
  let ?y = "exchange_new simulator_default \<lparr>sx_resting := [(''b'', ?o ''b''), (''a'', ?o ''a'')]\<rparr>"
  have "exchange_wf ?x" "exchange_wf ?y" "hm_eq (sx_resting ?x) (sx_resting ?y)"
    by (auto simp: exchange_wf_def exchange_new_def hm_wf_def hm_get_def sim_order_wf_def hm_eq_def)
  moreover have "fst (drain_events 1 (on_book_update ex_sym [] [\<lparr>lvl_price = 99, lvl_qty = 4\<rparr>] True ?x)) \<noteq>
     fst (drain_events 1 (on_book_update ex_sym [] [\<lparr>lvl_price = 99, lvl_qty = 4\<rparr>] True ?y))"
    by (simp add: drain_events_def on_book_update_def exchange_new_def check_resting_orders_def hm_get_def
        hm_insert_def hm_remove_def sim_book_new_def apply_levels_def sim_level_def check_one_def can_cross_def
        bt_first_def maker_fill_event_def event_new_def Let_def)
  ultimately show ?thesis
    by (intro exI [of _ ?x] exI [of _ ?y]) (simp add: exchange_new_def)
qed

lemma bt_remove_absent: "p \<notin> fst ` set m \<Longrightarrow> bt_remove p m = m"
  by (auto simp: bt_remove_def filter_id_conv rev_image_eqI)

lemma disjoint_insert_subset: "A \<subseteq> insert p B \<Longrightarrow> p \<notin> C \<Longrightarrow> B \<inter> C = {} \<Longrightarrow> A \<inter> C = {}"
  by blast

lemma snapshot_delta_agree:
  assumes "distinct (map lvl_price ls)" and "side_wf m" and "fst ` set m \<inter> lvl_price ` set ls = {}"
  shows "fold snapshot_level ls m = fold delta_level ls m"
  using assms
proof (induction ls arbitrary: m)
  case (Cons l ls)
  then have same: "snapshot_level l m = delta_level l m"
    by (auto simp: snapshot_level_def delta_level_def bt_remove_absent word_neq_0_conv)
  have "fst ` set (delta_level l m) \<subseteq> insert (lvl_price l) (fst ` set m)"
    using side_wf_bt [OF Cons.prems(2)] by (auto simp: delta_level_def set_bt_insert bt_remove_def)
  moreover have "lvl_price l \<notin> lvl_price ` set ls" "fst ` set m \<inter> lvl_price ` set ls = {}"
    using Cons.prems(1,3) by auto
  ultimately have "fst ` set (delta_level l m) \<inter> lvl_price ` set ls = {}"
    by (rule disjoint_insert_subset)
  with Cons.IH [OF _ side_wf_delta_level [OF Cons.prems(2)]] Cons.prems(1) same show ?case by simp
qed simp

text \<open> \<open>SimBook\<close> and \<open>OrderBook\<close> agree: a delta changes their sides alike, and so does a
  snapshot that names no price twice on a side.\<close>

theorem sim_book_is_order_book:
  assumes "sb_bids sb = ob_bids b" and "sb_asks sb = ob_asks b"
    and "snap \<longrightarrow> distinct (map lvl_price bids) \<and> distinct (map lvl_price asks)"
  shows "let sb' = apply_levels bids asks snap sb;
      b' = (if snap then apply_snapshot bids asks seq ts b else apply_delta bids asks seq ts b)
    in sb_bids sb' = ob_bids b' \<and> sb_asks sb' = ob_asks b'"
  using assms snapshot_delta_agree [OF _ side_wf_Nil]
  by (simp add: Let_def apply_levels_def apply_snapshot_def apply_delta_def sim_level_delta)

lemma sim_book_is_order_book_witness:
  "let sb' = apply_levels [\<lparr>lvl_price = 3, lvl_qty = 1\<rparr>] [] True sim_book_new;
      b' = apply_snapshot [\<lparr>lvl_price = 3, lvl_qty = 1\<rparr>] [] 1 1 (book_new ex_sym)
    in sb_bids sb' = ob_bids b' \<and> sb_asks sb' = ob_asks b'"
  using sim_book_is_order_book [of sim_book_new "book_new ex_sym" True "[\<lparr>lvl_price = 3, lvl_qty = 1\<rparr>]" "[]" 1 1]
  by (simp add: sim_book_new_def book_new_def)

end
