(* ===== verification/Risk.thy ===== *)
theory Risk
  imports Core_Types
begin

section \<open>atomic-risk: limits, kill switch, circuit breaker (limits.rs)\<close>

text \<open>
  \<open>RiskEngine\<close>: every check of \<open>check_order\<close> in its order, with its error, and the
  updates of the counters. Logging is left out. The kill switch and the circuit breaker share
  a contract, the locale \<open>latch\<close>: once engaged they stay so until one particular operation.
\<close>

record risk_limits =
  rl_max_position_qty :: u64
  rl_max_notional :: i64
  rl_max_total_notional :: i64
  rl_max_order_qty :: u64
  rl_max_open_orders :: usize
  rl_max_loss :: i64
  rl_max_orders_per_second :: u32
  rl_max_spread :: i64
  rl_max_consecutive_losses :: u32
  rl_max_drawdown_bps :: u32

definition limits_default :: risk_limits where
  "limits_default = \<lparr>rl_max_position_qty = 1000000000, rl_max_notional = 500000000000,
     rl_max_total_notional = 1000000000000, rl_max_order_qty = 100000000, rl_max_open_orders = 100,
     rl_max_loss = -10000000000, rl_max_orders_per_second = 50, rl_max_spread = 5000,
     rl_max_consecutive_losses = 5, rl_max_drawdown_bps = 200\<rparr>"

record risk_engine =
  rk_limits :: risk_limits
  rk_kill_switch :: bool
  rk_open_order_count :: usize
  rk_total_pnl :: i64
  rk_order_timestamps :: "u64 list"
  rk_current_spread :: i64
  rk_consecutive_losses :: u32
  rk_circuit_breaker :: bool
  rk_peak_pnl :: i64

definition risk_new :: "risk_limits \<Rightarrow> risk_engine" where
  "risk_new l = \<lparr>rk_limits = l, rk_kill_switch = False, rk_open_order_count = 0, rk_total_pnl = 0,
     rk_order_timestamps = [], rk_current_spread = 0, rk_consecutive_losses = 0,
     rk_circuit_breaker = False, rk_peak_pnl = 0\<rparr>"

definition is_killed :: "risk_engine \<Rightarrow> bool" where
  "is_killed r \<longleftrightarrow> rk_kill_switch r"

definition activate_kill_switch :: "risk_engine \<Rightarrow> risk_engine" where
  "activate_kill_switch r = r\<lparr>rk_kill_switch := True\<rparr>"

definition reset_kill_switch :: "risk_engine \<Rightarrow> risk_engine" where
  "reset_kill_switch r = r\<lparr>rk_kill_switch := False\<rparr>"

text \<open>The UTF-8 bytes of the dash in the message of the spread gate.\<close>

definition em_dash :: string where
  "em_dash = [CHR 0xE2, CHR 0x80, CHR 0x94]"

definition resulting_qty :: "side \<Rightarrow> qty \<Rightarrow> position \<Rightarrow> qty" where
  "resulting_qty s q pos =
     (if pos_side pos = s then pos_qty pos + q
      else if pos_qty pos < q then q - pos_qty pos
      else pos_qty pos - q)"

definition proposed_notional :: "side \<Rightarrow> qty \<Rightarrow> price \<Rightarrow> position \<Rightarrow> i64" where
  "proposed_notional s q p pos = i64_mul (u64_as_i64 (resulting_qty s q pos)) p"

text \<open>The block guarded by \<open>if let Some(pos) = position\<close>.\<close>

definition position_checks :: "risk_limits \<Rightarrow> side \<Rightarrow> qty \<Rightarrow> price \<Rightarrow> position option \<Rightarrow> (unit, atomic_error) result" where
  "position_checks l s q p mpos = (case mpos of
     None \<Rightarrow> Inr ()
   | Some pos \<Rightarrow>
       let new_qty = resulting_qty s q pos; notional = proposed_notional s q p pos in
       if rl_max_position_qty l < new_qty
       then Inl (RiskLimitExceeded (''resulting position '' @ show_u64 new_qty @ '' exceeds max '' @ show_u64 (rl_max_position_qty l)))
       else if rl_max_notional l < notional
       then Inl (RiskLimitExceeded (''notional '' @ show_i64 notional @ '' exceeds max '' @ show_i64 (rl_max_notional l)))
       else if rl_max_total_notional l < notional
       then Inl (RiskLimitExceeded (''total notional '' @ show_i64 notional @ '' exceeds aggregate max '' @ show_i64 (rl_max_total_notional l)))
       else Inr ())"

definition check_order ::
  "side \<Rightarrow> qty \<Rightarrow> price \<Rightarrow> position option \<Rightarrow> u64 \<Rightarrow> risk_engine \<Rightarrow> (unit, atomic_error) result \<times> risk_engine" where
  "check_order s q p mpos current_ts r =
     (let l = rk_limits r in
      if is_killed r then (Inl (KillSwitch ''kill switch is active''), r)
      else if rk_circuit_breaker r
      then (Inl (RiskLimitExceeded ''circuit breaker active (consecutive losses or drawdown)''), r)
      else if 0 < rl_max_spread l \<and> rl_max_spread l < rk_current_spread r
      then (Inl (RiskLimitExceeded (''spread '' @ show_i64 (rk_current_spread r) @ '' exceeds max '' @
             show_i64 (rl_max_spread l) @ '' '' @ em_dash @ '' skipping quote'')), r)
      else if rl_max_order_qty l < q
      then (Inl (RiskLimitExceeded (''order qty '' @ show_u64 q @ '' exceeds max '' @ show_u64 (rl_max_order_qty l))), r)
      else case position_checks l s q p mpos of
        Inl e \<Rightarrow> (Inl e, r)
      | Inr _ \<Rightarrow>
        if rl_max_open_orders l \<le> rk_open_order_count r
        then (Inl (RiskLimitExceeded (''open orders '' @ show_u64 (rk_open_order_count r) @ '' exceeds max '' @ show_u64 (rl_max_open_orders l))), r)
        else
          (let kept = filter (\<lambda>ts. current_ts - ts < 1000000000) (rk_order_timestamps r);
               r = r\<lparr>rk_order_timestamps := kept\<rparr>
           in if unat (rl_max_orders_per_second l) \<le> length kept
              then (Inl (RiskLimitExceeded ''order rate limit exceeded''), r)
              else if rk_total_pnl r < rl_max_loss l
              then (Inl (KillSwitch ''max loss exceeded''), activate_kill_switch r)
              else (Inr (), r\<lparr>rk_order_timestamps := kept @ [current_ts]\<rparr>)))"

definition on_order_opened :: "risk_engine \<Rightarrow> risk_engine" where
  "on_order_opened r = r\<lparr>rk_open_order_count := rk_open_order_count r + 1\<rparr>"

definition on_order_closed :: "risk_engine \<Rightarrow> risk_engine" where
  "on_order_closed r = r\<lparr>rk_open_order_count := u64_saturating_sub (rk_open_order_count r) 1\<rparr>"

definition drawdown_breached :: "risk_limits \<Rightarrow> i64 \<Rightarrow> i64 \<Rightarrow> bool" where
  "drawdown_breached l peak pnl \<longleftrightarrow>
     0 < rl_max_drawdown_bps l \<and> 0 < peak \<and>
     i64_mul peak (int (unat (rl_max_drawdown_bps l))) < i64_mul (i64_sub peak pnl) 10000"

definition update_pnl :: "i64 \<Rightarrow> risk_engine \<Rightarrow> risk_engine" where
  "update_pnl delta r =
     (let pnl = i64_add (rk_total_pnl r) delta;
          peak = (if rk_peak_pnl r < pnl then pnl else rk_peak_pnl r);
          r = r\<lparr>rk_total_pnl := pnl, rk_peak_pnl := peak\<rparr>
      in if drawdown_breached (rk_limits r) peak pnl then r\<lparr>rk_circuit_breaker := True\<rparr> else r)"

definition record_win :: "risk_engine \<Rightarrow> risk_engine" where
  "record_win r = r\<lparr>rk_consecutive_losses := 0\<rparr>"

definition record_loss :: "risk_engine \<Rightarrow> risk_engine" where
  "record_loss r =
     (let n = rk_consecutive_losses r + 1; r = r\<lparr>rk_consecutive_losses := n\<rparr> in
      if 0 < rl_max_consecutive_losses (rk_limits r) \<and> rl_max_consecutive_losses (rk_limits r) \<le> n
      then r\<lparr>rk_circuit_breaker := True\<rparr> else r)"

definition update_spread :: "i64 \<Rightarrow> risk_engine \<Rightarrow> risk_engine" where
  "update_spread s r = r\<lparr>rk_current_spread := s\<rparr>"

definition daily_reset :: "risk_engine \<Rightarrow> risk_engine" where
  "daily_reset r = r\<lparr>rk_circuit_breaker := False, rk_consecutive_losses := 0, rk_peak_pnl := 0, rk_total_pnl := 0\<rparr>"

subsection \<open>Operations and latches\<close>

datatype risk_op = CheckOrder side qty price "position option" u64 | OrderOpened | OrderClosed | UpdatePnl i64
  | RecordWin | RecordLoss | UpdateSpread i64 | DailyReset | ActivateKill | ResetKill

fun risk_step :: "risk_engine \<Rightarrow> risk_op \<Rightarrow> (unit, atomic_error) result \<times> risk_engine" where
  "risk_step r (CheckOrder s q p pos ts) = check_order s q p pos ts r"
| "risk_step r OrderOpened = (Inr (), on_order_opened r)"
| "risk_step r OrderClosed = (Inr (), on_order_closed r)"
| "risk_step r (UpdatePnl d) = (Inr (), update_pnl d r)"
| "risk_step r RecordWin = (Inr (), record_win r)"
| "risk_step r RecordLoss = (Inr (), record_loss r)"
| "risk_step r (UpdateSpread s) = (Inr (), update_spread s r)"
| "risk_step r DailyReset = (Inr (), daily_reset r)"
| "risk_step r ActivateKill = (Inr (), activate_kill_switch r)"
| "risk_step r ResetKill = (Inr (), reset_kill_switch r)"

locale latch =
  fixes step :: "'s \<Rightarrow> 'op \<Rightarrow> 'v \<times> 's"
    and engaged :: "'s \<Rightarrow> bool"
    and release :: 'op
    and guarded :: "'op \<Rightarrow> bool"
    and refused :: "'v \<Rightarrow> bool"
  assumes stays: "engaged s \<Longrightarrow> op \<noteq> release \<Longrightarrow> engaged (snd (step s op))"
    and blocks: "engaged s \<Longrightarrow> guarded op \<Longrightarrow> refused (fst (step s op))"
begin

lemma engaged_run:
  assumes "engaged s" and "release \<notin> set ops"
  shows "engaged (snd (run_ops step s ops)) \<and>
    (\<forall>i < length ops. guarded (ops ! i) \<longrightarrow> refused (fst (run_ops step s ops) ! i))"
  using assms
proof (induction ops arbitrary: s)
  case (Cons op ops)
  obtain v s1 where st: "step s op = (v, s1)" by fastforce
  obtain vs s2 where run: "run_ops step s1 ops = (vs, s2)" by fastforce
  have "engaged s1" using stays [OF Cons.prems(1), of op] Cons.prems(2) st by auto
  with Cons.IH [of s1] Cons.prems(2) run have "engaged s2"
      "\<forall>i < length ops. guarded (ops ! i) \<longrightarrow> refused (vs ! i)" by auto
  moreover have "guarded op \<longrightarrow> refused v" using blocks [OF Cons.prems(1), of op] st by simp
  ultimately show ?case using st run by (auto simp: nth_Cons split: nat.split)
qed simp

end

definition is_check :: "risk_op \<Rightarrow> bool" where
  "is_check op = (case op of CheckOrder _ _ _ _ _ \<Rightarrow> True | _ \<Rightarrow> False)"

lemma check_order_frame [frame_simps]:
  assumes "check_order s q p pos ts r = (res, r')"
  shows "rk_limits r' = rk_limits r" "rk_open_order_count r' = rk_open_order_count r"
    "rk_total_pnl r' = rk_total_pnl r" "rk_circuit_breaker r' = rk_circuit_breaker r"
    "rk_peak_pnl r' = rk_peak_pnl r" "rk_consecutive_losses r' = rk_consecutive_losses r"
    "rk_current_spread r' = rk_current_spread r" "rk_kill_switch r \<longrightarrow> rk_kill_switch r'"
  using assms
  by (auto simp: check_order_def Let_def activate_kill_switch_def is_killed_def split: if_splits sum.splits)

lemma check_order_frame_snd:
  "rk_limits (snd (check_order s q p pos ts r)) = rk_limits r"
  "rk_circuit_breaker (snd (check_order s q p pos ts r)) = rk_circuit_breaker r"
  "rk_kill_switch r \<Longrightarrow> rk_kill_switch (snd (check_order s q p pos ts r))"
proof -
  have "check_order s q p pos ts r = (fst (check_order s q p pos ts r), snd (check_order s q p pos ts r))"
    by simp
  note frame = check_order_frame [OF this]
  show "rk_limits (snd (check_order s q p pos ts r)) = rk_limits r" by (rule frame)
  show "rk_circuit_breaker (snd (check_order s q p pos ts r)) = rk_circuit_breaker r" by (rule frame)
  show "rk_kill_switch (snd (check_order s q p pos ts r))" if "rk_kill_switch r"
    using frame(8) that by blast
qed

lemmas risk_ops = on_order_opened_def on_order_closed_def update_pnl_def record_win_def record_loss_def
  update_spread_def daily_reset_def activate_kill_switch_def reset_kill_switch_def Let_def

interpretation kill: latch risk_step is_killed ResetKill is_check "\<lambda>v. v = Inl (KillSwitch ''kill switch is active'')"
proof unfold_locales
  show "is_killed (snd (risk_step r op))" if "is_killed r" "op \<noteq> ResetKill" for r op
    using that check_order_frame_snd(3) by (cases op) (auto simp: risk_ops is_killed_def)
  show "fst (risk_step r op) = Inl (KillSwitch ''kill switch is active'')" if "is_killed r" "is_check op" for r op
    using that by (cases op) (auto simp: is_check_def check_order_def Let_def)
qed

interpretation breaker: latch risk_step rk_circuit_breaker DailyReset is_check "\<lambda>v. \<not> is_ok v"
proof unfold_locales
  show "rk_circuit_breaker (snd (risk_step r op))" if "rk_circuit_breaker r" "op \<noteq> DailyReset" for r op
    using that check_order_frame_snd(2) by (cases op) (auto simp: risk_ops)
  show "\<not> is_ok (fst (risk_step r op))" if "rk_circuit_breaker r" "is_check op" for r op
    using that by (cases op) (auto simp: is_check_def check_order_def Let_def)
qed


subsection \<open>The rate limit over a run\<close>

text \<open>The timestamps of the orders a run accepts, oldest first.\<close>

fun accepted_at :: "risk_engine \<Rightarrow> risk_op list \<Rightarrow> u64 list" where
  "accepted_at r [] = []"
| "accepted_at r (op # ops) =
     (case (op, fst (risk_step r op)) of
        (CheckOrder _ _ _ _ ts, Inr _) \<Rightarrow> [ts]
      | _ \<Rightarrow> []) @ accepted_at (snd (risk_step r op)) ops"

fun check_times :: "risk_op list \<Rightarrow> u64 list" where
  "check_times [] = []"
| "check_times (CheckOrder _ _ _ _ ts # ops) = ts # check_times ops"
| "check_times (_ # ops) = check_times ops"

definition in_window :: "nat \<Rightarrow> u64 \<Rightarrow> bool" where
  "in_window t ts \<longleftrightarrow> t \<le> unat ts \<and> unat ts < t + 1000000000"

abbreviation count_in :: "nat \<Rightarrow> u64 list \<Rightarrow> nat" where
  "count_in t tss \<equiv> length (filter (in_window t) tss)"

text \<open>
  \<open>rate_inv r acc now\<close>: \<open>acc\<close> are the accepted times so far, none later than \<open>now\<close>; the
  engine holds those that were less than a second old at some earlier moment \<open>mark\<close>.
\<close>

definition rate_inv :: "risk_engine \<Rightarrow> u64 list \<Rightarrow> nat \<Rightarrow> bool" where
  "rate_inv r acc now \<longleftrightarrow>
     (\<exists>mark \<le> now. rk_order_timestamps r = filter (\<lambda>ts. mark < unat ts + 1000000000) acc) \<and>
     (\<forall>ts \<in> set acc. unat ts \<le> now) \<and>
     (\<forall>t. count_in t acc \<le> unat (rl_max_orders_per_second (rk_limits r)))"

lemma rate_inv_later: "rate_inv r acc now \<Longrightarrow> now \<le> now' \<Longrightarrow> rate_inv r acc now'"
  unfolding rate_inv_def by (meson order_trans)

lemma retain_filter:
  fixes acc :: "u64 list"
  assumes "\<forall>ts \<in> set acc. unat ts \<le> unat cur" and "mark \<le> unat cur"
  shows "filter (\<lambda>ts. cur - ts < 1000000000) (filter (\<lambda>ts. mark < unat ts + 1000000000) acc) =
    filter (\<lambda>ts. unat cur < unat ts + 1000000000) acc"
proof -
  have "cur - ts < 1000000000 \<and> mark < unat ts + 1000000000 \<longleftrightarrow> unat cur < unat ts + 1000000000"
    if "ts \<in> set acc" for ts
  proof -
    have "unat (cur - ts) = unat cur - unat ts"
      using assms(1) that by (intro unat_sub) (simp add: word_le_nat_alt)
    with assms that show ?thesis by (auto simp: word_less_nat_alt)
  qed
  then show ?thesis by (simp add: conj_commute cong: filter_cong)
qed

lemma window_bound:
  fixes acc :: "u64 list"
  assumes room: "length (filter (\<lambda>ts. unat cur < unat ts + 1000000000) acc) < n"
    and old: "\<forall>t. count_in t acc \<le> n" and le: "\<forall>ts \<in> set acc. unat ts \<le> unat cur"
  shows "count_in t (acc @ [cur]) \<le> n"
proof (cases "in_window t cur")
  case True
  have "filter (in_window t) acc = filter (in_window t) (filter (\<lambda>ts. unat cur < unat ts + 1000000000) acc)"
    using True by (auto simp: in_window_def intro!: filter_cong)
  then have "count_in t acc \<le> length (filter (\<lambda>ts. unat cur < unat ts + 1000000000) acc)"
    by (metis length_filter_le)
  with room True show ?thesis by simp
qed (use old in simp)

lemma rate_inv_check:
  assumes inv: "rate_inv r acc now" and "now \<le> unat cur" and run: "check_order s q p pos cur r = (res, r')"
  shows "rate_inv r' (acc @ (case res of Inl _ \<Rightarrow> [] | Inr _ \<Rightarrow> [cur])) (unat cur)"
proof -
  let ?kept = "filter (\<lambda>ts. cur - ts < 1000000000) (rk_order_timestamps r)"
  let ?fresh = "filter (\<lambda>ts. unat cur < unat ts + 1000000000) acc"
  obtain mark where mark: "mark \<le> now" "rk_order_timestamps r = filter (\<lambda>ts. mark < unat ts + 1000000000) acc"
    and le: "\<forall>ts \<in> set acc. unat ts \<le> unat cur"
    using inv assms(2) by (auto simp: rate_inv_def intro: order_trans)
  have kept: "?kept = ?fresh"
    using retain_filter [OF le, of mark] mark assms(2) by simp
  have lim: "rk_limits r' = rk_limits r" using check_order_frame(1) [OF run] .
  consider (early) "r' = r" "\<not> is_ok res" | (late) "rk_order_timestamps r' = ?kept" "\<not> is_ok res"
    | (ok) "rk_order_timestamps r' = ?kept @ [cur]" "res = Inr ()"
        "length ?kept < unat (rl_max_orders_per_second (rk_limits r))"
  proof (cases "position_checks (rk_limits r) s q p pos")
    case (Inl e)
    then have "r' = r \<and> \<not> is_ok res"
      using run by (auto simp: check_order_def Let_def split: if_splits dest: sym)
    then show ?thesis using early by blast
  next
    case (Inr u)
    then show ?thesis
      using run early late ok by (auto simp: check_order_def Let_def activate_kill_switch_def split: if_splits)
  qed
  then show ?thesis
  proof cases
    case early
    with rate_inv_later [OF inv assms(2)] show ?thesis by (auto split: sum.split)
  next
    case late
    then show ?thesis
      using inv kept le lim by (auto simp: rate_inv_def split: sum.split)
  next
    case ok
    have "count_in t (acc @ [cur]) \<le> unat (rl_max_orders_per_second (rk_limits r))" for t
      by (rule window_bound) (use ok(3) kept inv le in \<open>auto simp: rate_inv_def\<close>)
    moreover have "rk_order_timestamps r' = filter (\<lambda>ts. unat cur < unat ts + 1000000000) (acc @ [cur])"
      using ok(1) kept by simp
    ultimately show ?thesis
      using ok(2) le lim unfolding rate_inv_def by auto
  qed
qed

lemma rate_inv_other: "rate_inv r acc now \<Longrightarrow> \<not> is_check op \<Longrightarrow> rate_inv (snd (risk_step r op)) acc now"
  by (cases op) (auto simp: is_check_def rate_inv_def risk_ops)

lemma rate_run:
  assumes "rate_inv r acc now" and "sorted (map unat (check_times ops))"
    and "\<forall>ts \<in> set (check_times ops). now \<le> unat ts"
  shows "\<forall>t. count_in t (acc @ accepted_at r ops) \<le> unat (rl_max_orders_per_second (rk_limits r))"
  using assms
proof (induction ops arbitrary: r acc now)
  case Nil
  then show ?case by (simp add: rate_inv_def)
next
  case (Cons op ops)
  obtain res r' where st: "risk_step r op = (res, r')" by fastforce
  show ?case
  proof (cases "is_check op")
    case True
    then obtain s q p pos cur where op: "op = CheckOrder s q p pos cur"
      by (auto simp: is_check_def split: risk_op.splits)
    have run: "check_order s q p pos cur r = (res, r')" using st op by simp
    have "rate_inv r' (acc @ (case res of Inl _ \<Rightarrow> [] | Inr _ \<Rightarrow> [cur])) (unat cur)"
      using Cons.prems op by (intro rate_inv_check [OF _ _ run]) auto
    from Cons.IH [OF this] Cons.prems op check_order_frame(1) [OF run] run show ?thesis
      by (auto split: sum.splits)
  next
    case False
    have inv: "rate_inv r' acc now" using rate_inv_other [OF Cons.prems(1) False] st by simp
    have "check_times (op # ops) = check_times ops" "rk_limits r' = rk_limits r"
      using False st by (cases op; auto simp: is_check_def risk_ops)+
    moreover have "accepted_at r (op # ops) = accepted_at r' ops"
      using False st by (cases op) (auto simp: is_check_def)
    ultimately show ?thesis using Cons.IH [OF inv] Cons.prems by simp
  qed
qed


subsection \<open>What an accepted order satisfies\<close>

text \<open>The conditions of \<open>check_order\<close>, without its order of evaluation and its messages.\<close>

definition within_position_limits :: "risk_limits \<Rightarrow> side \<Rightarrow> qty \<Rightarrow> price \<Rightarrow> position option \<Rightarrow> bool" where
  "within_position_limits l s q p mpos \<longleftrightarrow> (case mpos of
     None \<Rightarrow> True
   | Some pos \<Rightarrow> resulting_qty s q pos \<le> rl_max_position_qty l \<and>
       proposed_notional s q p pos \<le> rl_max_notional l \<and> proposed_notional s q p pos \<le> rl_max_total_notional l)"

definition admissible :: "side \<Rightarrow> qty \<Rightarrow> price \<Rightarrow> position option \<Rightarrow> u64 \<Rightarrow> risk_engine \<Rightarrow> bool" where
  "admissible s q p mpos ts r \<longleftrightarrow> (let l = rk_limits r in
     \<not> rk_kill_switch r \<and> \<not> rk_circuit_breaker r \<and>
     (rl_max_spread l \<le> 0 \<or> rk_current_spread r \<le> rl_max_spread l) \<and>
     q \<le> rl_max_order_qty l \<and> within_position_limits l s q p mpos \<and>
     rk_open_order_count r < rl_max_open_orders l \<and>
     length (filter (\<lambda>t. ts - t < 1000000000) (rk_order_timestamps r)) < unat (rl_max_orders_per_second l) \<and>
     rl_max_loss l \<le> rk_total_pnl r)"

lemma position_checks_ok: "is_ok (position_checks l s q p mpos) \<longleftrightarrow> within_position_limits l s q p mpos"
  by (auto simp: position_checks_def within_position_limits_def Let_def split: option.split)

lemma check_order_ok: "is_ok (fst (check_order s q p mpos ts r)) \<longleftrightarrow> admissible s q p mpos ts r"
proof (cases "position_checks (rk_limits r) s q p mpos")
  case (Inl e)
  then have "\<not> within_position_limits (rk_limits r) s q p mpos"
    using position_checks_ok [of "rk_limits r" s q p mpos] by simp
  with Inl show ?thesis by (simp add: check_order_def admissible_def Let_def)
next
  case (Inr u)
  then have "within_position_limits (rk_limits r) s q p mpos"
    using position_checks_ok [of "rk_limits r" s q p mpos] by simp
  with Inr show ?thesis
    by (auto simp: check_order_def admissible_def is_killed_def Let_def not_less not_le)
qed

text \<open>A position as a signed quantity: long positive, short negative.\<close>

definition signed_qty :: "side \<Rightarrow> qty \<Rightarrow> int" where
  "signed_qty s q = (case s of Buy \<Rightarrow> int (unat q) | Sell \<Rightarrow> - int (unat q))"

lemma resulting_qty_signed:
  assumes "unat (pos_qty pos) + unat q < 2 ^ 64"
  shows "int (unat (resulting_qty s q pos)) = \<bar>signed_qty (pos_side pos) (pos_qty pos) + signed_qty s q\<bar>"
proof -
  have "unat (pos_qty pos + q) = unat (pos_qty pos) + unat q"
    using assms by (simp add: unat_word_ariths)
  moreover have "pos_qty pos < q \<Longrightarrow> unat (q - pos_qty pos) = unat q - unat (pos_qty pos)"
    by (intro unat_sub) simp
  moreover have "\<not> pos_qty pos < q \<Longrightarrow> unat (pos_qty pos - q) = unat (pos_qty pos) - unat q"
    by (intro unat_sub) simp
  ultimately show ?thesis
    by (cases s; cases "pos_side pos") (auto simp: resulting_qty_def signed_qty_def word_less_nat_alt of_nat_diff)
qed

subsection \<open>Properties\<close>

text \<open>C6: \<open>check_order\<close> accepts an order exactly when every limit holds; an accepted order adds
  its timestamp and changes nothing else; the kill switch is raised exactly by the max-loss
  refusal, which no other branch can produce.\<close>

theorem check_order_exact:
  "(is_ok (fst (check_order s q p mpos ts r)) \<longleftrightarrow> admissible s q p mpos ts r) \<and>
   (admissible s q p mpos ts r \<longrightarrow> snd (check_order s q p mpos ts r) =
      r\<lparr>rk_order_timestamps := filter (\<lambda>t. ts - t < 1000000000) (rk_order_timestamps r) @ [ts]\<rparr>) \<and>
   (rk_kill_switch (snd (check_order s q p mpos ts r)) \<longleftrightarrow>
      rk_kill_switch r \<or> fst (check_order s q p mpos ts r) = Inl (KillSwitch ''max loss exceeded''))"
proof (intro conjI impI)
  show "is_ok (fst (check_order s q p mpos ts r)) \<longleftrightarrow> admissible s q p mpos ts r" by (rule check_order_ok)
  show "snd (check_order s q p mpos ts r) =
      r\<lparr>rk_order_timestamps := filter (\<lambda>t. ts - t < 1000000000) (rk_order_timestamps r) @ [ts]\<rparr>"
    if "admissible s q p mpos ts r"
    using that position_checks_ok [of "rk_limits r" s q p mpos]
    by (cases "position_checks (rk_limits r) s q p mpos")
      (auto simp: check_order_def admissible_def is_killed_def Let_def)
  have "position_checks l s q p mpos \<noteq> Inl (KillSwitch w)" for l w
    by (simp add: position_checks_def Let_def split: option.split)
  then show "rk_kill_switch (snd (check_order s q p mpos ts r)) \<longleftrightarrow>
      rk_kill_switch r \<or> fst (check_order s q p mpos ts r) = Inl (KillSwitch ''max loss exceeded'')"
    by (auto simp: check_order_def is_killed_def activate_kill_switch_def Let_def split: sum.split)
qed

lemma check_order_exact_witness:
  "is_ok (fst (check_order Buy 5 100 None 7 (risk_new limits_default))) \<and>
   snd (check_order Buy 5 100 None 7 (risk_new limits_default)) =
     (risk_new limits_default)\<lparr>rk_order_timestamps := [7]\<rparr>"
proof -
  have "admissible Buy 5 100 None 7 (risk_new limits_default)"
    by (simp add: admissible_def within_position_limits_def risk_new_def limits_default_def)
  with check_order_exact [of Buy 5 100 None 7 "risk_new limits_default"] show ?thesis
    by (simp add: risk_new_def)
qed

text \<open>C19: If an order is accepted against a known position and the quantities do not overflow, then
  filling it completely leaves a position, long or short, within the position limit, whose
  notional at the order's price is within both notional limits.\<close>

theorem accepted_position_bounded:
  assumes "is_ok (fst (check_order s q p (Some pos) ts r))"
    and "unat (pos_qty pos) + unat q < 2 ^ 63"
    and "in_i64 (\<bar>signed_qty (pos_side pos) (pos_qty pos) + signed_qty s q\<bar> * p)"
  shows "\<bar>signed_qty (pos_side pos) (pos_qty pos) + signed_qty s q\<bar> \<le> int (unat (rl_max_position_qty (rk_limits r))) \<and>
    \<bar>signed_qty (pos_side pos) (pos_qty pos) + signed_qty s q\<bar> * p \<le>
      min (rl_max_notional (rk_limits r)) (rl_max_total_notional (rk_limits r))"
proof -
  let ?n = "resulting_qty s q pos" and ?abs = "\<bar>signed_qty (pos_side pos) (pos_qty pos) + signed_qty s q\<bar>"
  have n: "int (unat ?n) = ?abs"
    by (rule resulting_qty_signed) (use assms(2) in simp)
  have "?abs \<le> int (unat (pos_qty pos)) + int (unat q)"
    by (cases s; cases "pos_side pos") (simp_all add: signed_qty_def)
  with n assms(2) have "unat ?n < 2 ^ 63" by linarith
  then have "proposed_notional s q p pos = ?abs * p"
    using assms(3) n by (simp add: proposed_notional_def u64_as_i64_small i64_mul_exact)
  moreover have "admissible s q p (Some pos) ts r" using assms(1) by (simp add: check_order_ok)
  ultimately show ?thesis
    using n by (auto simp: admissible_def within_position_limits_def Let_def word_le_nat_alt)
qed

lemma accepted_position_bounded_witness:
  "let pos = (position_flat \<lparr>sym_base = ''B'', sym_quote = ''Q'', sym_venue = OKX\<rparr>)\<lparr>pos_qty := 3\<rparr> in
   is_ok (fst (check_order Sell 5 100 (Some pos) 7 (risk_new limits_default))) \<and>
   \<bar>signed_qty Buy 3 + signed_qty Sell 5\<bar> \<le> int (unat (1000000000 :: u64))"
proof -
  let ?pos = "(position_flat \<lparr>sym_base = ''B'', sym_quote = ''Q'', sym_venue = OKX\<rparr>)\<lparr>pos_qty := 3\<rparr>"
  have "admissible Sell 5 100 (Some ?pos) 7 (risk_new limits_default)"
    by (simp add: admissible_def within_position_limits_def risk_new_def limits_default_def position_flat_def
        resulting_qty_def proposed_notional_def u64_as_i64_small i64_mul_def in_i64_def)
  then have ok: "is_ok (fst (check_order Sell 5 100 (Some ?pos) 7 (risk_new limits_default)))"
    by (simp add: check_order_ok)
  from accepted_position_bounded [OF ok] ok show ?thesis
    by (simp add: Let_def position_flat_def signed_qty_def in_i64_def risk_new_def limits_default_def)
qed

text \<open>C16: The kill switch is sticky: whatever operations follow, as long as nobody calls
  \<open>reset_kill_switch\<close> the engine stays killed and every order is refused as such; in
  particular the daily reset does not clear it.\<close>

theorem kill_switch_sticky:
  assumes "is_killed r" and "ResetKill \<notin> set ops"
  shows "is_killed (snd (run_ops risk_step r ops)) \<and>
    (\<forall>i < length ops. is_check (ops ! i) \<longrightarrow>
       fst (run_ops risk_step r ops) ! i = Inl (KillSwitch ''kill switch is active''))"
  using kill.engaged_run [OF assms] .

lemma kill_switch_sticky_witness:
  "is_killed (snd (run_ops risk_step (activate_kill_switch (risk_new limits_default)) [DailyReset, UpdatePnl 5]))"
  using kill_switch_sticky [of "activate_kill_switch (risk_new limits_default)" "[DailyReset, UpdatePnl 5]"]
  by (simp add: is_killed_def activate_kill_switch_def)

text \<open> The circuit breaker is sticky until the daily reset: no order is accepted in between.\<close>

theorem circuit_breaker_sticky:
  assumes "rk_circuit_breaker r" and "DailyReset \<notin> set ops"
  shows "rk_circuit_breaker (snd (run_ops risk_step r ops)) \<and>
    (\<forall>i < length ops. is_check (ops ! i) \<longrightarrow> \<not> is_ok (fst (run_ops risk_step r ops) ! i))"
  using breaker.engaged_run [OF assms] .

lemma circuit_breaker_sticky_witness:
  "rk_circuit_breaker (snd (run_ops risk_step ((risk_new limits_default)\<lparr>rk_circuit_breaker := True\<rparr>) [RecordWin, UpdatePnl 900]))"
  using circuit_breaker_sticky [of "(risk_new limits_default)\<lparr>rk_circuit_breaker := True\<rparr>" "[RecordWin, UpdatePnl 900]"]
  by simp

text \<open>C9: The rate limit holds over every run: when the calls' timestamps do not go back, at most
  \<open>max_orders_per_second\<close> orders are accepted in any window of one second, wherever it
  starts and whatever else happens to the engine in between.\<close>

theorem rate_limit_holds:
  assumes "sorted (map unat (check_times ops))"
  shows "count_in t (accepted_at (risk_new l) ops) \<le> unat (rl_max_orders_per_second l)"
proof -
  have "rate_inv (risk_new l) [] 0" by (auto simp: rate_inv_def risk_new_def)
  from rate_run [OF this assms] show ?thesis by (simp add: risk_new_def)
qed

lemma rate_limit_holds_witness:
  "let l = limits_default\<lparr>rl_max_orders_per_second := 1\<rparr>;
       ops = [CheckOrder Buy 1 1 None 5, CheckOrder Buy 1 1 None 6]
   in accepted_at (risk_new l) ops = [5] \<and> count_in 0 (accepted_at (risk_new l) ops) \<le> 1"
proof -
  let ?l = "limits_default\<lparr>rl_max_orders_per_second := 1\<rparr>"
  let ?ops = "[CheckOrder Buy 1 1 None 5, CheckOrder Buy 1 1 None 6]"
  have "accepted_at (risk_new ?l) ?ops = [5]"
    by (simp add: check_order_def risk_new_def limits_default_def is_killed_def position_checks_def)
  with rate_limit_holds [of ?ops 0 ?l] show ?thesis
    unfolding Let_def by simp
qed

text \<open> \<open>update_pnl\<close>, when nothing overflows, keeps the peak at the highest PnL reached and opens
  the circuit breaker exactly when the loss from that peak exceeds \<open>max_drawdown_bps\<close>
  ten-thousandths of it; it never closes the breaker.\<close>

theorem update_pnl_drawdown:
  assumes "in_i64 (rk_total_pnl r + d)" and "rk_total_pnl r \<le> rk_peak_pnl r"
    and "in_i64 (10000 * (max (rk_peak_pnl r) (rk_total_pnl r + d) - (rk_total_pnl r + d)))"
    and "in_i64 (max (rk_peak_pnl r) (rk_total_pnl r + d) * int (unat (rl_max_drawdown_bps (rk_limits r))))"
  shows "let pnl = rk_total_pnl r + d; peak = max (rk_peak_pnl r) pnl; bps = int (unat (rl_max_drawdown_bps (rk_limits r)))
    in rk_total_pnl (update_pnl d r) = pnl \<and> rk_peak_pnl (update_pnl d r) = peak \<and>
      rk_total_pnl (update_pnl d r) \<le> rk_peak_pnl (update_pnl d r) \<and>
      (rk_circuit_breaker (update_pnl d r) \<longleftrightarrow>
         rk_circuit_breaker r \<or> (0 < bps \<and> 0 < peak \<and> peak * bps < 10000 * (peak - pnl)))"
proof -
  let ?pnl = "rk_total_pnl r + d" and ?bps = "int (unat (rl_max_drawdown_bps (rk_limits r)))"
  define peak where "peak = max (rk_peak_pnl r) ?pnl"
  have pnl: "i64_add (rk_total_pnl r) d = ?pnl" by (rule i64_add_exact [OF assms(1)])
  have "0 \<le> peak - ?pnl" by (simp add: peak_def)
  then have "in_i64 (peak - ?pnl)"
    using assms(3) unfolding peak_def [symmetric] by (auto simp: in_i64_def)
  then have dd: "i64_mul (i64_sub peak ?pnl) 10000 = 10000 * (peak - ?pnl)"
    using assms(3) unfolding peak_def [symmetric] by (simp add: i64_sub_exact i64_mul_exact mult.commute)
  have lim: "i64_mul peak ?bps = peak * ?bps"
    using assms(4) unfolding peak_def [symmetric] by (rule i64_mul_exact)
  have bps: "0 < rl_max_drawdown_bps (rk_limits r) \<longleftrightarrow> 0 < ?bps"
    by (simp add: word_less_nat_alt)
  have sel: "(if rk_peak_pnl r < ?pnl then ?pnl else rk_peak_pnl r) = peak" and "?pnl \<le> peak"
    by (auto simp: peak_def)
  then show ?thesis
    unfolding Let_def peak_def [symmetric]
    by (auto simp: update_pnl_def pnl drawdown_breached_def dd lim bps Let_def)
qed

lemma update_pnl_drawdown_witness:
  "rk_circuit_breaker (update_pnl (-300) ((risk_new limits_default)\<lparr>rk_total_pnl := 10000, rk_peak_pnl := 10000\<rparr>))"
  using update_pnl_drawdown [of "(risk_new limits_default)\<lparr>rk_total_pnl := 10000, rk_peak_pnl := 10000\<rparr>" "-300"]
  by (simp add: in_i64_def risk_new_def limits_default_def)

end
