(* ===== verification/Event_Log.thy ===== *)
theory Event_Log
  imports Core_Event
begin

section \<open>atomic-replay: the event log and the player (log.rs, player.rs)\<close>

text \<open>
  \<open>EventLog\<close> appends frames, a 4-byte little-endian length and the bincode encoding of the
  event, to a file. A file system is a map from paths to bytes. The model keeps apart what is in
  the \<open>BufWriter\<close> and what is on disk; reading sees the disk. \<open>bincode\<close> is the pair of
  parameters \<open>enc\<close> and \<open>dec\<close>. I/O errors other than a missing file and the end of the file
  are not modelled. A panic (a slice out of range) is \<^term>\<open>None\<close>.
\<close>

type_synonym files = "string \<Rightarrow> u8 list option"

definition le_bytes32 :: "u32 \<Rightarrow> u8 list" where
  "le_bytes32 w = map (\<lambda>i. of_nat (unat w div 256 ^ i)) [0, 1, 2, 3]"

fun from_le_bytes :: "u8 list \<Rightarrow> nat" where
  "from_le_bytes [] = 0"
| "from_le_bytes (b # bs) = unat b + 256 * from_le_bytes bs"

record event_log =
  el_writable :: bool
  el_path :: string
  el_buffered :: "u8 list"
  el_event_count :: u64

definition log_open :: "string \<Rightarrow> files \<Rightarrow> event_log \<times> files" where
  "log_open path fs = (\<lparr>el_writable = True, el_path = path, el_buffered = [], el_event_count = 0\<rparr>,
     (if fs path = None then fs(path := Some []) else fs))"

definition log_read_only :: "string \<Rightarrow> event_log" where
  "log_read_only path = \<lparr>el_writable = False, el_path = path, el_buffered = [], el_event_count = 0\<rparr>"

definition log_append :: "(event \<Rightarrow> string + u8 list) \<Rightarrow> event \<Rightarrow> event_log \<Rightarrow> (unit, io_error) result \<times> event_log" where
  "log_append enc ev l =
     (if \<not> el_writable l then (Inl (IoError OtherIo ''log is read-only''), l)
      else case enc ev of
        Inl e \<Rightarrow> (Inl (IoError InvalidData e), l)
      | Inr bytes \<Rightarrow> (Inr (), l\<lparr>el_buffered := el_buffered l @ le_bytes32 (of_nat (length bytes)) @ bytes,
                               el_event_count := el_event_count l + 1\<rparr>))"

definition log_flush :: "event_log \<Rightarrow> files \<Rightarrow> event_log \<times> files" where
  "log_flush l fs =
     (if el_writable l
      then (l\<lparr>el_buffered := []\<rparr>,
        fs(el_path l := Some ((case fs (el_path l) of None \<Rightarrow> [] | Some bs \<Rightarrow> bs) @ el_buffered l)))
      else (l, fs))"

text \<open>The reading loop; it ends because every pass takes at least the four length bytes.\<close>

function read_frames :: "(u8 list \<Rightarrow> string + event) \<Rightarrow> u8 list \<Rightarrow> (event list, io_error) result" where
  "read_frames dec bs =
     (if length bs < 4 then Inr []
      else let n = from_le_bytes (take 4 bs); rest = drop 4 bs in
        if length rest < n then Inl (IoError UnexpectedEof ''failed to fill whole buffer'')
        else case dec (take n rest) of
          Inl e \<Rightarrow> Inl (IoError InvalidData e)
        | Inr ev \<Rightarrow> try_res (read_frames dec (drop n rest)) (\<lambda>evs. Inr (ev # evs)))"
  by pat_completeness auto
termination by (relation "measure (\<lambda>(dec, bs). length bs)") auto

declare read_frames.simps [simp del]

definition log_read_all :: "(u8 list \<Rightarrow> string + event) \<Rightarrow> files \<Rightarrow> event_log \<Rightarrow> (event list, io_error) result" where
  "log_read_all dec fs l = (case fs (el_path l) of
     None \<Rightarrow> Inl (IoError NotFound ''No such file or directory'')
   | Some bs \<Rightarrow> read_frames dec bs)"

definition log_read_range :: "(u8 list \<Rightarrow> string + event) \<Rightarrow> files \<Rightarrow> u64 \<Rightarrow> u64 \<Rightarrow> event_log \<Rightarrow> (event list, io_error) result" where
  "log_read_range dec fs from_seq to_seq l =
     try_res (log_read_all dec fs l) (\<lambda>evs. Inr (filter (\<lambda>e. from_seq \<le> ev_seq e \<and> ev_seq e \<le> to_seq) evs))"

subsection \<open>The player\<close>

datatype replay_speed = Maximum | RealTime | Multiplier u64

record replay_player =
  rp_log :: event_log
  rp_index :: usize
  rp_events :: "event list"
  rp_speed :: replay_speed

definition player_from_file :: "(u8 list \<Rightarrow> string + event) \<Rightarrow> files \<Rightarrow> string \<Rightarrow> (replay_player, io_error) result" where
  "player_from_file dec fs path =
     (let l = log_read_only path in
      try_res (log_read_all dec fs l)
        (\<lambda>evs. Inr \<lparr>rp_log = l, rp_index = 0, rp_events = evs, rp_speed = Maximum\<rparr>))"

definition player_from_events :: "event list \<Rightarrow> replay_player" where
  "player_from_events evs = \<lparr>rp_log = log_read_only [], rp_index = 0, rp_events = evs, rp_speed = Maximum\<rparr>"

definition set_speed :: "replay_speed \<Rightarrow> replay_player \<Rightarrow> replay_player" where
  "set_speed sp p = p\<lparr>rp_speed := sp\<rparr>"

definition player_peek :: "replay_player \<Rightarrow> event option" where
  "player_peek p = (if unat (rp_index p) < length (rp_events p) then Some (rp_events p ! unat (rp_index p)) else None)"

definition player_next :: "replay_player \<Rightarrow> event option \<times> replay_player" where
  "player_next p = (if unat (rp_index p) < length (rp_events p)
     then (Some (rp_events p ! unat (rp_index p)), p\<lparr>rp_index := rp_index p + 1\<rparr>)
     else (None, p))"

definition seek_to_seq :: "u64 \<Rightarrow> replay_player \<Rightarrow> replay_player" where
  "seek_to_seq seq p = p\<lparr>rp_index := (case position (\<lambda>e. seq \<le> ev_seq e) (rp_events p) of
     None \<Rightarrow> of_nat (length (rp_events p)) | Some i \<Rightarrow> of_nat i)\<rparr>"

definition player_reset :: "replay_player \<Rightarrow> replay_player" where
  "player_reset p = p\<lparr>rp_index := 0\<rparr>"

definition next_batch :: "usize \<Rightarrow> replay_player \<Rightarrow> (event list \<times> replay_player) option" where
  "next_batch n p =
     (let start = rp_index p; stop = min (start + n) (of_nat (length (rp_events p))) in
      if stop < start then None
      else Some (take (unat stop - unat start) (drop (unat start) (rp_events p)), p\<lparr>rp_index := stop\<rparr>))"

definition total_events :: "replay_player \<Rightarrow> nat" where
  "total_events p = length (rp_events p)"

definition player_position :: "replay_player \<Rightarrow> usize" where
  "player_position p = rp_index p"

definition player_is_done :: "replay_player \<Rightarrow> bool" where
  "player_is_done p \<longleftrightarrow> length (rp_events p) \<le> unat (rp_index p)"

text \<open>Playing to the end: the loop \<open>while let Some(event) = player.next()\<close>, with fuel.\<close>

fun play :: "nat \<Rightarrow> replay_player \<Rightarrow> event list \<times> replay_player" where
  "play 0 p = ([], p)"
| "play (Suc n) p = (case player_next p of
     (None, p') \<Rightarrow> ([], p')
   | (Some e, p') \<Rightarrow> (let (es, p'') = play n p' in (e # es, p'')))"

subsection \<open>Frames\<close>

lemma length_le_bytes32 [simp]: "length (le_bytes32 w) = 4"
  by (simp add: le_bytes32_def)

lemma unat_of_nat_u8: "unat (of_nat n :: u8) = n mod 256"
  by (simp add: unat_of_nat)

fun le_list :: "nat \<Rightarrow> nat \<Rightarrow> u8 list" where
  "le_list 0 n = []"
| "le_list (Suc k) n = of_nat n # le_list k (n div 256)"

lemma from_le_list: "from_le_bytes (le_list k n) = n mod 256 ^ k"
proof (induction k arbitrary: n)
  case (Suc k)
  have "n mod (256 * 256 ^ k) = 256 * (n div 256 mod 256 ^ k) + n mod 256"
    by (rule mod_mult2_eq)
  then show ?case by (simp add: Suc.IH unat_of_nat_u8)
qed simp

lemma le_bytes32_list: "le_bytes32 w = le_list (Suc (Suc (Suc (Suc 0)))) (unat w)"
  by (simp add: le_bytes32_def flip: div_mult2_eq)

lemma from_le_bytes32: "from_le_bytes (le_bytes32 w) = unat w"
  using unsigned_less [of w, where ?'a = nat] unfolding le_bytes32_list from_le_list by simp

definition frame :: "u8 list \<Rightarrow> u8 list" where
  "frame bytes = le_bytes32 (of_nat (length bytes)) @ bytes"

text \<open>What is relied on of bincode, for the events at hand: it encodes them, in fewer than
  \<open>2^32\<close> bytes, and decodes the result.\<close>

definition codec_for :: "(event \<Rightarrow> string + u8 list) \<Rightarrow> (u8 list \<Rightarrow> string + event) \<Rightarrow> event list \<Rightarrow> bool" where
  "codec_for enc dec evs \<longleftrightarrow>
     (\<forall>ev \<in> set evs. \<exists>bytes. enc ev = Inr bytes \<and> length bytes < 2 ^ 32 \<and> dec bytes = Inr ev)"

definition encoded :: "(event \<Rightarrow> string + u8 list) \<Rightarrow> event \<Rightarrow> u8 list" where
  "encoded enc ev = (case enc ev of Inl _ \<Rightarrow> [] | Inr bytes \<Rightarrow> bytes)"

definition frames :: "(event \<Rightarrow> string + u8 list) \<Rightarrow> event list \<Rightarrow> u8 list" where
  "frames enc evs = concat (map (\<lambda>ev. frame (encoded enc ev)) evs)"

lemma frames_simps [simp]:
  "frames enc [] = []"
  "frames enc (ev # evs) = frame (encoded enc ev) @ frames enc evs"
  "frames enc (evs @ evs') = frames enc evs @ frames enc evs'"
  by (simp_all add: frames_def)

lemma codec_for_simps [simp]:
  "codec_for enc dec []"
  "codec_for enc dec (ev # evs) \<longleftrightarrow>
     (\<exists>bytes. enc ev = Inr bytes \<and> length bytes < 2 ^ 32 \<and> dec bytes = Inr ev) \<and> codec_for enc dec evs"
  by (auto simp: codec_for_def)

lemma unat_of_nat_u32: "n < 2 ^ 32 \<Longrightarrow> unat (of_nat n :: u32) = n"
  by (simp only: unat_of_nat) simp

lemma read_frame:
  assumes "length bytes < 2 ^ 32" and "dec bytes = Inr ev"
  shows "read_frames dec (frame bytes @ rest) = try_res (read_frames dec rest) (\<lambda>evs. Inr (ev # evs))"
proof -
  have n: "from_le_bytes (le_bytes32 (of_nat (length bytes))) = length bytes"
    by (simp add: from_le_bytes32 unat_of_nat_u32 [OF assms(1)])
  show ?thesis
    by (subst read_frames.simps) (simp add: frame_def n assms(2) Let_def)
qed

lemma read_frames_all:
  "codec_for enc dec evs \<Longrightarrow>
    read_frames dec (frames enc evs @ rest) = try_res (read_frames dec rest) (\<lambda>more. Inr (evs @ more))"
proof (induction evs)
  case Nil
  show ?case by (cases "read_frames dec rest") simp_all
next
  case (Cons ev evs)
  then obtain bytes where b: "enc ev = Inr bytes" "length bytes < 2 ^ 32" "dec bytes = Inr ev" by auto
  with Cons show ?case
    by (cases "read_frames dec rest") (simp_all add: encoded_def read_frame)
qed

lemma read_frames_short: "length bs < 4 \<Longrightarrow> read_frames dec bs = Inr []"
  by (subst read_frames.simps) simp

lemma read_frames_torn:
  assumes "length bytes < 2 ^ 32" and "4 \<le> n" and "n < 4 + length bytes"
  shows "read_frames dec (take n (frame bytes)) = Inl (IoError UnexpectedEof ''failed to fill whole buffer'')"
proof -
  have t: "take n (frame bytes) = le_bytes32 (of_nat (length bytes)) @ take (n - 4) bytes"
    using assms(2) by (simp add: frame_def)
  have "from_le_bytes (le_bytes32 (of_nat (length bytes))) = length bytes"
    by (simp add: from_le_bytes32 unat_of_nat_u32 [OF assms(1)])
  then show ?thesis
    unfolding t by (subst read_frames.simps) (use assms in \<open>simp add: Let_def less_diff_conv2\<close>)
qed


subsection \<open>Appending and reading back\<close>

text \<open>Appending events one by one to an open log; the loop stops at the first error.\<close>

fun append_all :: "(event \<Rightarrow> string + u8 list) \<Rightarrow> event list \<Rightarrow> event_log \<Rightarrow> (unit, io_error) result \<times> event_log" where
  "append_all enc [] l = (Inr (), l)"
| "append_all enc (ev # evs) l = (case log_append enc ev l of
     (Inl e, l') \<Rightarrow> (Inl e, l')
   | (Inr _, l') \<Rightarrow> append_all enc evs l')"

lemma append_all_frames:
  assumes "codec_for enc dec evs" and "el_writable l"
  shows "append_all enc evs l = (Inr (), l\<lparr>el_buffered := el_buffered l @ frames enc evs,
    el_event_count := el_event_count l + of_nat (length evs)\<rparr>)"
  using assms
proof (induction evs arbitrary: l)
  case (Cons ev evs)
  then obtain bytes where b: "enc ev = Inr bytes" by auto
  with Cons.prems(2) have "log_append enc ev l = (Inr (), l\<lparr>el_buffered := el_buffered l @ frame bytes,
      el_event_count := el_event_count l + 1\<rparr>)"
    by (simp add: log_append_def frame_def)
  with Cons.IH [of "l\<lparr>el_buffered := el_buffered l @ frame bytes, el_event_count := el_event_count l + 1\<rparr>"]
    Cons.prems b show ?case by (simp add: encoded_def add.assoc)
qed simp

text \<open>The events whose frames lie entirely within the first \<open>n\<close> bytes, and what is left of \<open>n\<close>.\<close>

fun complete_frames :: "(event \<Rightarrow> string + u8 list) \<Rightarrow> nat \<Rightarrow> event list \<Rightarrow> event list \<times> nat" where
  "complete_frames enc n [] = ([], 0)"
| "complete_frames enc n (ev # evs) =
     (if n < 4 + length (encoded enc ev) then ([], n)
      else (let (es, k) = complete_frames enc (n - (4 + length (encoded enc ev))) evs in (ev # es, k)))"

lemma length_frame [simp]: "length (frame bytes) = 4 + length bytes"
  by (simp add: frame_def)

lemma read_prefix:
  assumes "codec_for enc dec evs"
  shows "read_frames dec (take n (frames enc evs)) =
    (case complete_frames enc n evs of (es, k) \<Rightarrow>
       if k < 4 then Inr es else Inl (IoError UnexpectedEof ''failed to fill whole buffer''))"
  using assms
proof (induction evs arbitrary: n)
  case Nil
  show ?case by (simp add: read_frames_short)
next
  case (Cons ev evs)
  then obtain bytes where b: "enc ev = Inr bytes" "length bytes < 2 ^ 32" "dec bytes = Inr ev" by auto
  have enc: "encoded enc ev = bytes" by (simp add: encoded_def b(1))
  show ?case
  proof (cases "n < 4 + length bytes")
    case True
    then have "take n (frames enc (ev # evs)) = take n (frame bytes)" by (simp add: enc)
    moreover have "length (take n (frame bytes)) = n" using True by simp
    ultimately show ?thesis
      using True read_frames_torn [OF b(2), of n dec] read_frames_short [of "take n (frame bytes)" dec]
      by (auto simp: enc not_less)
  next
    case False
    then have "take n (frames enc (ev # evs)) = frame bytes @ take (n - (4 + length bytes)) (frames enc evs)"
      by (simp add: enc)
    with False Cons show ?thesis
      by (simp add: enc read_frame [where dec = dec and bytes = bytes and ev = ev, OF b(2,3)] split: prod.split)
  qed
qed

text \<open>C10: What is appended and flushed is read back: for a new log file, and with bincode decoding
  what it encoded, \<open>append\<close> succeeds for every event, and \<open>read_all\<close> after \<open>flush\<close> returns
  exactly the appended events in order, \<open>read_range\<close> those with sequence numbers in the range.\<close>

theorem log_roundtrip:
  assumes codec: "codec_for enc dec evs" and new: "fs path = None"
  shows "\<exists>l fs1 l1 l2 fs2. log_open path fs = (l, fs1) \<and> append_all enc evs l = (Inr (), l1) \<and>
    log_flush l1 fs1 = (l2, fs2) \<and> el_event_count l2 = of_nat (length evs) \<and>
    log_read_all dec fs2 (log_read_only path) = Inr evs \<and>
    log_read_range dec fs2 lo hi (log_read_only path) = Inr (filter (\<lambda>e. lo \<le> ev_seq e \<and> ev_seq e \<le> hi) evs)"
proof -
  have "read_frames dec (frames enc evs) = Inr evs"
    using read_frames_all [OF codec, of "[]"] by (simp add: read_frames_short)
  then show ?thesis
    using append_all_frames [OF codec, of "\<lparr>el_writable = True, el_path = path, el_buffered = [], el_event_count = 0\<rparr>"]
    by (simp add: log_open_def new log_flush_def log_read_all_def log_read_only_def log_read_range_def)
qed

definition ex_enc :: "event \<Rightarrow> string + u8 list" where
  "ex_enc ev = Inr [of_nat (unat (ev_seq ev))]"

definition ex_dec :: "u8 list \<Rightarrow> string + event" where
  "ex_dec bs = (case bs of [b] \<Rightarrow> Inr (ex_event (of_nat (unat b)) (ex_ack ''a'')) | _ \<Rightarrow> Inl ''bad'')"

lemma log_roundtrip_witness:
  "\<exists>l fs1 l1 l2 fs2. log_open ''log'' (\<lambda>_. None) = (l, fs1) \<and>
    append_all ex_enc [ex_event 1 (ex_ack ''a''), ex_event 2 (ex_ack ''a'')] l = (Inr (), l1) \<and>
    log_flush l1 fs1 = (l2, fs2) \<and> el_event_count l2 = of_nat (length [1::nat, 2]) \<and>
    log_read_all ex_dec fs2 (log_read_only ''log'') = Inr [ex_event 1 (ex_ack ''a''), ex_event 2 (ex_ack ''a'')] \<and>
    log_read_range ex_dec fs2 2 9 (log_read_only ''log'') =
      Inr (filter (\<lambda>e. 2 \<le> ev_seq e \<and> ev_seq e \<le> 9) [ex_event 1 (ex_ack ''a''), ex_event 2 (ex_ack ''a'')])"
proof -
  have "codec_for ex_enc ex_dec [ex_event 1 (ex_ack ''a''), ex_event 2 (ex_ack ''a'')]"
    by (simp add: ex_enc_def ex_dec_def ex_event_def)
  from log_roundtrip [OF this, of "\<lambda>_. None" "''log''" 2 9] show ?thesis by simp
qed

text \<open>C21: A log cut off after any number of bytes is read up to the last complete event only
  if the cut leaves fewer than four bytes of the next frame; a cut inside an event's
  payload makes \<open>read_all\<close> fail as a whole, with UnexpectedEof, so that none of the intact
  events before it is returned.\<close>

theorem torn_log_read:
  assumes "codec_for enc dec evs" and "fs path = Some (take n (frames enc evs))"
  shows "log_read_all dec fs (log_read_only path) =
    (case complete_frames enc n evs of (es, k) \<Rightarrow>
       if k < 4 then Inr es else Inl (IoError UnexpectedEof ''failed to fill whole buffer''))"
  using read_prefix [OF assms(1), of n] assms(2) by (simp add: log_read_all_def log_read_only_def)

lemma torn_log_read_witness:
  "log_read_all ex_dec (\<lambda>_. Some (take 8 (frames ex_enc [ex_event 1 (ex_ack ''a''), ex_event 2 (ex_ack ''a'')]))) (log_read_only ''log'') =
     Inr [ex_event 1 (ex_ack ''a'')]"
proof -
  have "codec_for ex_enc ex_dec [ex_event 1 (ex_ack ''a''), ex_event 2 (ex_ack ''a'')]"
    by (simp add: ex_enc_def ex_dec_def ex_event_def)
  from torn_log_read [OF this, of "\<lambda>_. Some (take 8 (frames ex_enc [ex_event 1 (ex_ack ''a''), ex_event 2 (ex_ack ''a'')]))" "''log''" 8]
  show ?thesis by (simp add: encoded_def ex_enc_def)
qed

subsection \<open>The player delivers every event once\<close>

lemma play_all:
  assumes "length (rp_events p) < 2 ^ 64" and "unat (rp_index p) \<le> length (rp_events p)"
    and "length (rp_events p) - unat (rp_index p) < n"
  shows "fst (play n p) = drop (unat (rp_index p)) (rp_events p) \<and>
    player_is_done (snd (play n p)) \<and> rp_events (snd (play n p)) = rp_events p"
  using assms
proof (induction n arbitrary: p)
  case (Suc n)
  show ?case
  proof (cases "unat (rp_index p) < length (rp_events p)")
    case True
    let ?q = "p\<lparr>rp_index := rp_index p + 1\<rparr>"
    have i: "unat (rp_index p + 1) = Suc (unat (rp_index p))"
      using True Suc.prems(1) by (simp add: unat_word_ariths)
    have "fst (play n ?q) = drop (unat (rp_index ?q)) (rp_events ?q) \<and>
        player_is_done (snd (play n ?q)) \<and> rp_events (snd (play n ?q)) = rp_events ?q"
      using Suc.prems True i by (intro Suc.IH) auto
    with True i show ?thesis
      by (auto simp: player_next_def Cons_nth_drop_Suc split: prod.splits)
  qed (use Suc.prems in \<open>simp add: player_next_def player_is_done_def\<close>)
qed simp

text \<open> Seeking to a sequence number and playing to the end delivers exactly the events from the
  first one with at least that number on, each once and in order, and then the player is
  done; on a log with ascending numbers these are all events with at least that number.\<close>

theorem player_delivers:
  assumes "length evs < 2 ^ 64"
  shows "fst (play (length evs + 1) (seek_to_seq seq (player_from_events evs))) =
      dropWhile (\<lambda>e. ev_seq e < seq) evs \<and>
    player_is_done (snd (play (length evs + 1) (seek_to_seq seq (player_from_events evs)))) \<and>
    (sorted (map ev_seq evs) \<longrightarrow>
      dropWhile (\<lambda>e. ev_seq e < seq) evs = filter (\<lambda>e. seq \<le> ev_seq e) evs)"
proof -
  have pos: "drop (case position P xs of None \<Rightarrow> length xs | Some i \<Rightarrow> i) xs = dropWhile (\<lambda>x. \<not> P x) xs \<and>
      (case position P xs of None \<Rightarrow> length xs | Some i \<Rightarrow> i) \<le> length xs" for P and xs :: "event list"
    by (induction xs) (auto split: option.splits)
  let ?i = "case position (\<lambda>e. seq \<le> ev_seq e) evs of None \<Rightarrow> length evs | Some i \<Rightarrow> i"
  let ?p = "seek_to_seq seq (player_from_events evs)"
  have "rp_index ?p = of_nat ?i"
    by (simp add: seek_to_seq_def player_from_events_def split: option.split)
  moreover have "?i \<le> length evs" using pos [where P = "\<lambda>e. seq \<le> ev_seq e" and xs = evs] by simp
  ultimately have i: "unat (rp_index ?p) = ?i"
    using assms by (metis order_le_less_trans unat_of_nat_u64)
  have evs: "rp_events ?p = evs" by (simp add: seek_to_seq_def player_from_events_def)
  have "fst (play (length evs + 1) ?p) = drop ?i evs \<and> player_is_done (snd (play (length evs + 1) ?p))"
    using play_all [of ?p "length evs + 1"] assms pos [where P = "\<lambda>e. seq \<le> ev_seq e" and xs = evs] by (simp add: i evs)
  moreover have "dropWhile (\<lambda>e. ev_seq e < seq) evs = filter (\<lambda>e. seq \<le> ev_seq e) evs" if "sorted (map ev_seq evs)"
    using that by (induction evs) (auto simp: not_less intro!: filter_True [symmetric])
  ultimately show ?thesis using pos [where P = "\<lambda>e. seq \<le> ev_seq e" and xs = evs] by (simp add: not_le)
qed

lemma player_delivers_witness:
  "fst (play (length [ex_event 4 (ex_ack ''a''), ex_event 7 (ex_ack ''a'')] + 1)
      (seek_to_seq 5 (player_from_events [ex_event 4 (ex_ack ''a''), ex_event 7 (ex_ack ''a'')]))) =
     [ex_event 7 (ex_ack ''a'')]"
  using player_delivers [of "[ex_event 4 (ex_ack ''a''), ex_event 7 (ex_ack ''a'')]" 5]
  by (simp add: ex_event_def)

text \<open> \<open>next_batch\<close> returns the next \<open>n\<close> events (fewer at the end) and moves past them; but when
  the position plus \<open>n\<close> exceeds 64 bits the sum wraps and the call panics on a reversed
  slice range unless the position is 0.\<close>

theorem next_batch_cases:
  assumes "length (rp_events p) < 2 ^ 64" and "unat (rp_index p) \<le> length (rp_events p)"
  shows "(unat (rp_index p) + unat n < 2 ^ 64 \<longrightarrow> (\<exists>p'. next_batch n p =
        Some (take (unat n) (drop (unat (rp_index p)) (rp_events p)), p') \<and>
        unat (rp_index p') = min (unat (rp_index p) + unat n) (length (rp_events p)))) \<and>
    (2 ^ 64 \<le> unat (rp_index p) + unat n \<longrightarrow> next_batch n p = None)"
proof -
  let ?i = "unat (rp_index p)" and ?L = "length (rp_events p)"
  have L: "unat (of_nat ?L :: u64) = ?L" by (rule unat_of_nat_u64 [OF assms(1)])
  have "\<exists>p'. next_batch n p = Some (take (unat n) (drop ?i (rp_events p)), p') \<and>
      unat (rp_index p') = min (?i + unat n) ?L" if "?i + unat n < 2 ^ 64"
  proof -
    have s: "unat (rp_index p + n) = ?i + unat n" using that by (simp add: unat_word_ariths)
    then have m: "unat (min (rp_index p + n) (of_nat ?L)) = min (?i + unat n) ?L"
      by (simp add: min_def word_le_nat_alt L)
    have "take (min (?i + unat n) ?L - ?i) (drop ?i (rp_events p)) = take (unat n) (drop ?i (rp_events p))"
      by (cases "?i + unat n \<le> ?L") (auto simp: min_def)
    then show ?thesis
      using assms(2) by (simp add: next_batch_def Let_def word_less_nat_alt m)
  qed
  moreover have "next_batch n p = None" if "2 ^ 64 \<le> ?i + unat n"
  proof -
    have "unat (rp_index p + n) = (?i + unat n) mod 2 ^ 64" by (simp add: unat_word_ariths)
    moreover have "?i + unat n < 2 * 2 ^ 64" "unat n < 2 ^ 64"
      using unsigned_less [of n, where ?'a = nat] unsigned_less [of "rp_index p", where ?'a = nat] by auto
    ultimately have "unat (rp_index p + n) < ?i"
      using that by (simp add: le_mod_geq)
    then have "rp_index p + n < rp_index p" by (simp add: word_less_nat_alt)
    then have "min (rp_index p + n) (of_nat ?L) < rp_index p" by (rule min.strict_coboundedI1)
    then show ?thesis by (simp add: next_batch_def Let_def)
  qed
  ultimately show ?thesis by blast
qed

lemma next_batch_cases_witness:
  "next_batch 18446744073709551615 ((player_from_events [ex_event 4 (ex_ack ''a'')])\<lparr>rp_index := 1\<rparr>) = None"
  using next_batch_cases [of "(player_from_events [ex_event 4 (ex_ack ''a'')])\<lparr>rp_index := 1\<rparr>" 18446744073709551615]
  by (simp add: player_from_events_def)

end
