(* ===== verification/Recovery.thy ===== *)
theory Recovery
  imports Event_Log Core_Snapshot
begin

section \<open>atomic-node: recovery (recovery.rs)\<close>

text \<open>
  \<open>RecoveryCoordinator\<close> with the file system operations it performs, the recovery plan, and
  \<open>EventDeduplicator\<close>. \<open>save_snapshot\<close> is the sequence of its writes and renames, so that
  a crash can be put between any two of them or in the middle of a write; \<open>fs::rename\<close> is
  atomic, as POSIX promises. bincode for snapshots is the pair of parameters \<open>senc\<close>,
  \<open>sdec\<close>. The order of iteration of the deduplicator's hash set plays no role, so the set
  is a set.
\<close>

subsection \<open>Snapshots on disk\<close>

datatype fs_op = Write string "u8 list" | Rename string string

fun fs_apply :: "fs_op \<Rightarrow> files \<Rightarrow> files" where
  "fs_apply (Write path data) fs = fs(path := Some data)"
| "fs_apply (Rename src dst) fs = (fs(dst := fs src))(src := None)"

text \<open>What a crash leaves of an operation that had begun: a write may have got any prefix out,
  a rename has happened or not.\<close>

inductive fs_torn :: "fs_op \<Rightarrow> files \<Rightarrow> files \<Rightarrow> bool" where
  torn_none: "fs_torn op fs fs"
| torn_write: "fs_torn (Write path data) fs (fs(path := Some (take n data)))"
| torn_done: "fs_torn op fs (fs_apply op fs)"

text \<open>The states a crash can leave of a sequence of operations.\<close>

inductive crash_state :: "fs_op list \<Rightarrow> files \<Rightarrow> files \<Rightarrow> bool" where
  crash_end: "crash_state [] fs fs"
| crash_here: "fs_torn op fs fs' \<Longrightarrow> crash_state (op # ops) fs fs'"
| crash_later: "crash_state ops (fs_apply op fs) fs' \<Longrightarrow> crash_state (op # ops) fs fs'"

inductive_simps crash_state_simps: "crash_state [] fs fs'" "crash_state (op # ops) fs fs'"
inductive_simps torn_write_simps: "fs_torn (Write path data) fs fs'"
inductive_simps torn_rename_simps: "fs_torn (Rename src dst) fs fs'"

record recovery_coordinator =
  rc_snapshot_dir :: string
  rc_event_log_path :: string

definition coordinator_new :: "string \<Rightarrow> string \<Rightarrow> recovery_coordinator" where
  "coordinator_new dir log_path = \<lparr>rc_snapshot_dir = dir, rc_event_log_path = log_path\<rparr>"

definition numbered_path :: "recovery_coordinator \<Rightarrow> u64 \<Rightarrow> string" where
  "numbered_path c seq = rc_snapshot_dir c @ ''/snapshot_'' @ show_u64 seq @ ''.bin''"

definition latest_path :: "recovery_coordinator \<Rightarrow> string" where
  "latest_path c = rc_snapshot_dir c @ ''/snapshot_latest.bin''"

definition latest_tmp_path :: "recovery_coordinator \<Rightarrow> string" where
  "latest_tmp_path c = rc_snapshot_dir c @ ''/snapshot_latest.bin.tmp''"

definition save_ops :: "recovery_coordinator \<Rightarrow> engine_snapshot \<Rightarrow> u8 list \<Rightarrow> fs_op list" where
  "save_ops c snap data =
     (let filename = numbered_path c (sn_seq snap); tmp_numbered = filename @ ''.tmp'' in
      [Write tmp_numbered data, Rename tmp_numbered filename,
       Write (latest_tmp_path c) data, Rename (latest_tmp_path c) (latest_path c)])"

definition save_snapshot ::
  "(engine_snapshot \<Rightarrow> string + u8 list) \<Rightarrow> recovery_coordinator \<Rightarrow> engine_snapshot \<Rightarrow> files \<Rightarrow> (unit, io_error) result \<times> files" where
  "save_snapshot senc c snap fs = (case senc snap of
     Inl e \<Rightarrow> (Inl (IoError InvalidData e), fs)
   | Inr data \<Rightarrow> (Inr (), fold fs_apply (save_ops c snap data) fs))"

definition load_latest_snapshot ::
  "(u8 list \<Rightarrow> string + engine_snapshot) \<Rightarrow> (u8 list \<Rightarrow> u64) \<Rightarrow> recovery_coordinator \<Rightarrow> files \<Rightarrow> (engine_snapshot option, io_error) result" where
  "load_latest_snapshot sdec xxh3 c fs = (case fs (latest_path c) of
     None \<Rightarrow> Inr None
   | Some data \<Rightarrow> (case sdec data of
       Inl e \<Rightarrow> Inl (IoError InvalidData e)
     | Inr snap \<Rightarrow> if \<not> snapshot_verify xxh3 snap
         then Inl (IoError InvalidData ''snapshot hash verification failed'')
         else Inr (Some snap)))"

subsection \<open>The recovery plan\<close>

record recovery_plan =
  pl_snapshot :: "engine_snapshot option"
  pl_events_to_replay :: "event list"
  pl_need_peer_sync :: bool
  pl_sync_from_seq :: u64
  pl_expected_next_seq :: u64

text \<open>The loop over \<open>windows(2)\<close>, on \<open>(need_peer_sync, sync_from_seq)\<close>.\<close>

definition gap_window :: "event \<times> event \<Rightarrow> bool \<times> u64 \<Rightarrow> bool \<times> u64" where
  "gap_window w acc =
     (if ev_seq (snd w) \<noteq> ev_seq (fst w) + 1 \<and> \<not> fst acc then (True, ev_seq (fst w) + 1) else acc)"

definition plan_from :: "engine_snapshot option \<Rightarrow> event list \<Rightarrow> recovery_plan" where
  "plan_from snapshot events =
     (let snapshot_seq = (case snapshot of None \<Rightarrow> 0 | Some s \<Rightarrow> sn_seq s);
          replay = filter (\<lambda>e. snapshot_seq < ev_seq e) events;
          expected = snapshot_seq + 1
      in if replay = []
         then \<lparr>pl_snapshot = snapshot, pl_events_to_replay = replay, pl_need_peer_sync = False,
                pl_sync_from_seq = 0, pl_expected_next_seq = expected\<rparr>
         else
           (let first_seq = ev_seq (hd replay);
                acc0 = (if expected < first_seq then (True, expected) else (False, 0));
                (need, from_seq) = fold gap_window (windows2 replay) acc0
            in \<lparr>pl_snapshot = snapshot, pl_events_to_replay = replay, pl_need_peer_sync = need,
                pl_sync_from_seq = from_seq, pl_expected_next_seq = ev_seq (last replay) + 1\<rparr>))"

definition plan_recovery ::
  "(u8 list \<Rightarrow> string + engine_snapshot) \<Rightarrow> (u8 list \<Rightarrow> string + event) \<Rightarrow> (u8 list \<Rightarrow> u64) \<Rightarrow>
    recovery_coordinator \<Rightarrow> files \<Rightarrow> (recovery_plan, io_error) result" where
  "plan_recovery sdec dec xxh3 c fs =
     try_res (load_latest_snapshot sdec xxh3 c fs) (\<lambda>snapshot.
     try_res (if fs (rc_event_log_path c) \<noteq> None then log_read_all dec fs (log_read_only (rc_event_log_path c)) else Inr [])
       (\<lambda>events. Inr (plan_from snapshot events)))"

subsection \<open>The deduplicator\<close>

record event_deduplicator =
  dd_seen_seqs :: "u64 set"
  dd_max_seen :: u64

definition dedup_new :: event_deduplicator where
  "dedup_new = \<lparr>dd_seen_seqs = {}, dd_max_seen = 0\<rparr>"

definition dedup_from_seq :: "u64 \<Rightarrow> event_deduplicator" where
  "dedup_from_seq start_seq = \<lparr>dd_seen_seqs = {}, dd_max_seen = start_seq\<rparr>"

definition dedup_check :: "event_deduplicator \<Rightarrow> u64 \<Rightarrow> bool \<times> event_deduplicator" where
  "dedup_check d seq =
     (if seq \<le> dd_max_seen d \<and> seq \<in> dd_seen_seqs d then (False, d)
      else
        (let seen = insert seq (dd_seen_seqs d);
             mx = (if dd_max_seen d < seq then seq else dd_max_seen d);
             seen = (if 100000 < card seen then {s \<in> seen. u64_saturating_sub mx 50000 < s} else seen)
         in (True, \<lparr>dd_seen_seqs = seen, dd_max_seen = mx\<rparr>)))"

subsection \<open>Saving is atomic\<close>

lemma show_nat_not_l: "show_nat n \<noteq> [] \<and> hd (show_nat n) \<noteq> CHR ''l''"
proof (induction n rule: show_nat.induct)
  case (1 n)
  show ?case
  proof (cases "n < 10")
    case True
    have "digit n \<noteq> CHR ''l''"
    proof
      assume "digit n = CHR ''l''"
      then have "(of_char (digit n) :: nat) = 108" by simp
      with True show False by (simp add: digit_def of_char_mod_256 take_bit_nat_eq_self)
    qed
    with True show ?thesis by (subst (1 2) show_nat.simps) simp
  next
    case False
    with 1 show ?thesis by (subst (1 2) show_nat.simps) simp
  qed
qed

lemma paths_distinct:
  "numbered_path c n \<noteq> latest_path c" "numbered_path c n @ ''.tmp'' \<noteq> latest_path c"
  "latest_tmp_path c \<noteq> latest_path c"
  using show_nat_not_l [of "unat n"]
  by (cases "show_nat (unat n)"; simp add: numbered_path_def latest_path_def latest_tmp_path_def show_u64_def)+

lemmas paths_neq = paths_distinct paths_distinct [symmetric]

lemma save_crash_latest:
  assumes "crash_state (save_ops c snap data) fs fs'"
  shows "fs' (latest_path c) = fs (latest_path c) \<or> fs' (latest_path c) = Some data"
  using assms
  by (auto simp: save_ops_def Let_def crash_state_simps torn_write_simps torn_rename_simps paths_neq)

lemma save_latest: "fold fs_apply (save_ops c snap data) fs (latest_path c) = Some data"
  by (simp add: save_ops_def Let_def paths_neq)

subsection \<open>Gaps\<close>

lemma gap_fold_done: "fold gap_window ws (True, v) = (True, v)"
  by (induction ws) (simp_all add: gap_window_def)

lemma gap_window_first:
  "ev_seq y = ev_seq x + 1 \<Longrightarrow> gap_window (x, y) (False, z) = (False, z)"
  "ev_seq y \<noteq> ev_seq x + 1 \<Longrightarrow> gap_window (x, y) (False, z) = (True, ev_seq x + 1)"
  by (simp_all add: gap_window_def)

lemma gap_fold:
  assumes "fold gap_window (windows2 (x # xs)) (False, z) = (need, v)"
  shows "(\<not> need \<longrightarrow> v = z \<and> (\<forall>i \<le> length xs. ev_seq ((x # xs) ! i) = ev_seq x + of_nat i)) \<and>
    (need \<longrightarrow> (\<exists>k \<le> length xs. 0 < k \<and> (\<forall>i < k. ev_seq ((x # xs) ! i) = ev_seq x + of_nat i) \<and>
       v = ev_seq x + of_nat k \<and> ev_seq ((x # xs) ! k) \<noteq> v))"
  using assms
proof (induction xs arbitrary: x)
  case Nil
  then show ?case by simp
next
  case (Cons y ys)
  show ?case
  proof (cases "ev_seq y = ev_seq x + 1")
    case True
    with Cons.prems have "fold gap_window (windows2 (y # ys)) (False, z) = (need, v)"
      by (simp add: gap_window_first)
    note ih = Cons.IH [OF this]
    have shift: "ev_seq ((x # y # ys) ! i) = ev_seq x + of_nat i \<longleftrightarrow>
        i = 0 \<or> ev_seq ((y # ys) ! (i - 1)) = ev_seq y + of_nat (i - 1)" for i
      by (cases i) (simp_all add: True add.assoc)
    show ?thesis
    proof (intro conjI impI)
      assume n: "\<not> need"
      show "v = z" using ih n by blast
      show "\<forall>i \<le> length (y # ys). ev_seq ((x # y # ys) ! i) = ev_seq x + of_nat i"
        using ih n by (auto simp: shift)
    next
      assume need
      then obtain k where k: "k \<le> length ys" "0 < k" "\<forall>i < k. ev_seq ((y # ys) ! i) = ev_seq y + of_nat i"
          "v = ev_seq y + of_nat k" "ev_seq ((y # ys) ! k) \<noteq> v"
        using ih by blast
      show "\<exists>k \<le> length (y # ys). 0 < k \<and> (\<forall>i < k. ev_seq ((x # y # ys) ! i) = ev_seq x + of_nat i) \<and>
         v = ev_seq x + of_nat k \<and> ev_seq ((x # y # ys) ! k) \<noteq> v"
        using k by (intro exI [of _ "Suc k"]) (auto simp: shift True add.assoc simp del: nth_Cons_pos)
    qed
  next
    case False
    with Cons.prems have "need" "v = ev_seq x + 1"
      by (simp_all add: gap_window_first gap_fold_done)
    with False show ?thesis by (auto intro!: exI [of _ 1])
  qed
qed

text \<open>Where a list of events stops continuing the numbers after \<open>s\<close>.\<close>

definition first_gap :: "u64 \<Rightarrow> event list \<Rightarrow> nat \<Rightarrow> bool" where
  "first_gap s evs k \<longleftrightarrow> k < length evs \<and> (\<forall>i < k. ev_seq (evs ! i) = s + 1 + of_nat i) \<and>
     ev_seq (evs ! k) \<noteq> s + 1 + of_nat k"

lemma plan_gap_free_or_first:
  fixes snapshot :: "engine_snapshot option" and events :: "event list"
  defines "s \<equiv> (case snapshot of None \<Rightarrow> 0 | Some sn \<Rightarrow> sn_seq sn)"
  defines "p \<equiv> plan_from snapshot events"
  shows "(\<not> pl_need_peer_sync p \<longrightarrow>
      (\<forall>i < length (pl_events_to_replay p). ev_seq (pl_events_to_replay p ! i) = s + 1 + of_nat i)) \<and>
    (pl_need_peer_sync p \<longrightarrow> (\<exists>k. first_gap s (pl_events_to_replay p) k \<and> pl_sync_from_seq p = s + 1 + of_nat k))"
proof -
  define replay where "replay = filter (\<lambda>e. s < ev_seq e) events"
  have r: "pl_events_to_replay p = replay"
    by (simp add: p_def plan_from_def Let_def replay_def s_def split: prod.split)
  show ?thesis
  proof (cases replay)
    case Nil
    then show ?thesis by (simp add: r) (simp add: p_def plan_from_def Let_def replay_def s_def)
  next
    case (Cons x xs)
    have x: "s < ev_seq x" using Cons replay_def by (metis filter_eq_ConsD)
    have "unat s < unat (ev_seq x)" using x by (simp add: word_less_nat_alt)
    moreover have "unat (s + 1) = Suc (unat s)"
      using \<open>unat s < unat (ev_seq x)\<close> unsigned_less [of "ev_seq x", where ?'a = nat]
      by (simp add: unat_word_ariths)
    ultimately have first: "s + 1 < ev_seq x \<or> s + 1 = ev_seq x"
      by (auto simp: word_less_nat_alt word_unat_eq_iff)
    obtain need v where f: "fold gap_window (windows2 replay)
        (if s + 1 < ev_seq x then (True, s + 1) else (False, 0)) = (need, v)" by fastforce
    have p: "pl_need_peer_sync p = need" "pl_sync_from_seq p = v"
      using f Cons by (simp_all add: p_def plan_from_def Let_def s_def [symmetric] replay_def [symmetric])
    show ?thesis
    proof (cases "s + 1 < ev_seq x")
      case True
      then have "need" "v = s + 1" using f by (simp_all add: gap_fold_done)
      with True show ?thesis
        unfolding p r first_gap_def by (auto simp: Cons intro!: exI [of _ 0])
    next
      case False
      with first have sx: "ev_seq x = s + 1" by simp
      have "fold gap_window (windows2 (x # xs)) (False, 0) = (need, v)" using f False Cons by simp
      note g = gap_fold [OF this, unfolded sx]
      show ?thesis
        unfolding p r first_gap_def Cons using g by (auto simp: less_Suc_eq_le)
    qed
  qed
qed


subsection \<open>What the deduplicator remembers\<close>

definition dedup_inv :: "u64 set \<Rightarrow> nat \<Rightarrow> event_deduplicator \<Rightarrow> bool" where
  "dedup_inv prior n d \<longleftrightarrow> finite (dd_seen_seqs d) \<and> dd_seen_seqs d \<subseteq> prior \<and>
     (\<forall>s \<in> prior. s \<le> dd_max_seen d) \<and>
     (\<forall>s \<in> prior. u64_saturating_sub (dd_max_seen d) 50000 < s \<longrightarrow> s \<in> dd_seen_seqs d) \<and>
     card (dd_seen_seqs d) \<le> n \<and> (n \<le> 100000 \<longrightarrow> dd_seen_seqs d = prior)"

lemma saturating_mono: "a \<le> b \<Longrightarrow> u64_saturating_sub a c \<le> u64_saturating_sub b c"
  by (auto simp: u64_saturating_sub_def word_le_nat_alt unat_sub)

lemma dedup_check_inv:
  assumes inv: "dedup_inv prior n d" and run: "dedup_check d seq = (ok, d')"
  shows "(\<not> ok \<longrightarrow> seq \<in> prior) \<and>
    (seq \<in> prior \<and> (u64_saturating_sub (dd_max_seen d) 50000 < seq \<or> n \<le> 100000) \<longrightarrow> \<not> ok) \<and>
    dedup_inv (insert seq prior) (Suc n) d' \<and>
    dd_max_seen d' = max (dd_max_seen d) seq"
proof (cases "seq \<le> dd_max_seen d \<and> seq \<in> dd_seen_seqs d")
  case True
  then have ok: "\<not> ok" "d' = d" using run by (simp_all add: dedup_check_def)
  have "seq \<in> prior" using True inv by (auto simp: dedup_inv_def)
  then have "insert seq prior = prior" by auto
  then show ?thesis using ok inv True \<open>seq \<in> prior\<close>
    by (auto simp: dedup_inv_def max_def)
next
  case False
  let ?mx = "if dd_max_seen d < seq then seq else dd_max_seen d"
  let ?seen = "insert seq (dd_seen_seqs d)"
  have mx: "?mx = max (dd_max_seen d) seq" by (auto simp: max_def)
  have ok: "ok" and d': "dd_max_seen d' = ?mx"
    "dd_seen_seqs d' = (if 100000 < card ?seen then {s \<in> ?seen. u64_saturating_sub ?mx 50000 < s} else ?seen)"
    using run False by (auto simp: dedup_check_def Let_def)
  have new: "seq \<in> prior \<Longrightarrow> seq \<notin> dd_seen_seqs d"
    using False inv by (auto simp: dedup_inv_def)
  have keep: "u64_saturating_sub (dd_max_seen d) 50000 \<le> u64_saturating_sub ?mx 50000"
    by (rule saturating_mono) (auto intro: less_imp_le)
  have card: "card ?seen \<le> Suc n" and fin: "finite ?seen"
    using inv card_insert_le_m1 [of "Suc n" "dd_seen_seqs d" seq] by (auto simp: dedup_inv_def)
  have "card (dd_seen_seqs d') \<le> card ?seen"
    by (rule card_mono [OF fin]) (auto simp: d'(2))
  moreover have "Suc n \<le> 100000 \<longrightarrow> dd_seen_seqs d' = insert seq prior"
    using card inv by (auto simp: d' dedup_inv_def)
  moreover have "s \<in> dd_seen_seqs d'" if "s \<in> insert seq prior" "u64_saturating_sub ?mx 50000 < s" for s
  proof -
    have "s \<in> ?seen"
    proof (cases "s = seq")
      case False
      then have "s \<in> prior" using that(1) by simp
      moreover have "u64_saturating_sub (dd_max_seen d) 50000 < s"
        using keep that(2) by (rule order_le_less_trans)
      ultimately have "s \<in> dd_seen_seqs d" using inv unfolding dedup_inv_def by blast
      then show ?thesis by simp
    qed simp
    with that(2) show ?thesis unfolding d'(2) by simp
  qed
  moreover have "dd_seen_seqs d' \<subseteq> insert seq prior" "finite (dd_seen_seqs d')"
    using inv fin by (auto simp: d' dedup_inv_def)
  moreover have "s \<le> ?mx" if "s \<in> insert seq prior" for s
    using that inv by (auto simp: dedup_inv_def)
  ultimately have "dedup_inv (insert seq prior) (Suc n) d'"
    using card unfolding dedup_inv_def d'(1) by (meson order_trans)
  moreover have "\<not> (seq \<in> prior \<and> (u64_saturating_sub (dd_max_seen d) 50000 < seq \<or> n \<le> 100000))"
    using new inv by (auto simp: dedup_inv_def)
  ultimately show ?thesis using ok mx d'(1) by simp
qed

lemma dedup_run:
  assumes "dedup_inv prior n d" and "i < length seqs"
  shows "(\<not> fst (run_ops dedup_check d seqs) ! i \<longrightarrow> seqs ! i \<in> prior \<union> set (take i seqs)) \<and>
    (seqs ! i \<in> prior \<union> set (take i seqs) \<and>
      (u64_saturating_sub (fold max (take i seqs) (dd_max_seen d)) 50000 < seqs ! i \<or> n + i \<le> 100000) \<longrightarrow>
      \<not> fst (run_ops dedup_check d seqs) ! i)"
  using assms
proof (induction seqs arbitrary: d prior n i)
  case (Cons seq seqs)
  obtain ok d' where st: "dedup_check d seq = (ok, d')" by fastforce
  obtain oks d'' where run: "run_ops dedup_check d' seqs = (oks, d'')" by fastforce
  note step = dedup_check_inv [OF Cons.prems(1) st]
  show ?case
  proof (cases i)
    case 0
    then show ?thesis using step st run by simp
  next
    case (Suc j)
    have inv: "dedup_inv (insert seq prior) (Suc n) d'" and j: "j < length seqs"
      using step Cons.prems(2) Suc by auto
    have m: "fold max (take j seqs) (dd_max_seen d') = fold max (take i (seq # seqs)) (dd_max_seen d)"
      using step Suc by (simp add: max.commute)
    from Cons.IH [OF inv j] show ?thesis
      unfolding m using st run Suc by simp
  qed
qed simp

subsection \<open>Properties\<close>

text \<open>C8: Saving a snapshot is atomic: wherever a crash interrupts \<open>save_snapshot\<close>, even in the
  middle of a write, the next start loads either the snapshot that was latest before or the
  new one, never a torn file; and after an uninterrupted save it loads the new one.\<close>

theorem save_snapshot_atomic:
  assumes enc: "senc snap = Inr data" and "sdec data = Inr snap" and "snapshot_verify xxh3 snap"
  shows "(\<forall>fs'. crash_state (save_ops c snap data) fs fs' \<longrightarrow>
      load_latest_snapshot sdec xxh3 c fs' \<in> {load_latest_snapshot sdec xxh3 c fs, Inr (Some snap)}) \<and>
    (\<exists>fs'. save_snapshot senc c snap fs = (Inr (), fs') \<and> load_latest_snapshot sdec xxh3 c fs' = Inr (Some snap))"
proof -
  have new: "load_latest_snapshot sdec xxh3 c fs' = Inr (Some snap)" if "fs' (latest_path c) = Some data" for fs'
    using that assms by (simp add: load_latest_snapshot_def)
  have old: "load_latest_snapshot sdec xxh3 c fs' = load_latest_snapshot sdec xxh3 c fs"
    if "fs' (latest_path c) = fs (latest_path c)" for fs'
    using that by (simp add: load_latest_snapshot_def)
  have "load_latest_snapshot sdec xxh3 c fs' \<in> {load_latest_snapshot sdec xxh3 c fs, Inr (Some snap)}"
    if "crash_state (save_ops c snap data) fs fs'" for fs'
    using save_crash_latest [OF that] new [of fs'] old [of fs'] by blast
  moreover have "save_snapshot senc c snap fs = (Inr (), fold fs_apply (save_ops c snap data) fs)"
    by (simp add: save_snapshot_def enc)
  moreover have "load_latest_snapshot sdec xxh3 c (fold fs_apply (save_ops c snap data) fs) = Inr (Some snap)"
    by (rule new) (rule save_latest)
  ultimately show ?thesis by blast
qed

definition ex_snapshot :: engine_snapshot where
  "ex_snapshot = \<lparr>sn_seq = 4, sn_timestamp = 0, sn_state_hash = compute_hash (\<lambda>_. 7) [], sn_events_since_last = 0, sn_state_data = []\<rparr>"

lemma save_snapshot_atomic_witness:
  "\<exists>fs'. save_snapshot (\<lambda>_. Inr [1]) (coordinator_new ''d'' ''l'') ex_snapshot (\<lambda>_. None) = (Inr (), fs') \<and>
    load_latest_snapshot (\<lambda>_. Inr ex_snapshot) (\<lambda>_. 7) (coordinator_new ''d'' ''l'') fs' = Inr (Some ex_snapshot)"
proof -
  have "snapshot_verify (\<lambda>_. 7) ex_snapshot" by (simp add: snapshot_verify_def ex_snapshot_def)
  then show ?thesis
    using save_snapshot_atomic [of "\<lambda>_. Inr [1]" ex_snapshot "[1]" "\<lambda>_. Inr ex_snapshot" "\<lambda>_. 7"
        "coordinator_new ''d'' ''l''" "\<lambda>_. None"] by simp
qed



text \<open>C22: The deduplicator rejects only sequence numbers it has accepted before, and it does reject
  every repetition among the first 100,000 calls and, later, every repetition less than 50,000
  behind the highest number seen.\<close>

theorem dedup_exact:
  assumes "i < length seqs"
  shows "(\<not> fst (run_ops dedup_check dedup_new seqs) ! i \<longrightarrow> seqs ! i \<in> set (take i seqs)) \<and>
    (seqs ! i \<in> set (take i seqs) \<and>
      (i \<le> 100000 \<or> u64_saturating_sub (fold max (take i seqs) 0) 50000 < seqs ! i) \<longrightarrow>
      \<not> fst (run_ops dedup_check dedup_new seqs) ! i)"
proof -
  have "dedup_inv {} 0 dedup_new" by (simp add: dedup_inv_def dedup_new_def)
  from dedup_run [OF this assms] show ?thesis by (auto simp: dedup_new_def)
qed

lemma dedup_exact_witness:
  "\<not> fst (run_ops dedup_check dedup_new [5, 9, 5]) ! 2"
  using dedup_exact [of 2 "[5, 9, 5]"] by simp

text \<open> A deduplicator made by \<open>from_seq\<close> does not refuse the numbers up to its start: it accepts
  the first occurrence of every number, so that after a recovery the events up to the
  recovered one are processed again when a peer sends them.\<close>

theorem dedup_from_seq_accepts_old:
  "fst (dedup_check (dedup_from_seq start_seq) seq)"
  by (simp add: dedup_check_def dedup_from_seq_def Let_def)

end
