(* ===== verification/Signals.thy ===== *)
theory Signals
  imports Core_Types
begin

section \<open>atomic-strategy: microprice, inventory, toxicity (microprice.rs, inventory.rs, toxicity.rs)\<close>

text \<open>
  The three computations the market maker quotes from. Microprices are computed in \<open>i128\<close>,
  everything else in \<open>i64\<close>; divisions that can panic return \<^term>\<open>None\<close>.
\<close>

subsection \<open>Microprice\<close>

definition u64_as_i128 :: "u64 \<Rightarrow> i128" where
  "u64_as_i128 w = int (unat w)"

definition microprice :: "level \<Rightarrow> level \<Rightarrow> price option" where
  "microprice bid ask =
     (let bv = u64_as_i128 (lvl_qty bid); av = u64_as_i128 (lvl_qty ask); tot = i128_add bv av in
      if tot = 0 then Some (i64_quot (i64_add (lvl_price bid) (lvl_price ask)) 2)
      else map_option wrap_i64
        (i128_div (i128_add (i128_mul (lvl_price ask) bv) (i128_mul (lvl_price bid) av)) tot))"

text \<open>The loop \<open>for i in 0..d\<close> over \<open>(numerator, denominator)\<close>; \<open>w\<close> runs from \<open>d\<close> down.\<close>

fun micro_sums :: "nat \<Rightarrow> level list \<Rightarrow> level list \<Rightarrow> i128 \<times> i128 \<Rightarrow> i128 \<times> i128" where
  "micro_sums (Suc w) (b # bs) (a # as) (num, den) =
     (let bv = u64_as_i128 (lvl_qty b); av = u64_as_i128 (lvl_qty a); w' = int (Suc w) in
      micro_sums w bs as
        (i128_add num (i128_mul (i128_add (i128_mul (lvl_price a) bv) (i128_mul (lvl_price b) av)) w'),
         i128_add den (i128_mul (i128_add bv av) w')))"
| "micro_sums _ _ _ acc = acc"

definition compute_weighted :: "level list \<Rightarrow> level list \<Rightarrow> nat \<Rightarrow> price option" where
  "compute_weighted bids asks n =
     (if bids = [] \<or> asks = [] then Some 0
      else let d = min (min n (length bids)) (length asks) in
        if d = 0 then microprice (hd bids) (hd asks)
        else (let (num, den) = micro_sums d bids asks (0, 0) in
          if den = 0 then Some (i64_quot (i64_add (lvl_price (hd bids)) (lvl_price (hd asks))) 2)
          else map_option wrap_i64 (i128_div num den)))"

fun volume_sum :: "nat \<Rightarrow> level list \<Rightarrow> i128 \<Rightarrow> i128" where
  "volume_sum (Suc d) (l # ls) acc = volume_sum d ls (i128_add acc (u64_as_i128 (lvl_qty l)))"
| "volume_sum _ _ acc = acc"

definition imbalance :: "level list \<Rightarrow> level list \<Rightarrow> nat \<Rightarrow> i64 option" where
  "imbalance bids asks n =
     (let d = min (min n (length bids)) (length asks) in
      if d = 0 then Some 0
      else let bv = volume_sum d bids 0; av = volume_sum d asks 0; tot = i128_add bv av in
        if tot = 0 then Some 0
        else map_option wrap_i64 (i128_div (i128_mul (i128_sub bv av) 10000) tot))"

subsection \<open>Inventory\<close>

record inventory_manager =
  im_position_qty :: i64
  im_max_inventory :: i64
  im_gamma :: i64

definition inventory_new :: "i64 \<Rightarrow> i64 \<Rightarrow> inventory_manager" where
  "inventory_new mx g = \<lparr>im_position_qty = 0, im_max_inventory = mx, im_gamma = g\<rparr>"

definition inventory_on_fill :: "side \<Rightarrow> u64 \<Rightarrow> inventory_manager \<Rightarrow> inventory_manager" where
  "inventory_on_fill s q m =
     (let p = (case s of
         Buy \<Rightarrow> i64_add (im_position_qty m) (u64_as_i64 q)
       | Sell \<Rightarrow> i64_sub (im_position_qty m) (u64_as_i64 q))
      in m\<lparr>im_position_qty := (if p < 0 then 0 else p)\<rparr>)"

definition compute_skew :: "i64 \<Rightarrow> inventory_manager \<Rightarrow> i64 option" where
  "compute_skew half_spread m =
     (if im_max_inventory m = 0 then Some 0
      else map_option (\<lambda>inv_ratio.
          i64_quot (i64_mul (i64_quot (i64_mul inv_ratio (im_gamma m)) 10000) half_spread) 10000)
        (i64_div (i64_mul (im_position_qty m) 10000) (im_max_inventory m)))"

definition can_sell :: "inventory_manager \<Rightarrow> bool" where
  "can_sell m \<longleftrightarrow> 0 < im_position_qty m"

definition sellable_qty :: "u64 \<Rightarrow> inventory_manager \<Rightarrow> u64" where
  "sellable_qty desired m =
     (if im_position_qty m \<le> 0 then 0 else min desired (i64_as_u64 (im_position_qty m)))"

definition at_max :: "inventory_manager \<Rightarrow> bool" where
  "at_max m \<longleftrightarrow> im_max_inventory m \<le> im_position_qty m"

definition set_position :: "i64 \<Rightarrow> inventory_manager \<Rightarrow> inventory_manager" where
  "set_position q m = m\<lparr>im_position_qty := max q 0\<rparr>"

subsection \<open>Toxicity\<close>

record toxicity_tracker =
  tt_window :: "(side \<times> u64) list"
  tt_max_window :: usize
  tt_buy_volume :: u64
  tt_sell_volume :: u64
  tt_volatility_ema :: i64
  tt_last_price :: i64
  tt_vol_alpha :: i64
  tt_threshold :: i64

definition toxicity_new :: "usize \<Rightarrow> i64 \<Rightarrow> i64 \<Rightarrow> toxicity_tracker" where
  "toxicity_new mx al th = \<lparr>tt_window = [], tt_max_window = mx, tt_buy_volume = 0, tt_sell_volume = 0,
     tt_volatility_ema = 0, tt_last_price = 0, tt_vol_alpha = al, tt_threshold = th\<rparr>"

definition vol_update :: "i64 \<Rightarrow> toxicity_tracker \<Rightarrow> toxicity_tracker" where
  "vol_update p t =
     (let t' = (if 0 < tt_last_price t
        then (let delta = u64_as_i64 (i64_unsigned_abs (i64_sub p (tt_last_price t))) in
          t\<lparr>tt_volatility_ema := i64_quot (i64_add (i64_mul delta (tt_vol_alpha t))
               (i64_mul (tt_volatility_ema t) (i64_sub 10000 (tt_vol_alpha t)))) 10000\<rparr>)
        else t)
      in t'\<lparr>tt_last_price := p\<rparr>)"

definition add_volume :: "side \<Rightarrow> u64 \<Rightarrow> toxicity_tracker \<Rightarrow> toxicity_tracker" where
  "add_volume s q t = (case s of
     Buy \<Rightarrow> t\<lparr>tt_buy_volume := tt_buy_volume t + q\<rparr>
   | Sell \<Rightarrow> t\<lparr>tt_sell_volume := tt_sell_volume t + q\<rparr>)"

definition drop_volume :: "side \<times> u64 \<Rightarrow> toxicity_tracker \<Rightarrow> toxicity_tracker" where
  "drop_volume e t = (case fst e of
     Buy \<Rightarrow> t\<lparr>tt_buy_volume := u64_saturating_sub (tt_buy_volume t) (snd e)\<rparr>
   | Sell \<Rightarrow> t\<lparr>tt_sell_volume := u64_saturating_sub (tt_sell_volume t) (snd e)\<rparr>)"

text \<open>\<open>while self.window.len() > self.max_window\<close>, over the window as its own argument.\<close>

fun evict :: "(side \<times> u64) list \<Rightarrow> toxicity_tracker \<Rightarrow> toxicity_tracker" where
  "evict [] t = t\<lparr>tt_window := []\<rparr>"
| "evict (e # es) t =
     (if unat (tt_max_window t) < length (e # es) then evict es (drop_volume e t)
      else t\<lparr>tt_window := e # es\<rparr>)"

definition on_trade :: "side \<Rightarrow> u64 \<Rightarrow> i64 \<Rightarrow> toxicity_tracker \<Rightarrow> toxicity_tracker" where
  "on_trade s q p t =
     (let t = add_volume s q (vol_update p t) in evict (tt_window t @ [(s, q)]) t)"

definition vpin :: "toxicity_tracker \<Rightarrow> i64" where
  "vpin t =
     (let tot = tt_buy_volume t + tt_sell_volume t in
      if tot = 0 then 0
      else let diff = i64_unsigned_abs (i64_sub (u64_as_i64 (tt_buy_volume t)) (u64_as_i64 (tt_sell_volume t)))
        in u64_as_i64 (diff * 10000 div tot))"

definition is_toxic :: "toxicity_tracker \<Rightarrow> bool" where
  "is_toxic t \<longleftrightarrow> tt_threshold t < vpin t"

definition spread_multiplier :: "toxicity_tracker \<Rightarrow> i64" where
  "spread_multiplier t =
     (let vol = min (i64_mul (tt_volatility_ema t) 50) 10000
      in min (i64_add (i64_add 10000 (vpin t)) vol) 30000)"


subsection \<open>Weighted averages of prices\<close>

lemma mix_between:
  fixes a b lo hi :: int
  assumes "0 \<le> u" and "0 \<le> v" and "lo \<le> a" "a \<le> hi" "lo \<le> b" "b \<le> hi"
  shows "(u + v) * lo \<le> a * u + b * v \<and> a * u + b * v \<le> (u + v) * hi"
proof -
  have "lo * u \<le> a * u" "a * u \<le> hi * u" "lo * v \<le> b * v" "b * v \<le> hi * v"
    using assms by (auto intro: mult_right_mono)
  then show ?thesis by (simp add: algebra_simps)
qed

lemma abs_between:
  fixes x n lo hi :: int
  assumes "n * lo \<le> x" and "x \<le> n * hi" and "- B \<le> lo" and "hi \<le> B" and "0 \<le> n"
  shows "\<bar>x\<bar> \<le> n * B"
proof -
  have "n * (- B) \<le> n * lo" "n * hi \<le> n * B"
    using mult_left_mono [OF assms(3,5)] mult_left_mono [OF assms(4,5)] by simp_all
  with assms(1,2) show ?thesis by simp
qed

lemma below_127: "x \<le> k * 2 ^ 63 \<Longrightarrow> k < 2 ^ 64 \<Longrightarrow> x < (2 ^ 127 :: int)"
  by simp

text \<open>One step of the weighted sum, in exact arithmetic.\<close>

lemma mix_exact:
  assumes "lo \<le> pa" "pa \<le> hi" "lo \<le> pb" "pb \<le> hi" and "- (2 ^ 63) \<le> lo" "hi \<le> 2 ^ 63"
    and "unat qb + unat qa < 2 ^ 64"
  shows "i128_add (i128_mul pa (u64_as_i128 qb)) (i128_mul pb (u64_as_i128 qa)) =
      pa * int (unat qb) + pb * int (unat qa)"
    and "i128_add (u64_as_i128 qb) (u64_as_i128 qa) = int (unat qb + unat qa)"
proof -
  let ?u = "int (unat qb)" and ?v = "int (unat qa)"
  have uv: "?u + ?v < 2 ^ 64" using assms(7) by simp
  have "\<bar>pa\<bar> \<le> 2 ^ 63" "\<bar>pb\<bar> \<le> 2 ^ 63" using assms(1-6) by linarith+
  then have m: "\<bar>pa * ?u\<bar> \<le> 2 ^ 63 * ?u" "\<bar>pb * ?v\<bar> \<le> 2 ^ 63 * ?v"
    by (simp_all add: abs_mult mult_right_mono)
  have "2 ^ 63 * (?u + ?v) < 2 ^ 63 * 2 ^ 64"
    using uv by (rule mult_strict_left_mono) simp
  then have "2 ^ 63 * ?u + 2 ^ 63 * ?v < 2 ^ 127"
    by (simp add: distrib_left)
  then have b: "\<bar>pa * ?u\<bar> < 2 ^ 127" "\<bar>pb * ?v\<bar> < 2 ^ 127" "\<bar>pa * ?u + pb * ?v\<bar> < 2 ^ 127"
    using m by linarith+
  then show "i128_add (i128_mul pa (u64_as_i128 qb)) (i128_mul pb (u64_as_i128 qa)) = pa * ?u + pb * ?v"
    by (simp add: u64_as_i128_def i128_exact)
  have "\<bar>?u + ?v\<bar> < 2 ^ 127" using uv by simp
  then show "i128_add (u64_as_i128 qb) (u64_as_i128 qa) = int (unat qb + unat qa)"
    by (simp add: u64_as_i128_def i128_exact)
qed

text \<open>The total weight of the levels a weighted microprice looks at.\<close>

fun micro_weight :: "nat \<Rightarrow> level list \<Rightarrow> level list \<Rightarrow> nat" where
  "micro_weight (Suc w) (b # bs) (a # as) =
     Suc w * (unat (lvl_qty b) + unat (lvl_qty a)) + micro_weight w bs as"
| "micro_weight _ _ _ = 0"

definition prices_within :: "i64 \<Rightarrow> i64 \<Rightarrow> level list \<Rightarrow> bool" where
  "prices_within lo hi ls \<longleftrightarrow> (\<forall>l \<in> set ls. lo \<le> lvl_price l \<and> lvl_price l \<le> hi)"

lemma prices_within_simps [simp]:
  "prices_within lo hi []"
  "prices_within lo hi (l # ls) \<longleftrightarrow> lo \<le> lvl_price l \<and> lvl_price l \<le> hi \<and> prices_within lo hi ls"
  by (auto simp: prices_within_def)

lemma micro_sums_between:
  assumes "prices_within lo hi bs" and "prices_within lo hi as" and lim: "- (2 ^ 63) \<le> lo" "hi \<le> 2 ^ 63"
    and "n + micro_weight w bs as < 2 ^ 64" and "int n * lo \<le> num" and "num \<le> int n * hi"
  shows "\<exists>num'. micro_sums w bs as (num, int n) = (num', int (n + micro_weight w bs as)) \<and>
    int (n + micro_weight w bs as) * lo \<le> num' \<and> num' \<le> int (n + micro_weight w bs as) * hi"
  using assms
proof (induction w arbitrary: bs as num n)
  case (Suc w bs0 as0)
  show ?case
  proof (cases "bs0 = [] \<or> as0 = []")
    case True
    with Suc.prems show ?thesis by (cases bs0; cases as0) simp_all
  next
    case False
    then obtain b bs a as where ls: "bs0 = b # bs" "as0 = a # as" by (auto simp: neq_Nil_conv)
  let ?u = "unat (lvl_qty b)" and ?v = "unat (lvl_qty a)"
  let ?t = "lvl_price a * int ?u + lvl_price b * int ?v" and ?W = "int (Suc w)"
  let ?m = "Suc w * (?u + ?v)"
  have wt: "n + ?m + micro_weight w bs as < 2 ^ 64" using Suc.prems(5) by (simp add: ls)
  have "?u + ?v \<le> ?m" by simp
  then have uv: "?u + ?v < 2 ^ 64" using wt by linarith
  have pr: "lo \<le> lvl_price a" "lvl_price a \<le> hi" "lo \<le> lvl_price b" "lvl_price b \<le> hi"
    using Suc.prems(1,2) by (auto simp: ls)
  note ex = mix_exact [OF pr lim uv]
  have t: "int (?u + ?v) * lo \<le> ?t" "?t \<le> int (?u + ?v) * hi"
    using mix_between [of "int ?u" "int ?v", OF _ _ pr] by simp_all
  have "?W * (int (?u + ?v) * lo) \<le> ?W * ?t" "?W * ?t \<le> ?W * (int (?u + ?v) * hi)"
    using t by (auto intro: mult_left_mono simp del: of_nat_Suc)
  then have wtb: "int ?m * lo \<le> ?W * ?t" "?W * ?t \<le> int ?m * hi"
    by (simp_all only: of_nat_mult mult.assoc)
  have sum: "int (n + ?m) * lo \<le> num + ?W * ?t" "num + ?W * ?t \<le> int (n + ?m) * hi"
    using wtb Suc.prems(6,7) by (simp_all only: of_nat_add distrib_right)
  have m64: "int ?m < 2 ^ 64" "int (n + ?m) < 2 ^ 64"
    unfolding of_nat_less_numeral_power_cancel_iff using wt by linarith+
  have small: "\<bar>?W * ?t\<bar> < 2 ^ 127" "\<bar>num + ?W * ?t\<bar> < 2 ^ 127"
  proof -
    have "\<bar>?W * ?t\<bar> \<le> int ?m * 2 ^ 63" "\<bar>num + ?W * ?t\<bar> \<le> int (n + ?m) * 2 ^ 63"
      by (rule abs_between [OF wtb lim], simp) (rule abs_between [OF sum lim], simp)
    then show "\<bar>?W * ?t\<bar> < 2 ^ 127" "\<bar>num + ?W * ?t\<bar> < 2 ^ 127"
      using below_127 m64 by blast+
  qed
  have num: "i128_add num (i128_mul ?t ?W) = num + ?W * ?t"
    using small by (simp only: i128_exact mult.commute [of ?t])
  have den: "i128_add (int n) (i128_mul (int (?u + ?v)) ?W) = int (n + ?m)"
  proof -
    have "int ?m < 2 ^ 127" "int (n + ?m) < 2 ^ 127"
      by (rule order_less_trans [OF m64(1)], simp) (rule order_less_trans [OF m64(2)], simp)
    moreover have "int (?u + ?v) * ?W = int ?m" by (simp only: of_nat_mult mult.commute)
    ultimately show ?thesis
      by (simp add: i128_exact del: of_nat_mult of_nat_Suc of_nat_add)
  qed
  have step: "micro_sums (Suc w) (b # bs) (a # as) (num, int n) = micro_sums w bs as (num + ?W * ?t, int (n + ?m))"
    by (simp only: micro_sums.simps Let_def ex num den)
  have "\<exists>num'. micro_sums w bs as (num + ?W * ?t, int (n + ?m)) = (num', int (n + ?m + micro_weight w bs as)) \<and>
    int (n + ?m + micro_weight w bs as) * lo \<le> num' \<and> num' \<le> int (n + ?m + micro_weight w bs as) * hi"
    using Suc.prems(1,2) sum wt lim by (intro Suc.IH) (simp_all add: ls)
  then show ?thesis unfolding ls step micro_weight.simps by (simp only: add.assoc)
  qed
qed simp


lemma half_between:
  assumes "lo \<le> a" "a \<le> hi" "lo \<le> b" "b \<le> hi" and "in_i64 (a + b)"
  shows "lo \<le> i64_quot (i64_add a b) 2 \<and> i64_quot (i64_add a b) 2 \<le> hi"
  using assms sdiv_between [of 2 lo "a + b" hi] by (simp add: i64_add_exact i64_quot_def)

lemma quotient_between:
  assumes "int n * lo \<le> num" and "num \<le> int n * hi" and "0 < n" and lim: "- (2 ^ 63) \<le> lo" "hi < 2 ^ 63"
  shows "\<exists>p. map_option wrap_i64 (i128_div num (int n)) = Some p \<and> p = num sdiv int n \<and> lo \<le> p \<and> p \<le> hi"
proof -
  have q: "lo \<le> num sdiv int n" "num sdiv int n \<le> hi"
    using sdiv_between [OF assms(3,1,2)] by auto
  then have "in_i64 (num sdiv int n)" using lim by (simp add: in_i64_def)
  with q assms(3) show ?thesis by (simp add: i128_div_def)
qed

lemma microprice_between:
  assumes pr: "lo \<le> lvl_price a" "lvl_price a \<le> hi" "lo \<le> lvl_price b" "lvl_price b \<le> hi"
    and lim: "- (2 ^ 63) \<le> lo" "hi < 2 ^ 63" and sum: "in_i64 (lvl_price b + lvl_price a)"
    and "unat (lvl_qty b) + unat (lvl_qty a) < 2 ^ 64"
  shows "\<exists>p. microprice b a = Some p \<and> lo \<le> p \<and> p \<le> hi"
proof -
  let ?u = "unat (lvl_qty b)" and ?v = "unat (lvl_qty a)"
  have "hi \<le> 2 ^ 63" using lim(2) by simp
  note ex = mix_exact [OF pr lim(1) this assms(8)]
  have t: "int (?u + ?v) * lo \<le> lvl_price a * int ?u + lvl_price b * int ?v"
      "lvl_price a * int ?u + lvl_price b * int ?v \<le> int (?u + ?v) * hi"
    using mix_between [of "int ?u" "int ?v", OF _ _ pr] by simp_all
  show ?thesis
  proof (cases "?u + ?v = 0")
    case True
    then show ?thesis
      using half_between [OF pr(3,4) pr(1,2) sum] unfolding microprice_def Let_def ex by simp
  next
    case False
    then have pos: "0 < ?u + ?v" and nz: "int (?u + ?v) \<noteq> 0"
      using of_nat_eq_0_iff [of "?u + ?v", where ?'a = int] by auto
    from quotient_between [OF t pos lim] show ?thesis
      unfolding microprice_def Let_def ex if_not_P [OF nz] by blast
  qed
qed

lemma weighted_between:
  assumes "prices_within lo hi bids" and "prices_within lo hi asks" and lim: "- (2 ^ 63) \<le> lo" "hi < 2 ^ 63"
    and ne: "bids \<noteq> []" "asks \<noteq> []" and sum: "in_i64 (lvl_price (hd bids) + lvl_price (hd asks))"
    and w: "micro_weight (min (min n (length bids)) (length asks)) bids asks < 2 ^ 64"
    and top: "unat (lvl_qty (hd bids)) + unat (lvl_qty (hd asks)) < 2 ^ 64"
  shows "\<exists>p. compute_weighted bids asks n = Some p \<and> lo \<le> p \<and> p \<le> hi"
proof -
  define d where "d = min (min n (length bids)) (length asks)"
  have hds: "lo \<le> lvl_price (hd bids)" "lvl_price (hd bids) \<le> hi" "lo \<le> lvl_price (hd asks)" "lvl_price (hd asks) \<le> hi"
    using assms(1,2) ne by (auto simp: prices_within_def)
  note w = w [folded d_def]
  show ?thesis
  proof (cases "d = 0")
    case True
    then show ?thesis
      using microprice_between [OF hds(3,4,1,2) lim sum top] ne unfolding compute_weighted_def Let_def d_def [symmetric] by auto
  next
    case False
    have lim': "hi \<le> 2 ^ 63" using lim(2) by simp
    obtain num where num: "micro_sums d bids asks (0, int 0) = (num, int (0 + micro_weight d bids asks))"
        "int (0 + micro_weight d bids asks) * lo \<le> num" "num \<le> int (0 + micro_weight d bids asks) * hi"
      using micro_sums_between [OF assms(1,2) lim(1) lim', of 0 d 0] w by auto
    let ?W = "micro_weight d bids asks"
    have cw: "compute_weighted bids asks n = (if int ?W = 0
        then Some (i64_quot (i64_add (lvl_price (hd bids)) (lvl_price (hd asks))) 2)
        else map_option wrap_i64 (i128_div num (int ?W)))"
      using num(1) ne False unfolding compute_weighted_def Let_def d_def [symmetric] by simp
    show ?thesis
    proof (cases "?W = 0")
      case True
      then show ?thesis using half_between [OF hds sum] unfolding cw by simp
    next
      case W: False
      then have "0 < ?W" and nz: "int ?W \<noteq> 0" by simp_all
      with quotient_between [OF _ _ this(1) lim, of num] num(2,3) show ?thesis
        unfolding cw if_not_P [OF nz] by auto
    qed
  qed
qed

subsection \<open>Inventory\<close>

lemma in_i64_position:
  "in_i64 (im_position_qty (inventory_on_fill s q m))" "0 \<le> im_position_qty (inventory_on_fill s q m)"
  by (auto simp: inventory_on_fill_def Let_def in_i64_def [of 0] split: side.split)

definition inventory_wf :: "inventory_manager \<Rightarrow> bool" where
  "inventory_wf m \<longleftrightarrow> in_i64 (im_position_qty m) \<and> 0 \<le> im_position_qty m"

lemma inventory_wf_intros [wf_intros]:
  "inventory_wf (inventory_new mx g)" "inventory_wf (inventory_on_fill s q m)"
  "in_i64 q' \<Longrightarrow> inventory_wf (set_position q' m)"
  using in_i64_position by (auto simp: inventory_wf_def inventory_new_def set_position_def in_i64_def max_def)

lemma sellable_le:
  assumes "inventory_wf m"
  shows "int (unat (sellable_qty d m)) \<le> im_position_qty m \<and> sellable_qty d m \<le> d \<and>
    (sellable_qty d m \<noteq> 0 \<longrightarrow> can_sell m)"
proof -
  have "int (unat (i64_as_u64 (im_position_qty m))) = im_position_qty m"
    using assms by (simp add: inventory_wf_def i64_as_u64_def in_i64_def of_nat_unat uint_word_of_int_eq take_bit_int_eq_self)
  then show ?thesis
    using assms by (auto simp: sellable_qty_def inventory_wf_def can_sell_def min_def word_le_nat_alt)
qed

lemma skew_bounds:
  assumes pos: "0 \<le> im_position_qty m" "im_position_qty m \<le> im_max_inventory m" "0 < im_max_inventory m"
    and g: "0 \<le> im_gamma m" "im_gamma m \<le> 10000" and hs: "0 \<le> hs" "hs * 10000 < 2 ^ 63"
    and small: "im_position_qty m * 10000 < 2 ^ 63"
  shows "\<exists>k. compute_skew hs m = Some k \<and> 0 \<le> k \<and> k \<le> hs \<and>
    k = (im_position_qty m * 10000 div im_max_inventory m) * im_gamma m div 10000 * hs div 10000"
proof -
  let ?p = "im_position_qty m" and ?M = "im_max_inventory m" and ?g = "im_gamma m"
  let ?r = "?p * 10000 div ?M"
  have "?p * 10000 \<le> ?M * 10000" using pos by simp
  then have r: "0 \<le> ?r" "?r \<le> 10000"
    using pos zdiv_mono1 [of "?p * 10000" "?M * 10000" ?M] by (auto simp: pos_imp_zdiv_nonneg_iff)
  have rg: "0 \<le> ?r * ?g" "?r * ?g \<le> 10000 * 10000"
    using r g mult_mono [of ?r 10000 ?g 10000] by (auto intro: mult_nonneg_nonneg)
  then have q: "0 \<le> ?r * ?g div 10000" "?r * ?g div 10000 \<le> 10000" by linarith+
  have qh: "0 \<le> ?r * ?g div 10000 * hs" "?r * ?g div 10000 * hs \<le> 10000 * hs"
    using q hs by (auto intro: mult_nonneg_nonneg mult_right_mono)
  have "in_i64 (?p * 10000)" "in_i64 (?r * ?g)" "in_i64 (?r * ?g div 10000 * hs)"
  proof -
    show "in_i64 (?p * 10000)" using pos small by (intro in_i64_nonneg) auto
    show "in_i64 (?r * ?g)" using rg by (intro in_i64_nonneg) auto
    have "10000 * hs < 2 ^ 63" using hs(2) by (simp only: mult.commute)
    then show "in_i64 (?r * ?g div 10000 * hs)"
      by (intro in_i64_nonneg qh(1) order_le_less_trans [OF qh(2)])
  qed
  then have "compute_skew hs m = Some (?r * ?g div 10000 * hs div 10000)"
    using pos rg qh by (simp add: compute_skew_def i64_mul_exact i64_div_def i64_quot_def sdiv_nonneg)
  moreover have "?r * ?g div 10000 * hs div 10000 \<le> hs" using qh by linarith
  ultimately show ?thesis using qh by auto
qed


subsection \<open>Toxicity over a run of trades\<close>

definition side_volume :: "side \<Rightarrow> (side \<times> u64) list \<Rightarrow> nat" where
  "side_volume s w = total (map snd (filter (\<lambda>e. fst e = s) w))"

lemma side_volume_simps [simp]:
  "side_volume s [] = 0"
  "side_volume s (e # w) = (if fst e = s then unat (snd e) else 0) + side_volume s w"
  "side_volume s (w @ w') = side_volume s w + side_volume s w'"
  by (simp_all add: side_volume_def)

lemma side_volume_le:
  assumes "\<forall>e \<in> set w. unat (snd e) \<le> Q"
  shows "side_volume Buy w + side_volume Sell w \<le> length w * Q"
  using assms
proof (induction w)
  case (Cons e w)
  then have "side_volume Buy w + side_volume Sell w \<le> length w * Q" "unat (snd e) \<le> Q" by auto
  then show ?case by (cases "fst e") auto
qed simp

definition volumes_exact :: "(side \<times> u64) list \<Rightarrow> toxicity_tracker \<Rightarrow> bool" where
  "volumes_exact w t \<longleftrightarrow> unat (tt_buy_volume t) = side_volume Buy w \<and> unat (tt_sell_volume t) = side_volume Sell w"

lemma drop_volume_exact: "volumes_exact (e # es) t \<Longrightarrow> volumes_exact es (drop_volume e t)"
  by (cases "fst e")
    (auto simp: volumes_exact_def drop_volume_def u64_saturating_sub_def word_le_nat_alt unat_sub)

lemma drop_volume_frame [frame_simps]:
  "tt_max_window (drop_volume e t) = tt_max_window t" "tt_volatility_ema (drop_volume e t) = tt_volatility_ema t"
  "tt_last_price (drop_volume e t) = tt_last_price t" "tt_vol_alpha (drop_volume e t) = tt_vol_alpha t"
  "tt_threshold (drop_volume e t) = tt_threshold t"
  by (simp_all add: drop_volume_def split: side.split)

lemma evict_exact:
  assumes "volumes_exact es t"
  shows "tt_window (evict es t) = drop (length es - unat (tt_max_window t)) es \<and>
    volumes_exact (drop (length es - unat (tt_max_window t)) es) (evict es t) \<and>
    tt_max_window (evict es t) = tt_max_window t \<and> tt_volatility_ema (evict es t) = tt_volatility_ema t \<and>
    tt_last_price (evict es t) = tt_last_price t \<and> tt_vol_alpha (evict es t) = tt_vol_alpha t \<and>
    tt_threshold (evict es t) = tt_threshold t"
  using assms
proof (induction es arbitrary: t)
  case (Cons e es)
  show ?case
  proof (cases "unat (tt_max_window t) < length (e # es)")
    case True
    with Cons.IH [OF drop_volume_exact [OF Cons.prems]] show ?thesis
      by (simp add: frame_simps Suc_diff_le)
  qed (use Cons.prems in \<open>simp add: volumes_exact_def\<close>)
qed (simp add: volumes_exact_def)

text \<open>A trade as \<open>(side, qty, price)\<close>, and the bounds under which nothing overflows.\<close>

definition run_trades :: "(side \<times> u64 \<times> i64) list \<Rightarrow> toxicity_tracker \<Rightarrow> toxicity_tracker" where
  "run_trades trades t = foldl (\<lambda>t (s, q, p). on_trade s q p t) t trades"

definition trade_ok :: "nat \<Rightarrow> int \<Rightarrow> side \<times> u64 \<times> i64 \<Rightarrow> bool" where
  "trade_ok Q P e \<longleftrightarrow> unat (fst (snd e)) \<le> Q \<and> 0 \<le> snd (snd e) \<and> snd (snd e) \<le> P"

definition tracker_inv :: "nat \<Rightarrow> int \<Rightarrow> toxicity_tracker \<Rightarrow> bool" where
  "tracker_inv Q P t \<longleftrightarrow> volumes_exact (tt_window t) t \<and> length (tt_window t) \<le> unat (tt_max_window t) \<and>
     (\<forall>e \<in> set (tt_window t). unat (snd e) \<le> Q) \<and>
     0 \<le> tt_volatility_ema t \<and> tt_volatility_ema t \<le> P \<and> 0 \<le> tt_last_price t \<and> tt_last_price t \<le> P"

lemma vol_update_bounds:
  assumes "0 \<le> tt_volatility_ema t" "tt_volatility_ema t \<le> P" "0 \<le> tt_last_price t" "tt_last_price t \<le> P"
    and "0 \<le> tt_vol_alpha t" "tt_vol_alpha t \<le> 10000" and p: "0 \<le> p" "p \<le> P" and P: "P * 10000 < 2 ^ 63"
  shows "0 \<le> tt_volatility_ema (vol_update p t) \<and> tt_volatility_ema (vol_update p t) \<le> P \<and>
    tt_last_price (vol_update p t) = p"
proof (cases "0 < tt_last_price t")
  case False
  with assms show ?thesis by (simp add: vol_update_def Let_def)
next
  case True
  let ?a = "tt_vol_alpha t" and ?e = "tt_volatility_ema t" and ?d = "\<bar>p - tt_last_price t\<bar>"
  have d: "0 \<le> ?d" "?d \<le> P" using assms by auto
  have P': "0 \<le> P" "P < 2 ^ 63" using P d by auto
  have "in_i64 (p - tt_last_price t)" using d P' by (intro in_i64_absI) linarith
  then have sub: "i64_sub p (tt_last_price t) = p - tt_last_price t" by (rule i64_sub_exact)
  have "unat (word_of_int ?d :: u64) = nat ?d"
    using d P' by (simp add: unat_eq_nat_uint uint_word_of_int_eq take_bit_int_eq_self)
  then have delta: "u64_as_i64 (i64_unsigned_abs (p - tt_last_price t)) = ?d"
    using d P' unfolding i64_unsigned_abs_def by (subst u64_as_i64_small) auto
  have b: "0 \<le> ?d * ?a" "?d * ?a \<le> P * ?a" "0 \<le> ?e * (10000 - ?a)" "?e * (10000 - ?a) \<le> P * (10000 - ?a)"
    using assms d by (auto intro: mult_nonneg_nonneg mult_right_mono)
  have sum: "P * ?a + P * (10000 - ?a) = P * 10000" by (simp add: algebra_simps)
  have small: "?d * ?a < 2 ^ 63" "?e * (10000 - ?a) < 2 ^ 63" "?d * ?a + ?e * (10000 - ?a) < 2 ^ 63"
    using b sum P by linarith+
  have alpha: "i64_sub 10000 ?a = 10000 - ?a"
    using assms(5,6) by (intro i64_sub_exact in_i64_nonneg) auto
  have ema: "tt_volatility_ema (vol_update p t) = (?d * ?a + ?e * (10000 - ?a)) div 10000"
    using True b small
    by (simp add: vol_update_def Let_def sub delta alpha i64_mul_exact i64_add_exact in_i64_nonneg
        i64_quot_def sdiv_nonneg del: int_distrib)
  have "?d * ?a + ?e * (10000 - ?a) \<le> P * 10000" using b sum by linarith
  then have "(?d * ?a + ?e * (10000 - ?a)) div 10000 \<le> P" by linarith
  moreover have "0 \<le> (?d * ?a + ?e * (10000 - ?a)) div 10000" using b by linarith
  ultimately show ?thesis by (simp add: ema) (simp add: vol_update_def Let_def)
qed

lemma vol_update_frame [frame_simps]:
  "tt_window (vol_update p t) = tt_window t" "tt_max_window (vol_update p t) = tt_max_window t"
  "tt_buy_volume (vol_update p t) = tt_buy_volume t" "tt_sell_volume (vol_update p t) = tt_sell_volume t"
  "tt_vol_alpha (vol_update p t) = tt_vol_alpha t" "tt_threshold (vol_update p t) = tt_threshold t"
  by (simp_all add: vol_update_def Let_def)

lemma add_volume_frame [frame_simps]:
  "tt_window (add_volume s q t) = tt_window t" "tt_max_window (add_volume s q t) = tt_max_window t"
  "tt_volatility_ema (add_volume s q t) = tt_volatility_ema t" "tt_last_price (add_volume s q t) = tt_last_price t"
  "tt_vol_alpha (add_volume s q t) = tt_vol_alpha t" "tt_threshold (add_volume s q t) = tt_threshold t"
  by (simp_all add: add_volume_def split: side.split)

lemma add_volume_exact:
  assumes "volumes_exact w t" and "side_volume Buy w + side_volume Sell w + unat q < 2 ^ 64"
  shows "volumes_exact (w @ [(s, q)]) (add_volume s q t)"
proof -
  have "unat (tt_buy_volume t + q) = unat (tt_buy_volume t) + unat q"
    "unat (tt_sell_volume t + q) = unat (tt_sell_volume t) + unat q"
    using assms by (simp_all add: volumes_exact_def unat_word_ariths)
  with assms(1) show ?thesis
    by (cases s) (simp_all add: volumes_exact_def add_volume_def)
qed

lemma on_trade_inv:
  assumes inv: "tracker_inv Q P t" and ok: "trade_ok Q P (s, q, p)"
    and al: "0 \<le> tt_vol_alpha t" "tt_vol_alpha t \<le> 10000"
    and Q: "(unat (tt_max_window t) + 1) * Q < 2 ^ 64" and P: "P * 10000 < 2 ^ 63"
  shows "tracker_inv Q P (on_trade s q p t)"
    and "tt_window (on_trade s q p t) = (let w = tt_window t @ [(s, q)] in drop (length w - unat (tt_max_window t)) w)"
    and "tt_max_window (on_trade s q p t) = tt_max_window t" "tt_vol_alpha (on_trade s q p t) = tt_vol_alpha t"
proof -
  let ?w = "tt_window t"
  define u where "u = add_volume s q (vol_update p t)"
  have qs: "unat q \<le> Q" and ps: "0 \<le> p" "p \<le> P" using ok by (simp_all add: trade_ok_def)
  have "side_volume Buy ?w + side_volume Sell ?w \<le> length ?w * Q"
    using inv by (intro side_volume_le) (simp add: tracker_inv_def)
  also have "\<dots> \<le> unat (tt_max_window t) * Q"
    using inv by (intro mult_right_mono) (simp_all add: tracker_inv_def)
  finally have "side_volume Buy ?w + side_volume Sell ?w + unat q \<le> (unat (tt_max_window t) + 1) * Q"
    using qs by simp
  then have room: "side_volume Buy ?w + side_volume Sell ?w + unat q < 2 ^ 64"
    using Q by linarith
  have "volumes_exact ?w (vol_update p t)"
    using inv by (simp add: tracker_inv_def volumes_exact_def frame_simps)
  from add_volume_exact [OF this room] have "volumes_exact (?w @ [(s, q)]) u" by (simp add: u_def)
  note ev = evict_exact [OF this]
  have ot: "on_trade s q p t = evict (?w @ [(s, q)]) u"
    by (simp add: on_trade_def Let_def u_def frame_simps)
  have vb: "0 \<le> tt_volatility_ema (vol_update p t) \<and> tt_volatility_ema (vol_update p t) \<le> P \<and> tt_last_price (vol_update p t) = p"
    using inv al P ps by (intro vol_update_bounds) (auto simp: tracker_inv_def)
  have u: "tt_max_window u = tt_max_window t" "tt_vol_alpha u = tt_vol_alpha t"
    "tt_volatility_ema u = tt_volatility_ema (vol_update p t)" "tt_last_price u = p"
    using vb by (simp_all add: u_def frame_simps)
  have win: "tt_window (on_trade s q p t) = drop (length (?w @ [(s, q)]) - unat (tt_max_window t)) (?w @ [(s, q)])"
    using ev by (simp only: ot u)
  have "set (tt_window (on_trade s q p t)) \<subseteq> set (?w @ [(s, q)])" unfolding win by (rule set_drop_subset)
  then have "\<forall>e \<in> set (tt_window (on_trade s q p t)). unat (snd e) \<le> Q"
    using inv qs by (auto simp: tracker_inv_def)
  moreover have "length (tt_window (on_trade s q p t)) \<le> unat (tt_max_window t)"
    unfolding win by simp
  moreover have "volumes_exact (tt_window (on_trade s q p t)) (on_trade s q p t)"
    unfolding win using ev by (simp only: ot u)
  moreover have "tt_volatility_ema (on_trade s q p t) = tt_volatility_ema u" "tt_last_price (on_trade s q p t) = p"
    "tt_max_window (on_trade s q p t) = tt_max_window t"
    using ev u by (simp_all add: ot)
  ultimately show "tracker_inv Q P (on_trade s q p t)"
    using vb u ps unfolding tracker_inv_def by simp
  show "tt_window (on_trade s q p t) = (let w = ?w @ [(s, q)] in drop (length w - unat (tt_max_window t)) w)"
    unfolding Let_def by (rule win)
  show "tt_max_window (on_trade s q p t) = tt_max_window t" "tt_vol_alpha (on_trade s q p t) = tt_vol_alpha t"
    using ev u by (simp_all add: ot)
qed


lemma run_trades_inv:
  assumes "\<forall>e \<in> set trades. trade_ok Q P e" and "0 \<le> al" "al \<le> 10000"
    and Q: "(unat mx + 1) * Q < 2 ^ 64" and P: "P * 10000 < 2 ^ 63" "0 \<le> P"
  shows "tracker_inv Q P (run_trades trades (toxicity_new mx al th)) \<and>
    tt_window (run_trades trades (toxicity_new mx al th)) =
      drop (length trades - unat mx) (map (\<lambda>(s, q, p). (s, q)) trades) \<and>
    tt_max_window (run_trades trades (toxicity_new mx al th)) = mx \<and>
    tt_vol_alpha (run_trades trades (toxicity_new mx al th)) = al"
  using assms(1)
proof (induction trades rule: rev_induct)
  case Nil
  show ?case using P(2)
    by (simp add: run_trades_def toxicity_new_def tracker_inv_def volumes_exact_def)
next
  case (snoc e trades)
  obtain s q p where e: "e = (s, q, p)" by (cases e)
  let ?t = "run_trades trades (toxicity_new mx al th)"
  have t: "tracker_inv Q P ?t" "tt_max_window ?t = mx" "tt_vol_alpha ?t = al"
    "tt_window ?t = drop (length trades - unat mx) (map (\<lambda>(s, q, p). (s, q)) trades)"
    using snoc by auto
  have ok: "trade_ok Q P (s, q, p)" using snoc.prems e by simp
  have al: "0 \<le> tt_vol_alpha ?t" "tt_vol_alpha ?t \<le> 10000" and Q': "(unat (tt_max_window ?t) + 1) * Q < 2 ^ 64"
    using assms t by simp_all
  note step = on_trade_inv [OF t(1) ok al Q' P(1)]
  have run: "run_trades (trades @ [e]) (toxicity_new mx al th) = on_trade s q p ?t"
    by (simp add: run_trades_def e)
  have "drop (length (drop k xs @ [y]) - n) (drop k xs @ [y]) = drop (Suc (length xs) - n) (xs @ [y])"
    if "k = length xs - n" for k n and xs :: "(side \<times> u64) list" and y
    using that by (cases "n \<le> length xs") (auto simp: Suc_diff_le)
  then have "tt_window (on_trade s q p ?t) =
      drop (length (trades @ [e]) - unat mx) (map (\<lambda>(s, q, p). (s, q)) (trades @ [e]))"
    unfolding step(2) t(2,4) Let_def
    by (metis (no_types, lifting) e case_prod_conv length_append_singleton length_map list.simps(8,9) map_append)
  with step t show ?case unfolding run by simp
qed

lemma scale_less: "a \<le> b \<Longrightarrow> b * 10000 < (k :: nat) \<Longrightarrow> a * 10000 < k"
  by simp

lemma div_le_factor: "a \<le> k * n \<Longrightarrow> a div n \<le> (k :: nat)"
  by (cases "n = 0") (auto dest: div_le_mono [of _ _ n])

lemma vpin_exact:
  assumes "volumes_exact w t" and "(side_volume Buy w + side_volume Sell w) * 10000 < 2 ^ 63"
  shows "vpin t = \<bar>int (side_volume Buy w) - int (side_volume Sell w)\<bar> * 10000 div
    int (side_volume Buy w + side_volume Sell w)" and "0 \<le> vpin t" and "vpin t \<le> 10000"
proof -
  let ?b = "side_volume Buy w" and ?s = "side_volume Sell w"
  let ?d = "nat \<bar>int ?b - int ?s\<bar>"
  have v: "unat (tt_buy_volume t) = ?b" "unat (tt_sell_volume t) = ?s"
    using assms(1) by (simp_all add: volumes_exact_def)
  have small: "?b < 2 ^ 63" "?s < 2 ^ 63" "?b + ?s < 2 ^ 63" "?d \<le> ?b + ?s" using assms(2) by simp_all
  have tot: "unat (tt_buy_volume t + tt_sell_volume t) = ?b + ?s"
    using v small by (simp add: unat_word_ariths)
  have "in_i64 (int ?b - int ?s)" using small by (simp add: in_i64_def)
  then have diff: "i64_unsigned_abs (i64_sub (u64_as_i64 (tt_buy_volume t)) (u64_as_i64 (tt_sell_volume t))) = of_nat ?d"
    using v small by (simp add: u64_as_i64_small i64_sub_exact i64_unsigned_abs_def)
  have "?d * 10000 < 2 ^ 63" by (rule scale_less [OF small(4) assms(2)])
  then have "unat (of_nat ?d * 10000 :: u64) = ?d * 10000"
    using unat_of_nat_u64 [of "?d * 10000"] by simp
  then have q: "unat (of_nat ?d * 10000 div (tt_buy_volume t + tt_sell_volume t)) = ?d * 10000 div (?b + ?s)"
    by (simp add: unat_div tot)
  have le: "?d * 10000 div (?b + ?s) \<le> 10000"
    by (rule div_le_factor) (use small(4) in simp)
  have nz: "tt_buy_volume t + tt_sell_volume t = 0 \<longleftrightarrow> ?b + ?s = 0"
    using tot unat_eq_zero by metis
  have vp: "vpin t = int (?d * 10000 div (?b + ?s))"
  proof (cases "?b + ?s = 0")
    case True
    then show ?thesis by (simp add: vpin_def nz del: add_is_0)
  next
    case False
    have "u64_as_i64 (of_nat ?d * 10000 div (tt_buy_volume t + tt_sell_volume t)) = int (?d * 10000 div (?b + ?s))"
      using le q by (subst u64_as_i64_small) simp_all
    with False show ?thesis by (simp only: vpin_def nz diff Let_def if_False)
  qed
  then show "vpin t = \<bar>int ?b - int ?s\<bar> * 10000 div int (?b + ?s)"
    by (simp add: zdiv_int)
  show "0 \<le> vpin t" "vpin t \<le> 10000" using vp le by simp_all
qed

lemma multiplier_bounds:
  assumes "0 \<le> vpin t" "vpin t \<le> 10000" and "0 \<le> tt_volatility_ema t" "tt_volatility_ema t * 50 < 2 ^ 63"
  shows "spread_multiplier t = 10000 + vpin t + min (tt_volatility_ema t * 50) 10000"
    and "10000 \<le> spread_multiplier t" and "spread_multiplier t \<le> 30000"
proof -
  have "i64_mul (tt_volatility_ema t) 50 = tt_volatility_ema t * 50"
    using assms by (intro i64_mul_exact in_i64_nonneg) auto
  moreover have "in_i64 (10000 + vpin t)" "in_i64 (10000 + vpin t + min (tt_volatility_ema t * 50) 10000)"
    using assms by (auto simp: in_i64_def)
  ultimately show "spread_multiplier t = 10000 + vpin t + min (tt_volatility_ema t * 50) 10000"
    using assms by (simp add: spread_multiplier_def Let_def i64_add_exact)
  then show "10000 \<le> spread_multiplier t" and "spread_multiplier t \<le> 30000" using assms by auto
qed

subsection \<open>Properties\<close>

text \<open> When the level sums do not overflow, the weighted microprice exists (no division
  panics) and lies within the prices it averages: between the lowest bid and the highest ask, and
  at the top of a one-level book between bid and ask.\<close>

theorem microprice_within_book:
  assumes "prices_within lo hi bids" and "prices_within lo hi asks" and "- (2 ^ 63) \<le> lo" "hi < 2 ^ 63"
    and "bids \<noteq> []" "asks \<noteq> []" and "in_i64 (lvl_price (hd bids) + lvl_price (hd asks))"
    and "micro_weight (min (min n (length bids)) (length asks)) bids asks < 2 ^ 64"
    and "unat (lvl_qty (hd bids)) + unat (lvl_qty (hd asks)) < 2 ^ 64"
  shows "\<exists>p. compute_weighted bids asks n = Some p \<and> lo \<le> p \<and> p \<le> hi"
  using weighted_between [OF assms] .

lemma microprice_within_book_witness:
  "\<exists>p. compute_weighted [\<lparr>lvl_price = 100, lvl_qty = 9\<rparr>] [\<lparr>lvl_price = 102, lvl_qty = 1\<rparr>] 5 = Some p \<and> 100 \<le> p \<and> p \<le> 102"
  using microprice_within_book [of 100 102 "[\<lparr>lvl_price = 100, lvl_qty = 9\<rparr>]" "[\<lparr>lvl_price = 102, lvl_qty = 1\<rparr>]" 5]
  by (simp add: in_i64_def)

text \<open> The toxicity tracker's window is the last \<open>max_window\<close> trades and its two volumes are exactly
  the window's buy and sell volumes; the VPIN is their imbalance in ten-thousandths, within [0, 10000],
  and the spread multiplier lies within [10000, 30000], for every run of trades whose
  quantities and prices are within the stated bounds.\<close>

theorem toxicity_exact:
  assumes "\<forall>e \<in> set trades. trade_ok Q P e" and "0 \<le> al" "al \<le> 10000"
    and "(unat mx + 1) * Q * 10000 < 2 ^ 63" and "0 \<le> P" "P * 10000 < 2 ^ 63"
  shows "let t = run_trades trades (toxicity_new mx al th);
      w = drop (length trades - unat mx) (map (\<lambda>(s, q, p). (s, q)) trades);
      b = side_volume Buy w; s = side_volume Sell w
    in tt_window t = w \<and> unat (tt_buy_volume t) = b \<and> unat (tt_sell_volume t) = s \<and>
      vpin t = \<bar>int b - int s\<bar> * 10000 div int (b + s) \<and> 0 \<le> vpin t \<and> vpin t \<le> 10000 \<and>
      10000 \<le> spread_multiplier t \<and> spread_multiplier t \<le> 30000"
proof -
  define t where "t = run_trades trades (toxicity_new mx al th)"
  define w where "w = drop (length trades - unat mx) (map (\<lambda>(s, q, p). (s, q)) trades)"
  have "(unat mx + 1) * Q < 2 ^ 64" using assms(4) by simp
  from run_trades_inv [OF assms(1-3) this assms(6,5)]
  have inv: "tracker_inv Q P t" and w: "tt_window t = w" and mx: "tt_max_window t = mx"
    by (simp_all add: t_def w_def)
  have exact: "volumes_exact w t" using inv w by (simp add: tracker_inv_def)
  have "side_volume Buy w + side_volume Sell w \<le> length w * Q"
    using inv w by (intro side_volume_le) (simp add: tracker_inv_def)
  also have "\<dots> \<le> (unat mx + 1) * Q"
    using inv w mx by (intro mult_right_mono) (simp_all add: tracker_inv_def)
  finally have "(side_volume Buy w + side_volume Sell w) * 10000 < 2 ^ 63"
    using assms(4) by (rule scale_less)
  note vp = vpin_exact [OF exact this]
  have "0 \<le> tt_volatility_ema t" "tt_volatility_ema t * 50 < 2 ^ 63"
    using inv assms(5,6) by (auto simp: tracker_inv_def)
  note mb = multiplier_bounds [OF vp(2,3) this]
  show ?thesis
    unfolding Let_def t_def [symmetric] w_def [symmetric]
    using w exact vp mb unfolding volumes_exact_def by blast
qed

lemma toxicity_exact_witness:
  "let t = run_trades [(Buy, 3, 100), (Buy, 1, 101), (Sell, 1, 99)] (toxicity_new 2 500 6000)
   in tt_window t = [(Buy, 1), (Sell, 1)] \<and> vpin t = 0 \<and> spread_multiplier t \<le> 30000"
proof -
  have ok: "\<forall>e \<in> set [(Buy, 3, 100), (Buy, 1, 101), (Sell, 1, 99)]. trade_ok 3 1000 e"
    by (simp add: trade_ok_def)
  show ?thesis
    using toxicity_exact [OF ok, of 500 2 6000] by (simp add: Let_def)
qed

text \<open> Spot inventory never goes short: after any fills, in any order and of any size, the
  position is not negative, and what the manager offers for sale never exceeds the position
  nor the quantity asked, and is nonzero only if it can sell.\<close>

theorem inventory_never_short:
  "let m = foldl (\<lambda>m (s, q). inventory_on_fill s q m) (inventory_new mx g) fills
   in 0 \<le> im_position_qty m \<and> int (unat (sellable_qty d m)) \<le> im_position_qty m \<and> sellable_qty d m \<le> d \<and>
     (sellable_qty d m = 0 \<or> can_sell m)"
proof -
  have "inventory_wf (foldl (\<lambda>m (s, q). inventory_on_fill s q m) (inventory_new mx g) fills)"
    by (rule foldl_invariant) (auto intro: wf_intros)
  from sellable_le [OF this, of d] this show ?thesis
    unfolding Let_def inventory_wf_def by blast
qed

end
