(* ===== verification/Strategy.thy ===== *)
theory Strategy
  imports Book Core_Event
begin

section \<open>atomic-strategy: the strategy interface and its engine (traits.rs, engine.rs)\<close>

text \<open>
  The trait \<open>Strategy\<close> is an operation \<open>on_event\<close> on a state of the implementing type;
  \<^term>\<open>None\<close> is a panic. Its documented contract (deterministic, no I/O) is what a function
  gives. What a client may rely on beyond it is the locale \<open>strategy_contract\<close>: an invariant
  that every event preserves, and a relation between a state and the commands it emitted.
  \<open>StrategyEngine\<close> dispatches an event to its strategies in the order of their registration.
\<close>

datatype strategy_command =
    PlaceOrder (po_symbol: symbol) (po_side: side) (po_order_type: order_type) (po_price: price)
      (po_qty: qty) (po_time_in_force: time_in_force) (po_venue: venue)
  | CancelOrder order_id
  | CancelAll "symbol option"

record strategy_context =
  cx_books :: "(string, order_book) hashmap"
  cx_positions :: "(string, position) hashmap"
  cx_seq :: u64
  cx_timestamp :: u64

type_synonym 's strategy = "event \<Rightarrow> strategy_context \<Rightarrow> 's \<Rightarrow> (strategy_command list \<times> 's) option"

subsection \<open>The engine\<close>

record 's strategy_engine =
  sy_strategies :: "'s list"
  sy_books :: "(string, order_book) hashmap"
  sy_positions :: "(string, position) hashmap"

definition strategy_engine_new :: "'s strategy_engine" where
  "strategy_engine_new = \<lparr>sy_strategies = [], sy_books = [], sy_positions = []\<rparr>"

definition register :: "'s \<Rightarrow> 's strategy_engine \<Rightarrow> 's strategy_engine" where
  "register s en = en\<lparr>sy_strategies := sy_strategies en @ [s]\<rparr>"

definition update_book :: "string \<Rightarrow> order_book \<Rightarrow> 's strategy_engine \<Rightarrow> 's strategy_engine" where
  "update_book k b en = en\<lparr>sy_books := hm_insert k b (sy_books en)\<rparr>"

definition update_position :: "string \<Rightarrow> position \<Rightarrow> 's strategy_engine \<Rightarrow> 's strategy_engine" where
  "update_position k p en = en\<lparr>sy_positions := hm_insert k p (sy_positions en)\<rparr>"

definition event_context :: "event \<Rightarrow> 's strategy_engine \<Rightarrow> strategy_context" where
  "event_context ev en = \<lparr>cx_books = sy_books en, cx_positions = sy_positions en,
     cx_seq = ev_seq ev, cx_timestamp = ev_timestamp ev\<rparr>"

text \<open>The loop over the strategies: the commands so far and the strategies after their calls.\<close>

fun dispatch :: "'s strategy \<Rightarrow> event \<Rightarrow> strategy_context \<Rightarrow> 's list \<Rightarrow> (strategy_command list \<times> 's list) option" where
  "dispatch on_event ev ctx [] = Some ([], [])"
| "dispatch on_event ev ctx (s # ss) =
     do { (cmds, s') \<leftarrow> on_event ev ctx s;
          (cmds', ss') \<leftarrow> dispatch on_event ev ctx ss;
          Some (cmds @ cmds', s' # ss') }"

definition engine_process :: "'s strategy \<Rightarrow> event \<Rightarrow> 's strategy_engine \<Rightarrow> (strategy_command list \<times> 's strategy_engine) option" where
  "engine_process on_event ev en =
     map_option (\<lambda>(cmds, ss). (cmds, en\<lparr>sy_strategies := ss\<rparr>))
       (dispatch on_event ev (event_context ev en) (sy_strategies en))"

definition strategy_count :: "'s strategy_engine \<Rightarrow> nat" where
  "strategy_count en = length (sy_strategies en)"

text \<open>A run of events through one strategy, with the commands of each step.\<close>

fun strategy_run :: "'s strategy \<Rightarrow> (event \<times> strategy_context) list \<Rightarrow> 's \<Rightarrow> (strategy_command list list \<times> 's) option" where
  "strategy_run on_event [] s = Some ([], s)"
| "strategy_run on_event ((ev, ctx) # evs) s =
     do { (cmds, s') \<leftarrow> on_event ev ctx s;
          (cs, s'') \<leftarrow> strategy_run on_event evs s';
          Some (cmds # cs, s'') }"

fun engine_run :: "'s strategy \<Rightarrow> event list \<Rightarrow> 's strategy_engine \<Rightarrow> (strategy_command list list \<times> 's strategy_engine) option" where
  "engine_run on_event [] en = Some ([], en)"
| "engine_run on_event (ev # evs) en =
     do { (cmds, en') \<leftarrow> engine_process on_event ev en;
          (cs, en'') \<leftarrow> engine_run on_event evs en';
          Some (cmds # cs, en'') }"

lemma dispatch_Cons_Some:
  "dispatch on_event ev ctx (s # ss) = Some (cmds, ss'') \<longleftrightarrow>
    (\<exists>cs s' cs' ss'. on_event ev ctx s = Some (cs, s') \<and> dispatch on_event ev ctx ss = Some (cs', ss') \<and>
       cmds = cs @ cs' \<and> ss'' = s' # ss')"
  by (auto simp: option_bind_Some_iff)

lemma strategy_run_append:
  "strategy_run on_event (xs @ ys) s =
    do { (cs, s') \<leftarrow> strategy_run on_event xs s; (cs', s'') \<leftarrow> strategy_run on_event ys s'; Some (cs @ cs', s'') }"
proof (induction xs arbitrary: s)
  case Nil
  show ?case by (cases "strategy_run on_event ys s") auto
next
  case (Cons x xs)
  obtain ev ctx where x: "x = (ev, ctx)" by fastforce
  show ?case
  proof (cases "on_event ev ctx s")
    case (Some r)
    obtain cmds s' where r: "r = (cmds, s')" by fastforce
    have "strategy_run on_event ((x # xs) @ ys) s =
        do { (cs, s'') \<leftarrow> strategy_run on_event (xs @ ys) s'; Some (cmds # cs, s'') }"
      using Some by (simp add: x r)
    also have "\<dots> = do { (cs, s'') \<leftarrow> do { (cs, s') \<leftarrow> strategy_run on_event xs s';
          (cs', s'') \<leftarrow> strategy_run on_event ys s'; Some (cs @ cs', s'') }; Some (cmds # cs, s'') }"
      unfolding Cons.IH ..
    finally show ?thesis
      using Some by (cases "strategy_run on_event xs s'")
        (auto simp: x r split: prod.splits Option.bind_split)
  qed (simp add: x)
qed

subsection \<open>Strategies do not see each other\<close>

lemma engine_process_parts:
  assumes "engine_process on_event ev en = Some (cmds, en')"
  shows "length (sy_strategies en') = length (sy_strategies en)"
    and "event_context ev' en' = event_context ev' en"
    and "\<exists>cs. length cs = length (sy_strategies en) \<and> cmds = concat cs \<and>
      (\<forall>i < length cs. on_event ev (event_context ev en) (sy_strategies en ! i) = Some (cs ! i, sy_strategies en' ! i))"
proof -
  have *: "length ss' = length ss \<and> (\<exists>cs. length cs = length ss \<and> cmds = concat cs \<and>
      (\<forall>i < length cs. on_event ev ctx (ss ! i) = Some (cs ! i, ss' ! i)))"
    if "dispatch on_event ev ctx ss = Some (cmds, ss')" for ctx ss cmds ss'
    using that
  proof (induction ss arbitrary: cmds ss')
    case (Cons s ss)
    then obtain c s' cmds2 ss2 where c: "on_event ev ctx s = Some (c, s')"
      "dispatch on_event ev ctx ss = Some (cmds2, ss2)" "cmds = c @ cmds2" "ss' = s' # ss2"
      unfolding dispatch_Cons_Some by blast
    from Cons.IH [OF c(2)] obtain cs where cs: "length ss2 = length ss" "length cs = length ss" "cmds2 = concat cs"
      "\<forall>i < length cs. on_event ev ctx (ss ! i) = Some (cs ! i, ss2 ! i)" by blast
    then have "\<forall>i < length (c # cs). on_event ev ctx ((s # ss) ! i) = Some ((c # cs) ! i, (s' # ss2) ! i)"
      using c(1) by (auto simp: nth_Cons split: nat.split)
    with cs c show ?case by (intro conjI exI [of _ "c # cs"]) auto
  qed simp
  from assms obtain ss where "dispatch on_event ev (event_context ev en) (sy_strategies en) = Some (cmds, ss)"
    and "en' = en\<lparr>sy_strategies := ss\<rparr>"
    by (auto simp: engine_process_def)
  with * [OF this(1)] show "length (sy_strategies en') = length (sy_strategies en)"
    and "event_context ev' en' = event_context ev' en"
    and "\<exists>cs. length cs = length (sy_strategies en) \<and> cmds = concat cs \<and>
      (\<forall>i < length cs. on_event ev (event_context ev en) (sy_strategies en ! i) = Some (cs ! i, sy_strategies en' ! i))"
    by (simp_all add: event_context_def)
qed

lemma engine_run_parts:
  assumes "engine_run on_event evs en = Some (css, en')" and "i < length (sy_strategies en)"
  shows "length (sy_strategies en') = length (sy_strategies en)"
    and "\<exists>cs. strategy_run on_event (map (\<lambda>ev. (ev, event_context ev en)) evs) (sy_strategies en ! i) =
        Some (cs, sy_strategies en' ! i) \<and> length cs = length css \<and>
      (\<forall>j < length css. set (cs ! j) \<subseteq> set (css ! j))"
proof -
  have "length (sy_strategies en') = length (sy_strategies en) \<and>
    (\<exists>cs. strategy_run on_event (map (\<lambda>ev. (ev, event_context ev en)) evs) (sy_strategies en ! i) =
        Some (cs, sy_strategies en' ! i) \<and> length cs = length css \<and>
      (\<forall>j < length css. set (cs ! j) \<subseteq> set (css ! j)))"
    using assms
  proof (induction evs arbitrary: en css)
    case (Cons ev evs)
    then obtain cmds en1 css1 where p: "engine_process on_event ev en = Some (cmds, en1)"
      "engine_run on_event evs en1 = Some (css1, en')" "css = cmds # css1"
      by (auto simp: option_bind_Some_iff)
    note q = engine_process_parts [OF p(1)]
    obtain c where c: "on_event ev (event_context ev en) (sy_strategies en ! i) = Some (c, sy_strategies en1 ! i)"
      "set c \<subseteq> set cmds"
      using q(3) Cons.prems(2) by force
    from Cons.IH [OF p(2)] q(1) Cons.prems(2) obtain cs where cs: "length (sy_strategies en') = length (sy_strategies en1)"
      "strategy_run on_event (map (\<lambda>ev. (ev, event_context ev en1)) evs) (sy_strategies en1 ! i) = Some (cs, sy_strategies en' ! i)"
      "length cs = length css1" "\<forall>j < length css1. set (cs ! j) \<subseteq> set (css1 ! j)" by auto
    then have "\<forall>j < length css. set ((c # cs) ! j) \<subseteq> set (css ! j)"
      using c(2) p(3) by (auto simp: nth_Cons split: nat.splits)
    moreover have "strategy_run on_event (map (\<lambda>ev. (ev, event_context ev en)) (ev # evs)) (sy_strategies en ! i) =
        Some (c # cs, sy_strategies en' ! i)"
      using c(1) cs(2) by (simp add: q(2))
    ultimately show ?case using cs(1,3) q(1) p(3) by fastforce
  qed auto
  then show "length (sy_strategies en') = length (sy_strategies en)"
    and "\<exists>cs. strategy_run on_event (map (\<lambda>ev. (ev, event_context ev en)) evs) (sy_strategies en ! i) =
        Some (cs, sy_strategies en' ! i) \<and> length cs = length css \<and>
      (\<forall>j < length css. set (cs ! j) \<subseteq> set (css ! j))" by blast+
qed

subsection \<open>The interface\<close>

text \<open>
  \<open>held s xs\<close> relates a state to the commands it has issued so far, in order: what the
  strategy believes about its outstanding orders.
\<close>

locale strategy_contract =
  fixes on_event :: "'s strategy" and inv :: "'s \<Rightarrow> bool"
    and allowed :: "'s \<Rightarrow> strategy_command \<Rightarrow> bool" and held :: "'s \<Rightarrow> strategy_command list \<Rightarrow> bool"
  assumes on_event_inv: "inv s \<Longrightarrow> on_event ev ctx s = Some (cmds, s') \<Longrightarrow> inv s'"
    and on_event_allowed: "inv s \<Longrightarrow> on_event ev ctx s = Some (cmds, s') \<Longrightarrow> c \<in> set cmds \<Longrightarrow> allowed s' c"
    and on_event_held: "inv s \<Longrightarrow> on_event ev ctx s = Some (cmds, s') \<Longrightarrow> held s xs \<Longrightarrow> held s' (xs @ cmds)"
begin

lemma run_inv:
  "inv s \<Longrightarrow> strategy_run on_event evs s = Some (cs, s') \<Longrightarrow> inv s'"
proof (induction evs arbitrary: s cs)
  case (Cons e evs)
  then obtain ev ctx cmds s1 cs1 where "on_event ev ctx s = Some (cmds, s1)" and "strategy_run on_event evs s1 = Some (cs1, s')"
    by (cases e) (auto simp: option_bind_Some_iff)
  then show ?case by (intro Cons.IH [of s1]) (rule on_event_inv [OF Cons.prems(1)])
qed simp

lemma run_held:
  "inv s \<Longrightarrow> held s xs \<Longrightarrow> strategy_run on_event evs s = Some (cs, s') \<Longrightarrow> held s' (xs @ concat cs)"
proof (induction evs arbitrary: s cs xs)
  case (Cons e evs)
  obtain ev ctx where e: "e = (ev, ctx)" by fastforce
  with Cons.prems(3) obtain cmds s1 cs1 where st: "on_event ev ctx s = Some (cmds, s1)"
    "strategy_run on_event evs s1 = Some (cs1, s')" "cs = cmds # cs1"
    by (auto simp: option_bind_Some_iff)
  have "held s1 (xs @ cmds)" by (rule on_event_held [OF Cons.prems(1) st(1) Cons.prems(2)])
  from Cons.IH [OF on_event_inv [OF Cons.prems(1) st(1)] this st(2)] show ?case by (simp add: st(3))
qed simp

lemma run_allowed:
  assumes "inv s" and "strategy_run on_event (evs @ [e]) s = Some (cs @ [cmds], s')"
    and "length cs = length evs" and "c \<in> set cmds"
  shows "allowed s' c"
proof -
  obtain ev ctx where e: "e = (ev, ctx)" by fastforce
  from assms(2) obtain cs1 s1 cmds1 where st: "strategy_run on_event evs s = Some (cs1, s1)"
    "on_event ev ctx s1 = Some (cmds1, s')" "cs @ [cmds] = cs1 @ [cmds1]"
    by (auto simp: strategy_run_append e option_bind_Some_iff)
  show ?thesis
    using on_event_allowed [OF run_inv [OF assms(1) st(1)] st(2)] st(3) assms(4) by simp
qed

lemma engine_safe:
  assumes "\<forall>s \<in> set (sy_strategies en). inv s" and "engine_process on_event ev en = Some (cmds, en')"
  shows "(\<forall>s \<in> set (sy_strategies en'). inv s) \<and> (\<forall>c \<in> set cmds. \<exists>s \<in> set (sy_strategies en'). allowed s c)"
proof -
  note q = engine_process_parts [OF assms(2)]
  from q(3) obtain cs where cs: "length cs = length (sy_strategies en)" "cmds = concat cs"
    "\<forall>i < length cs. on_event ev (event_context ev en) (sy_strategies en ! i) = Some (cs ! i, sy_strategies en' ! i)"
    by blast
  have "inv (sy_strategies en' ! i) \<and> (\<forall>c \<in> set (cs ! i). allowed (sy_strategies en' ! i) c)" if "i < length cs" for i
    using on_event_inv [OF _ cs(3) [rule_format, OF that]] on_event_allowed [OF _ cs(3) [rule_format, OF that]]
      assms(1) that cs(1) by simp
  with cs q(1) show ?thesis
    by (auto simp: in_set_conv_nth) (metis in_set_conv_nth nth_mem)+
qed

end

end
