(* ===== verification/Market_Maker.thy ===== *)
theory Market_Maker
  imports Signals Strategy
begin

section \<open>atomic-strategy: the Avellaneda-Stoikov market maker (market_maker.rs)\<close>

text \<open>
  \<open>MarketMaker\<close> with its three submodules from \<open>Signals\<close>. An event handler returns the
  commands and the new state, or \<^term>\<open>None\<close> for a panic (the skew's division, the microprice's
  \<open>i128\<close> quotient). The market maker is shown to satisfy \<open>strategy_contract\<close>; the
  properties at the end are its consequences over whole runs.
\<close>

subsection \<open>State and operations\<close>

record market_maker =
  mm_id :: string
  mm_symbol :: symbol
  mm_venue :: venue
  mm_inventory :: inventory_manager
  mm_toxicity :: toxicity_tracker
  mm_half_spread_pipettes :: i64
  mm_requote_threshold :: i64
  mm_order_qty :: u64
  mm_microprice_depth :: nat
  mm_last_fair_value :: i64
  mm_last_bid_price :: i64
  mm_last_ask_price :: i64
  mm_has_active_quotes :: bool
  mm_tick_count :: u64
  mm_last_quote_tick :: u64
  mm_min_quote_interval :: u64
  mm_book_updates_seen :: u64
  mm_warmup_ticks :: u64

definition market_maker_new ::
  "string \<Rightarrow> symbol \<Rightarrow> venue \<Rightarrow> u64 \<Rightarrow> i64 \<Rightarrow> i64 \<Rightarrow> i64 \<Rightarrow> market_maker" where
  "market_maker_new i smb v order_qty max_inventory half_spread g =
     \<lparr>mm_id = i, mm_symbol = smb, mm_venue = v,
      mm_inventory = inventory_new max_inventory g, mm_toxicity = toxicity_new 200 500 6000,
      mm_half_spread_pipettes = half_spread, mm_requote_threshold = 10, mm_order_qty = order_qty,
      mm_microprice_depth = 5, mm_last_fair_value = 0, mm_last_bid_price = 0, mm_last_ask_price = 0,
      mm_has_active_quotes = False, mm_tick_count = 0, mm_last_quote_tick = 0, mm_min_quote_interval = 5,
      mm_book_updates_seen = 0, mm_warmup_ticks = 3\<rparr>"

text \<open>The half-spread after widening, and the two quotes from it and the skew.\<close>

definition widened_spread :: "market_maker \<Rightarrow> i64" where
  "widened_spread m =
     i64_quot (i64_mul (max (mm_half_spread_pipettes m) 1) (spread_multiplier (mm_toxicity m))) 10000"

definition bid_quote :: "i64 \<Rightarrow> i64 \<Rightarrow> i64 \<Rightarrow> i64" where
  "bid_quote fair_value half_spread skew = i64_sub (i64_sub fair_value half_spread) skew"

definition ask_quote :: "i64 \<Rightarrow> i64 \<Rightarrow> i64 \<Rightarrow> i64" where
  "ask_quote fair_value half_spread skew = i64_sub (i64_add fair_value half_spread) skew"

definition cancel_commands :: "market_maker \<Rightarrow> strategy_command list" where
  "cancel_commands m = (if mm_has_active_quotes m then [CancelAll (Some (mm_symbol m))] else [])"

definition bid_commands :: "i64 \<Rightarrow> market_maker \<Rightarrow> strategy_command list" where
  "bid_commands p m = (if \<not> at_max (mm_inventory m)
     then [PlaceOrder (mm_symbol m) Buy Limit p (mm_order_qty m) GoodTilCancel (mm_venue m)] else [])"

definition ask_commands :: "i64 \<Rightarrow> market_maker \<Rightarrow> strategy_command list" where
  "ask_commands p m =
     (if can_sell (mm_inventory m)
      then (let sell_qty = sellable_qty (mm_order_qty m) (mm_inventory m) in
        if 0 < sell_qty then [PlaceOrder (mm_symbol m) Sell Limit p sell_qty GoodTilCancel (mm_venue m)] else [])
      else [])"

definition generate_quotes :: "i64 \<Rightarrow> market_maker \<Rightarrow> (strategy_command list \<times> market_maker) option" where
  "generate_quotes fair_value m =
     (let half_spread = widened_spread m in
      do { skew \<leftarrow> compute_skew half_spread (mm_inventory m);
           let bid_price = bid_quote fair_value half_spread skew;
           let ask_price = ask_quote fair_value half_spread skew;
           Some (cancel_commands m @ bid_commands bid_price m @ ask_commands ask_price m,
             m\<lparr>mm_last_fair_value := fair_value, mm_last_bid_price := bid_price, mm_last_ask_price := ask_price,
               mm_has_active_quotes := True, mm_last_quote_tick := mm_tick_count m\<rparr>) })"

definition should_requote :: "i64 \<Rightarrow> market_maker \<Rightarrow> bool" where
  "should_requote fv m =
     (if mm_last_fair_value m = 0 then True
      else if mm_tick_count m - mm_last_quote_tick m < mm_min_quote_interval m then False
      else mm_requote_threshold m \<le> i64_abs (i64_sub fv (mm_last_fair_value m)))"

definition mm_on_book :: "order_book_update_event \<Rightarrow> market_maker \<Rightarrow> (strategy_command list \<times> market_maker) option" where
  "mm_on_book b m =
     (if obu_symbol b \<noteq> mm_symbol m then Some ([], m)
      else let m = m\<lparr>mm_book_updates_seen := mm_book_updates_seen m + 1, mm_tick_count := mm_tick_count m + 1\<rparr> in
        if mm_book_updates_seen m < mm_warmup_ticks m then Some ([], m)
        else if obu_bids b = [] \<or> obu_asks b = [] then Some ([], m)
        else do { fv \<leftarrow> compute_weighted (obu_bids b) (obu_asks b) (mm_microprice_depth m);
                  if fv \<le> 0 then Some ([], m)
                  else if should_requote fv m then generate_quotes fv m
                  else Some ([], m) })"

definition mm_on_trade :: "trade_event \<Rightarrow> market_maker \<Rightarrow> strategy_command list \<times> market_maker" where
  "mm_on_trade t m =
     (if te_symbol t \<noteq> mm_symbol m then ([], m)
      else let m = m\<lparr>mm_toxicity := on_trade (te_side t) (te_qty t) (te_price t) (mm_toxicity m)\<rparr> in
        if is_toxic (mm_toxicity m) \<and> mm_has_active_quotes m
        then ([CancelAll (Some (mm_symbol m))], m\<lparr>mm_has_active_quotes := False\<rparr>)
        else ([], m))"

definition mm_on_fill :: "order_fill_event \<Rightarrow> market_maker \<Rightarrow> strategy_command list \<times> market_maker" where
  "mm_on_fill f m =
     (if fe_symbol f \<noteq> mm_symbol m then ([], m)
      else ([], m\<lparr>mm_inventory := inventory_on_fill (fe_side f) (fe_qty f) (mm_inventory m),
                  mm_last_quote_tick := u64_saturating_sub (mm_tick_count m) (mm_min_quote_interval m)\<rparr>))"

definition mm_on_event :: "market_maker strategy" where
  "mm_on_event ev ctx m = (case ev_payload ev of
     OrderBookUpdate b \<Rightarrow> mm_on_book b m
   | Trade t \<Rightarrow> Some (mm_on_trade t m)
   | OrderFill f \<Rightarrow> Some (mm_on_fill f m)
   | OrderPartialFill f \<Rightarrow> Some (mm_on_fill f m)
   | _ \<Rightarrow> Some ([], m))"

text \<open>Snapshots go through bincode on the tuple; a decoding error leaves the state alone.\<close>

definition mm_snapshot :: "(i64 \<times> i64 \<times> u64 \<times> u64 \<Rightarrow> u8 list option) \<Rightarrow> market_maker \<Rightarrow> u8 list" where
  "mm_snapshot ser m =
     (case ser (im_position_qty (mm_inventory m), mm_last_fair_value m, mm_tick_count m, mm_book_updates_seen m) of
        None \<Rightarrow> [] | Some bs \<Rightarrow> bs)"

definition mm_restore :: "(u8 list \<Rightarrow> (i64 \<times> i64 \<times> u64 \<times> u64) option) \<Rightarrow> u8 list \<Rightarrow> market_maker \<Rightarrow> market_maker" where
  "mm_restore deser data m = (case deser data of
     None \<Rightarrow> m
   | Some (pos, fv, ticks, seen) \<Rightarrow> m\<lparr>mm_inventory := set_position pos (mm_inventory m),
       mm_last_fair_value := fv, mm_tick_count := ticks, mm_book_updates_seen := seen\<rparr>)"

subsection \<open>What one event can do\<close>

text \<open>The fills an event carries for a symbol, and whether it is a book update of the symbol.\<close>

definition fills_for :: "symbol \<Rightarrow> event \<Rightarrow> (side \<times> qty) list" where
  "fills_for smb ev = (case fill_of ev of
     None \<Rightarrow> [] | Some f \<Rightarrow> if fe_symbol f = smb then [(fe_side f, fe_qty f)] else [])"


definition book_for :: "symbol \<Rightarrow> event \<Rightarrow> bool" where
  "book_for smb ev = (case ev_payload ev of OrderBookUpdate b \<Rightarrow> obu_symbol b = smb | _ \<Rightarrow> False)"

fun is_place :: "strategy_command \<Rightarrow> bool" where
  "is_place (PlaceOrder _ _ _ _ _ _ _) = True"
| "is_place _ = False"

text \<open>The configuration of a market maker, which no event changes.\<close>

definition mm_config :: "market_maker \<Rightarrow> symbol \<times> venue \<times> u64 \<times> i64 \<times> u64 \<times> u64" where
  "mm_config m = (mm_symbol m, mm_venue m, mm_order_qty m, im_max_inventory (mm_inventory m),
     mm_min_quote_interval m, mm_warmup_ticks m)"

lemma quote_frame:
  assumes "generate_quotes fv m = Some (cmds, m')"
  shows "cmds = cancel_commands m @ bid_commands (mm_last_bid_price m') m @ ask_commands (mm_last_ask_price m') m"
    and "mm_has_active_quotes m'" and "mm_last_quote_tick m' = mm_tick_count m'" and "mm_last_fair_value m' = fv"
    and "mm_inventory m' = mm_inventory m" "mm_tick_count m' = mm_tick_count m" "mm_config m' = mm_config m"
    "mm_book_updates_seen m' = mm_book_updates_seen m"
  using assms by (auto simp: generate_quotes_def Let_def option_bind_Some_iff mm_config_def)

text \<open>The three outcomes of a book update: silence, and a quote cycle when one is due.\<close>

lemma mm_on_book_cases:
  assumes "mm_on_book b m = Some (cmds, m')"
  defines "m1 \<equiv> m\<lparr>mm_book_updates_seen := mm_book_updates_seen m + 1, mm_tick_count := mm_tick_count m + 1\<rparr>"
  obtains (other) "obu_symbol b \<noteq> mm_symbol m" "cmds = []" "m' = m"
  | (silent) "obu_symbol b = mm_symbol m" "cmds = []" "m' = m1"
  | (quotes) fv where "obu_symbol b = mm_symbol m" "mm_warmup_ticks m1 \<le> mm_book_updates_seen m1" "0 < fv"
      "should_requote fv m1" "generate_quotes fv m1 = Some (cmds, m')"
proof (cases "obu_symbol b = mm_symbol m")
  case False
  with assms(1) show ?thesis by (intro other) (auto simp: mm_on_book_def)
next
  case sym: True
  show ?thesis
  proof (cases "mm_book_updates_seen m1 < mm_warmup_ticks m1 \<or> obu_bids b = [] \<or> obu_asks b = []")
    case True
    then have "Some (cmds, m') = Some ([], m1)"
      using assms(1) sym unfolding mm_on_book_def Let_def m1_def [symmetric] by (auto split: if_splits)
    with sym show ?thesis by (intro silent) simp_all
  next
    case False
    then have "do { fv \<leftarrow> compute_weighted (obu_bids b) (obu_asks b) (mm_microprice_depth m1);
        if fv \<le> 0 then Some ([], m1) else if should_requote fv m1 then generate_quotes fv m1 else Some ([], m1) }
        = Some (cmds, m')"
      using assms(1) sym unfolding mm_on_book_def Let_def m1_def [symmetric] by simp
    then obtain fv where fv: "(if fv \<le> 0 then Some ([], m1) else if should_requote fv m1 then generate_quotes fv m1 else Some ([], m1))
        = Some (cmds, m')"
      by (auto simp: option_bind_Some_iff)
    show ?thesis
    proof (cases "0 < fv \<and> should_requote fv m1")
      case True
      with fv False sym show ?thesis by (intro quotes [of fv]) auto
    next
      case no: False
      with fv have "Some (cmds, m') = Some ([], m1)" by (auto split: if_splits)
      with sym show ?thesis by (intro silent) simp_all
    qed
  qed
qed

text \<open>The handler by event, for the proofs over runs.\<close>

lemma mm_on_event_cases:
  assumes "mm_on_event ev ctx m = Some (cmds, m')"
  obtains (book) b where "ev_payload ev = OrderBookUpdate b" "mm_on_book b m = Some (cmds, m')"
      "fills_for (mm_symbol m) ev = []" "book_for (mm_symbol m) ev \<longleftrightarrow> obu_symbol b = mm_symbol m"
  | (trade) t where "ev_payload ev = Trade t" "mm_on_trade t m = (cmds, m')"
      "fills_for (mm_symbol m) ev = []" "\<not> book_for (mm_symbol m) ev"
  | (filled) f where "fill_of ev = Some f" "mm_on_fill f m = (cmds, m')"
      "fills_for (mm_symbol m) ev = (if fe_symbol f = mm_symbol m then [(fe_side f, fe_qty f)] else [])"
      "\<not> book_for (mm_symbol m) ev"
  | (ignored) "cmds = []" "m' = m" "fills_for (mm_symbol m) ev = []" "\<not> book_for (mm_symbol m) ev"
proof (cases "ev_payload ev")
  case (OrderBookUpdate b)
  then show ?thesis using assms by (intro book) (auto simp: mm_on_event_def fills_for_def fill_of_def book_for_def)
next
  case (Trade t)
  then show ?thesis using assms by (intro trade) (auto simp: mm_on_event_def fills_for_def fill_of_def book_for_def)
next
  case (OrderFill f)
  then show ?thesis using assms by (intro filled) (auto simp: mm_on_event_def fills_for_def fill_of_def book_for_def)
next
  case (OrderPartialFill f)
  then show ?thesis using assms by (intro filled) (auto simp: mm_on_event_def fills_for_def fill_of_def book_for_def)
qed (use assms ignored in \<open>simp_all add: mm_on_event_def fills_for_def fill_of_def book_for_def\<close>)

subsection \<open>The contract\<close>

text \<open>
  The bids and asks a command stream leaves outstanding if nothing fills: a \<open>CancelAll\<close>
  withdraws them all.
\<close>

fun quote_step :: "nat \<times> nat \<Rightarrow> strategy_command \<Rightarrow> nat \<times> nat" where
  "quote_step (b, a) (PlaceOrder _ Buy _ _ _ _ _) = (Suc b, a)"
| "quote_step (b, a) (PlaceOrder _ Sell _ _ _ _ _) = (b, Suc a)"
| "quote_step (b, a) (CancelOrder _) = (b, a)"
| "quote_step (b, a) (CancelAll _) = (0, 0)"

definition live_quotes :: "strategy_command list \<Rightarrow> nat \<times> nat" where
  "live_quotes cmds = foldl quote_step (0, 0) cmds"

definition at_most_one :: "nat \<times> nat \<Rightarrow> bool" where
  "at_most_one q \<longleftrightarrow> fst q \<le> 1 \<and> snd q \<le> 1"

text \<open>No prefix of the stream leaves more than one bid or more than one ask outstanding.\<close>

definition one_quote_stream :: "nat \<times> nat \<Rightarrow> strategy_command list \<Rightarrow> bool" where
  "one_quote_stream q xs \<longleftrightarrow> (\<forall>k. at_most_one (foldl quote_step q (take k xs)))"

definition mm_held :: "market_maker \<Rightarrow> strategy_command list \<Rightarrow> bool" where
  "mm_held m xs \<longleftrightarrow> one_quote_stream (0, 0) xs \<and> (\<not> mm_has_active_quotes m \<longrightarrow> live_quotes xs = (0, 0))"

definition mm_inv :: "market_maker \<Rightarrow> bool" where
  "mm_inv m \<longleftrightarrow> inventory_wf (mm_inventory m)"

text \<open>What the market maker may send, given its state after the event.\<close>

definition mm_allowed :: "market_maker \<Rightarrow> strategy_command \<Rightarrow> bool" where
  "mm_allowed m c = (case c of
     PlaceOrder smb s ot p q tif v \<Rightarrow> smb = mm_symbol m \<and> v = mm_venue m \<and> ot = Limit \<and> tif = GoodTilCancel \<and>
       (case s of
          Buy \<Rightarrow> q = mm_order_qty m \<and> im_position_qty (mm_inventory m) < im_max_inventory (mm_inventory m)
        | Sell \<Rightarrow> 0 < q \<and> q \<le> mm_order_qty m \<and> int (unat q) \<le> im_position_qty (mm_inventory m))
   | CancelOrder _ \<Rightarrow> False
   | CancelAll smb \<Rightarrow> smb = Some (mm_symbol m))"

lemma live_quotes_append: "live_quotes (xs @ ys) = foldl quote_step (live_quotes xs) ys"
  by (simp add: live_quotes_def)

lemma one_quote_stream_simps [simp]:
  "one_quote_stream q [] \<longleftrightarrow> at_most_one q"
  "one_quote_stream q (x # xs) \<longleftrightarrow> at_most_one q \<and> one_quote_stream (quote_step q x) xs"
  unfolding one_quote_stream_def by simp (subst all_nat_split_0, simp)

lemma one_quote_stream_append:
  "one_quote_stream q (xs @ ys) \<longleftrightarrow> one_quote_stream q xs \<and> one_quote_stream (foldl quote_step q xs) ys"
  by (induction xs arbitrary: q) (auto intro: spec [of _ 0, simplified] simp: one_quote_stream_def [of _ ys] dest: spec [of _ 0])

lemma mm_held_now: "mm_held m xs \<Longrightarrow> at_most_one (live_quotes xs)"
  using one_quote_stream_append [of "(0, 0)" xs "[]"] by (simp add: mm_held_def live_quotes_def)

lemma cancel_step [simp]: "quote_step q (CancelAll x) = (0, 0)"
  by (cases q) simp

lemma quote_cycle_held:
  assumes "mm_held m xs"
  shows "mm_held (m'\<lparr>mm_has_active_quotes := True\<rparr>) (xs @ cancel_commands m @ bid_commands p m @ ask_commands p' m)"
  using assms mm_held_now [OF assms]
  by (auto simp: mm_held_def one_quote_stream_append live_quotes_def cancel_commands_def bid_commands_def
      ask_commands_def at_most_one_def Let_def)

lemma mm_allowed_cong:
  "mm_symbol m' = mm_symbol m \<Longrightarrow> mm_venue m' = mm_venue m \<Longrightarrow> mm_order_qty m' = mm_order_qty m \<Longrightarrow>
   mm_inventory m' = mm_inventory m \<Longrightarrow> mm_allowed m' c = mm_allowed m c"
  by (simp add: mm_allowed_def split: strategy_command.split side.split)

lemma quotes_allowed:
  assumes "inventory_wf (mm_inventory m)" and "generate_quotes fv m = Some (cmds, m')" and "c \<in> set cmds"
  shows "mm_allowed m' c"
proof -
  note f = quote_frame [OF assms(2)]
  have "mm_allowed m c"
    using assms(3) sellable_le [OF assms(1), of "mm_order_qty m"]
    unfolding f(1) by (auto simp: mm_allowed_def cancel_commands_def bid_commands_def ask_commands_def Let_def
        at_max_def split: if_splits)
  then show ?thesis using f by (subst mm_allowed_cong [of _ m]) (auto simp: mm_config_def)
qed

lemma mm_step_inv:
  assumes "mm_inv m" and "mm_on_event ev ctx m = Some (cmds, m')"
  shows "mm_inv m'"
  using assms(2)
proof (cases rule: mm_on_event_cases)
  case (book b)
  from book(2) show ?thesis
    by (cases rule: mm_on_book_cases) (use assms(1) quote_frame(5) in \<open>auto simp: mm_inv_def\<close>)
next
  case (trade t)
  then show ?thesis using assms(1) by (auto simp: mm_on_trade_def mm_inv_def Let_def split: if_splits)
next
  case (filled f)
  then show ?thesis using assms(1) by (auto simp: mm_on_fill_def mm_inv_def intro: wf_intros split: if_splits)
qed (use assms(1) in simp)

lemma mm_step_allowed:
  assumes "mm_inv m" and "mm_on_event ev ctx m = Some (cmds, m')" and "c \<in> set cmds"
  shows "mm_allowed m' c"
  using assms(2)
proof (cases rule: mm_on_event_cases)
  case (book b)
  from book(2) show ?thesis
  proof (cases rule: mm_on_book_cases)
    case (quotes fv)
    have "inventory_wf (mm_inventory (m\<lparr>mm_book_updates_seen := mm_book_updates_seen m + 1, mm_tick_count := mm_tick_count m + 1\<rparr>))"
      using assms(1) by (simp add: mm_inv_def)
    from quotes_allowed [OF this quotes(5) assms(3)] show ?thesis .
  qed (use assms(3) in auto)
next
  case (trade t)
  then show ?thesis using assms(3) by (auto simp: mm_on_trade_def mm_allowed_def Let_def split: if_splits)
next
  case (filled f)
  then show ?thesis using assms(3) by (auto simp: mm_on_fill_def split: if_splits)
qed (use assms(3) in simp)

lemma mm_held_cong: "mm_has_active_quotes m' = mm_has_active_quotes m \<Longrightarrow> mm_held m' xs = mm_held m xs"
  by (simp add: mm_held_def)

lemma mm_step_held:
  assumes "mm_on_event ev ctx m = Some (cmds, m')" and "mm_held m xs"
  shows "mm_held m' (xs @ cmds)"
  using assms(1)
proof (cases rule: mm_on_event_cases)
  case (book b)
  from book(2) show ?thesis
  proof (cases rule: mm_on_book_cases)
    case (quotes fv)
    let ?m1 = "m\<lparr>mm_book_updates_seen := mm_book_updates_seen m + 1, mm_tick_count := mm_tick_count m + 1\<rparr>"
    have "mm_held ?m1 xs" using assms(2) by (subst mm_held_cong [of _ m]) simp_all
    from quote_cycle_held [OF this, of m'] quote_frame(1,2) [OF quotes(5)] show ?thesis
      by (simp add: mm_held_def)
  qed (use assms(2) in \<open>simp_all add: mm_held_def\<close>)
next
  case (trade t)
  then show ?thesis
    using assms(2) mm_held_now [OF assms(2)]
    by (auto simp: mm_on_trade_def mm_held_def Let_def one_quote_stream_append live_quotes_def at_most_one_def split: if_splits)
next
  case (filled f)
  then show ?thesis using assms(2) by (auto simp: mm_on_fill_def mm_held_def split: if_splits)
qed (use assms(2) in simp)

interpretation mm: strategy_contract mm_on_event mm_inv mm_allowed mm_held
  using mm_step_inv mm_step_allowed mm_step_held by unfold_locales blast+

subsection \<open>A worked run\<close>

definition ex_ctx :: strategy_context where
  "ex_ctx = \<lparr>cx_books = [], cx_positions = [], cx_seq = 1, cx_timestamp = 1\<rparr>"

definition ex_book :: "i64 \<Rightarrow> event \<times> strategy_context" where
  "ex_book p = (ex_event 1 (OrderBookUpdate \<lparr>obu_symbol = ex_sym, obu_bids = [\<lparr>lvl_price = p - 1, lvl_qty = 10\<rparr>],
      obu_asks = [\<lparr>lvl_price = p + 1, lvl_qty = 10\<rparr>], obu_is_snapshot = True, obu_exchange_ts = 0\<rparr>), ex_ctx)"

definition ex_maker :: market_maker where
  "ex_maker = market_maker_new ''mm'' ex_sym Simulated 7 50 5 5000"

definition ex_buy :: "event \<times> strategy_context" where
  "ex_buy = (ex_event 1 (ex_fill ''a'' 4), ex_ctx)"

lemma ex_quotes:
  "map_option fst (strategy_run mm_on_event ([ex_buy, ex_book 100, ex_book 100] @ [ex_book 100]) ex_maker) =
   Some [[], [], [], [PlaceOrder ex_sym Buy Limit 95 7 GoodTilCancel Simulated,
                      PlaceOrder ex_sym Sell Limit 105 4 GoodTilCancel Simulated]]"
  by code_simp

lemma ex_requotes:
  "map_option (concat \<circ> fst) (strategy_run mm_on_event (replicate 3 (ex_book 100) @ replicate 5 (ex_book 200)) ex_maker) =
   Some [PlaceOrder ex_sym Buy Limit 95 7 GoodTilCancel Simulated, CancelAll (Some ex_sym),
         PlaceOrder ex_sym Buy Limit 195 7 GoodTilCancel Simulated]"
  by code_simp

subsection \<open>Properties over runs\<close>

lemma mm_step_frame:
  assumes "mm_on_event ev ctx m = Some (cmds, m')"
  shows "mm_config m' = mm_config m"
    and "mm_inventory m' = foldl (\<lambda>im (s, q). inventory_on_fill s q im) (mm_inventory m) (fills_for (mm_symbol m) ev)"
proof -
  have "mm_config m' = mm_config m \<and>
    mm_inventory m' = foldl (\<lambda>im (s, q). inventory_on_fill s q im) (mm_inventory m) (fills_for (mm_symbol m) ev)"
    using assms
  proof (cases rule: mm_on_event_cases)
    case (book b)
    from book(2) show ?thesis
      by (cases rule: mm_on_book_cases) (use book(3) quote_frame(5,7) in \<open>auto simp: mm_config_def\<close>)
  next
    case (trade t)
    then show ?thesis by (auto simp: mm_on_trade_def mm_config_def Let_def split: if_splits)
  next
    case (filled f)
    then show ?thesis by (auto simp: mm_on_fill_def mm_config_def inventory_on_fill_def Let_def split: if_splits)
  qed simp
  then show "mm_config m' = mm_config m"
    and "mm_inventory m' = foldl (\<lambda>im (s, q). inventory_on_fill s q im) (mm_inventory m) (fills_for (mm_symbol m) ev)"
    by blast+
qed

lemma mm_run_frame:
  assumes "strategy_run mm_on_event evs m = Some (css, m')"
  shows "mm_config m' = mm_config m \<and> length css = length evs \<and>
    mm_inventory m' = foldl (\<lambda>im (s, q). inventory_on_fill s q im) (mm_inventory m)
      (concat (map (\<lambda>e. fills_for (mm_symbol m) (fst e)) evs))"
  using assms
proof (induction evs arbitrary: m css)
  case (Cons e evs)
  then obtain ev ctx cmds m1 css1 where e: "e = (ev, ctx)" "mm_on_event ev ctx m = Some (cmds, m1)"
    "strategy_run mm_on_event evs m1 = Some (css1, m')" "css = cmds # css1"
    by (cases e) (auto simp: option_bind_Some_iff)
  have "mm_symbol m1 = mm_symbol m" using mm_step_frame(1) [OF e(2)] by (simp add: mm_config_def)
  then show ?case using Cons.IH [OF e(3)] mm_step_frame [OF e(2)] by (simp add: e(1,4))
qed simp

text \<open>C25: Spot safety of the market maker: along any run from its start, its inventory is what the fills of
  its symbol make it, and every command of an event is a cancel of its own symbol or a limit order
  of it: a sell of at most the inventory at that moment, a buy only below the maximal inventory.\<close>

theorem market_maker_spot_safe:
  assumes "strategy_run mm_on_event (evs @ [e]) (market_maker_new i smb v oq mx hs g) = Some (css, m)"
  shows "mm_inventory m = foldl (\<lambda>im (s, q). inventory_on_fill s q im) (inventory_new mx g)
      (concat (map (\<lambda>e. fills_for smb (fst e)) (evs @ [e]))) \<and>
    (\<forall>c \<in> set (last css). case c of
       PlaceOrder smb' s ot p q tif v' \<Rightarrow> smb' = smb \<and> v' = v \<and> ot = Limit \<and> tif = GoodTilCancel \<and>
         (if s = Sell then 0 < q \<and> q \<le> oq \<and> int (unat q) \<le> im_position_qty (mm_inventory m)
          else q = oq \<and> im_position_qty (mm_inventory m) < mx)
     | CancelOrder _ \<Rightarrow> False
     | CancelAll smb' \<Rightarrow> smb' = Some smb)"
proof -
  let ?m0 = "market_maker_new i smb v oq mx hs g"
  note fr = mm_run_frame [OF assms]
  have inv: "mm_inv ?m0" by (simp add: mm_inv_def market_maker_new_def wf_intros)
  have "css \<noteq> []" and "length (butlast css) = length evs" using fr by auto
  then have css: "butlast css @ [last css] = css" "length (butlast css) = length evs" by simp_all
  have run: "strategy_run mm_on_event (evs @ [e]) ?m0 = Some (butlast css @ [last css], m)"
    using assms css(1) by simp
  have cfg: "mm_symbol m = smb" "mm_venue m = v" "mm_order_qty m = oq" "im_max_inventory (mm_inventory m) = mx"
    using conjunct1 [OF fr] by (simp_all add: mm_config_def market_maker_new_def inventory_new_def)
  show ?thesis
  proof (intro conjI ballI)
    fix c assume "c \<in> set (last css)"
    then have "mm_allowed m c"
      by (rule mm.run_allowed [OF inv run css(2)])
    then show "case c of
       PlaceOrder smb' s ot p q tif v' \<Rightarrow> smb' = smb \<and> v' = v \<and> ot = Limit \<and> tif = GoodTilCancel \<and>
         (if s = Sell then 0 < q \<and> q \<le> oq \<and> int (unat q) \<le> im_position_qty (mm_inventory m)
          else q = oq \<and> im_position_qty (mm_inventory m) < mx)
     | CancelOrder _ \<Rightarrow> False | CancelAll smb' \<Rightarrow> smb' = Some smb"
      by (cases c) (auto simp: mm_allowed_def cfg split: side.splits)
  qed (use fr in \<open>simp add: market_maker_new_def\<close>)
qed

theorem market_maker_spot_safe_witness:
  "\<exists>css m. strategy_run mm_on_event ([ex_buy, ex_book 100, ex_book 100] @ [ex_book 100]) ex_maker = Some (css, m) \<and>
     last css = [PlaceOrder ex_sym Buy Limit 95 7 GoodTilCancel Simulated,
                 PlaceOrder ex_sym Sell Limit 105 4 GoodTilCancel Simulated] \<and>
     4 \<le> im_position_qty (mm_inventory m) \<and> im_position_qty (mm_inventory m) < 50"
proof -
  obtain css m where run: "strategy_run mm_on_event ([ex_buy, ex_book 100, ex_book 100] @ [ex_book 100]) ex_maker = Some (css, m)"
    and last: "last css = [PlaceOrder ex_sym Buy Limit 95 7 GoodTilCancel Simulated,
                 PlaceOrder ex_sym Sell Limit 105 4 GoodTilCancel Simulated]"
    using ex_quotes by fastforce
  from market_maker_spot_safe [OF run [unfolded ex_maker_def]] run last show ?thesis by auto
qed

text \<open>C26: At most one bid and one ask: at every point of the command stream of a run, the orders placed since
  the last \<open>CancelAll\<close> are at most one buy and one sell, because every new pair of quotes
  is preceded by a cancel whenever quotes may be outstanding.\<close>

theorem market_maker_one_quote_per_side:
  assumes "strategy_run mm_on_event evs (market_maker_new i smb v oq mx hs g) = Some (css, m)"
  shows "fst (live_quotes (take k (concat css))) \<le> 1 \<and> snd (live_quotes (take k (concat css))) \<le> 1"
proof -
  let ?m0 = "market_maker_new i smb v oq mx hs g"
  have "mm_inv ?m0" and "mm_held ?m0 []"
    by (simp_all add: mm_inv_def market_maker_new_def wf_intros mm_held_def live_quotes_def at_most_one_def)
  from mm.run_held [OF this assms] show ?thesis
    by (simp add: mm_held_def one_quote_stream_def live_quotes_def at_most_one_def)
qed

theorem market_maker_one_quote_per_side_witness:
  "\<exists>css m. strategy_run mm_on_event (replicate 3 (ex_book 100) @ replicate 5 (ex_book 200)) ex_maker = Some (css, m) \<and>
     length (concat css) = 3 \<and> fst (live_quotes (take 3 (concat css))) \<le> 1 \<and> snd (live_quotes (take 3 (concat css))) \<le> 1"
proof -
  obtain css m where run: "strategy_run mm_on_event (replicate 3 (ex_book 100) @ replicate 5 (ex_book 200)) ex_maker = Some (css, m)"
    and "length (concat css) = 3"
    using ex_requotes by fastforce
  with market_maker_one_quote_per_side [OF run [unfolded ex_maker_def], of 3] show ?thesis by blast
qed


subsection \<open>Quotes and their pace\<close>

lemma widened_bounds:
  assumes "10000 \<le> spread_multiplier (mm_toxicity m)" "spread_multiplier (mm_toxicity m) \<le> 30000"
    and "max (mm_half_spread_pipettes m) 1 * 30000 < 2 ^ 63"
  defines "h \<equiv> max (mm_half_spread_pipettes m) 1"
  shows "h \<le> widened_spread m \<and> widened_spread m \<le> 3 * h"
proof -
  let ?k = "spread_multiplier (mm_toxicity m)"
  have h: "1 \<le> h" "h * 30000 < 2 ^ 63" using assms(3) by (simp_all add: h_def)
  have b: "h * 10000 \<le> h * ?k" "h * ?k \<le> h * 30000" using h assms(1,2) by (auto intro: mult_left_mono)
  then have "0 \<le> h * ?k" and "h * ?k < 2 ^ 63" using h by linarith+
  then have "in_i64 (h * ?k)" by (rule in_i64_nonneg)
  then have "widened_spread m = h * ?k div 10000"
    using b h by (simp add: widened_spread_def h_def [symmetric] i64_mul_exact i64_quot_def sdiv_nonneg)
  with b show ?thesis by linarith
qed

text \<open> The quotes straddle the fair value: if inventory is within its maximum, gamma is at most 1 and
  nothing overflows, then quoting does not panic; the bid is at least the (widened) half-spread below the
  fair value, the ask is not below it, they are two half-spreads apart, and both move down as
  inventory grows, by at most one half-spread.\<close>

theorem market_maker_straddles:
  assumes pos: "0 \<le> im_position_qty (mm_inventory m)" "im_position_qty (mm_inventory m) \<le> im_max_inventory (mm_inventory m)"
      "0 < im_max_inventory (mm_inventory m)" "im_position_qty (mm_inventory m) * 10000 < 2 ^ 63"
    and g: "0 \<le> im_gamma (mm_inventory m)" "im_gamma (mm_inventory m) \<le> 10000"
    and mult: "10000 \<le> spread_multiplier (mm_toxicity m)" "spread_multiplier (mm_toxicity m) \<le> 30000"
    and hs: "max (mm_half_spread_pipettes m) 1 * 30000 < 2 ^ 63"
    and fv: "0 < fv" "fv + 3 * max (mm_half_spread_pipettes m) 1 < 2 ^ 63"
  shows "\<exists>cmds m'. generate_quotes fv m = Some (cmds, m') \<and>
    (let w = widened_spread m; bid = mm_last_bid_price m'; ask = mm_last_ask_price m' in
      max (mm_half_spread_pipettes m) 1 \<le> w \<and> bid \<le> fv - w \<and> fv \<le> ask \<and> ask - bid = 2 * w \<and>
      fv - 2 * w \<le> bid \<and> (im_position_qty (mm_inventory m) = 0 \<longrightarrow> bid = fv - w \<and> ask = fv + w))"
proof -
  let ?w = "widened_spread m"
  have w: "max (mm_half_spread_pipettes m) 1 \<le> ?w" "?w \<le> 3 * max (mm_half_spread_pipettes m) 1"
    using widened_bounds [OF mult hs] by auto
  have w0: "1 \<le> ?w" "?w * 10000 < 2 ^ 63" using w hs by linarith+
  obtain k where k: "compute_skew ?w (mm_inventory m) = Some k" "0 \<le> k" "k \<le> ?w"
    and k0: "k = (im_position_qty (mm_inventory m) * 10000 div im_max_inventory (mm_inventory m)) *
      im_gamma (mm_inventory m) div 10000 * ?w div 10000"
    using skew_bounds [OF pos(1-3) g _ w0(2) pos(4)] w0(1) by auto
  have ex: "bid_quote fv ?w k = fv - ?w - k" "ask_quote fv ?w k = fv + ?w - k"
  proof -
    have "in_i64 (fv - ?w)" "in_i64 (fv - ?w - k)" "in_i64 (fv + ?w)" "in_i64 (fv + ?w - k)"
      using fv w w0 k(2,3) hs by (simp_all add: in_i64_def)
    then show "bid_quote fv ?w k = fv - ?w - k" "ask_quote fv ?w k = fv + ?w - k"
      by (simp_all add: bid_quote_def ask_quote_def i64_sub_exact i64_add_exact)
  qed
  have "k = 0" if "im_position_qty (mm_inventory m) = 0" using that k0 by simp
  then show ?thesis
    using w k ex by (auto simp: generate_quotes_def Let_def)
qed

theorem market_maker_straddles_witness:
  "\<exists>cmds m'. generate_quotes 100 ex_maker = Some (cmds, m') \<and> mm_last_bid_price m' = 95 \<and> mm_last_ask_price m' = 105"
proof -
  have c: "im_position_qty (mm_inventory ex_maker) = 0" "im_max_inventory (mm_inventory ex_maker) = 50"
    "im_gamma (mm_inventory ex_maker) = 5000" "mm_half_spread_pipettes ex_maker = 5"
    "spread_multiplier (mm_toxicity ex_maker) = 10000" "widened_spread ex_maker = 5"
    by code_simp+
  from market_maker_straddles [of ex_maker 100] show ?thesis unfolding c Let_def by auto
qed

lemma place_only_on_quotes:
  assumes "mm_on_event ev ctx m = Some (cmds, m')" and "\<exists>c \<in> set cmds. is_place c"
  shows "book_for (mm_symbol m) ev \<and> mm_last_quote_tick m' = mm_tick_count m' \<and> 0 < mm_last_fair_value m' \<and>
    mm_warmup_ticks m \<le> mm_book_updates_seen m + 1 \<and>
    (mm_last_fair_value m = 0 \<or> mm_min_quote_interval m \<le> mm_tick_count m + 1 - mm_last_quote_tick m)"
  using assms(1)
proof (cases rule: mm_on_event_cases)
  case (book b)
  from book(2) show ?thesis
  proof (cases rule: mm_on_book_cases)
    case (quotes fv)
    note f = quote_frame [OF quotes(5)]
    from quotes(4) have "mm_last_fair_value m = 0 \<or> mm_min_quote_interval m \<le> mm_tick_count m + 1 - mm_last_quote_tick m"
      by (auto simp: should_requote_def split: if_splits)
    then show ?thesis using quotes(1-3) f book(4) by simp
  qed (use assms(2) in auto)
next
  case (trade t)
  then show ?thesis using assms(2) by (auto simp: mm_on_trade_def Let_def split: if_splits)
next
  case (filled f)
  then show ?thesis using assms(2) by (auto simp: mm_on_fill_def split: if_splits)
qed (use assms(2) in simp)

text \<open>Between quote cycles the quoting state only counts book updates.\<close>

lemma no_place_frame:
  assumes "mm_on_event ev ctx m = Some (cmds, m')" and "\<not> (\<exists>c \<in> set cmds. is_place c)"
    and "fills_for (mm_symbol m) ev = []" and "mm_last_fair_value m \<noteq> 0"
    and "mm_tick_count m - mm_last_quote_tick m + (if book_for (mm_symbol m) ev then 1 else 0) < mm_min_quote_interval m"
  shows "mm_last_quote_tick m' = mm_last_quote_tick m \<and> mm_last_fair_value m' = mm_last_fair_value m \<and>
    mm_tick_count m' = mm_tick_count m + (if book_for (mm_symbol m) ev then 1 else 0)"
  using assms(1)
proof (cases rule: mm_on_event_cases)
  case (book b)
  from book(2) show ?thesis
  proof (cases rule: mm_on_book_cases)
    case (quotes fv)
    then show ?thesis using assms(4,5) book(4) by (auto simp: should_requote_def algebra_simps)
  qed (use book(4) in simp_all)
next
  case (trade t)
  then show ?thesis by (auto simp: mm_on_trade_def Let_def split: if_splits)
next
  case (filled f)
  then show ?thesis using assms(3) by (auto simp: mm_on_fill_def split: if_splits)
qed simp

lemma cooldown_run:
  assumes "strategy_run mm_on_event evs m = Some (css, m2)" and "\<forall>e \<in> set evs. fills_for (mm_symbol m) (fst e) = []"
    and "mm_last_fair_value m \<noteq> 0"
    and "unat (mm_tick_count m - mm_last_quote_tick m) + length (filter (\<lambda>e. book_for (mm_symbol m) (fst e)) evs)
      < unat (mm_min_quote_interval m)"
  shows "\<forall>c \<in> set (concat css). \<not> is_place c"
  using assms
proof (induction evs arbitrary: m css)
  case (Cons e evs)
  then obtain ev ctx cmds m1 css1 where e: "e = (ev, ctx)" "mm_on_event ev ctx m = Some (cmds, m1)"
    "strategy_run mm_on_event evs m1 = Some (css1, m2)" "css = cmds # css1"
    by (cases e) (auto simp: option_bind_Some_iff)
  let ?d = "mm_tick_count m - mm_last_quote_tick m" and ?k = "if book_for (mm_symbol m) ev then 1 else 0 :: u64"
  have lt: "unat ?d + unat ?k + length (filter (\<lambda>e. book_for (mm_symbol m) (fst e)) evs) < unat (mm_min_quote_interval m)"
    using Cons.prems(4) by (simp add: e(1) split: if_splits)
  then have sum: "unat (?d + ?k) = unat ?d + unat ?k"
    using unsigned_less [of "mm_min_quote_interval m", where ?'a = nat] by (simp add: unat_word_ariths)
  then have due: "?d + ?k < mm_min_quote_interval m" using lt by (simp add: word_less_nat_alt)
  have quiet: "\<not> (\<exists>c \<in> set cmds. is_place c)"
  proof
    assume p: "\<exists>c \<in> set cmds. is_place c"
    from place_only_on_quotes [OF e(2) p] Cons.prems(3) due show False by (auto simp: algebra_simps)
  qed
  have "fills_for (mm_symbol m) ev = []" using Cons.prems(2) by (simp add: e(1))
  note f = no_place_frame [OF e(2) quiet this Cons.prems(3) due]
  have sym: "mm_symbol m1 = mm_symbol m" "mm_min_quote_interval m1 = mm_min_quote_interval m"
    using mm_step_frame(1) [OF e(2)] by (simp_all add: mm_config_def)
  have "\<forall>c \<in> set (concat css1). \<not> is_place c"
  proof (rule Cons.IH [OF e(3)])
    have "mm_tick_count m1 - mm_last_quote_tick m1 = ?d + ?k" using f by (simp add: algebra_simps)
    with lt show "unat (mm_tick_count m1 - mm_last_quote_tick m1) +
        length (filter (\<lambda>e. book_for (mm_symbol m1) (fst e)) evs) < unat (mm_min_quote_interval m1)"
      by (simp add: sum sym)
  qed (use Cons.prems f sym in simp_all)
  with quiet show ?case by (auto simp: e(4))
qed simp

text \<open> Cooldown: after an event that placed quotes, no order is placed before \<open>min_quote_interval\<close>
  further book updates of the symbol have arrived, as long as none of its orders fills.\<close>

theorem market_maker_cooldown:
  assumes "mm_on_event ev ctx m = Some (cmds, m1)" and "\<exists>c \<in> set cmds. is_place c"
    and "strategy_run mm_on_event evs m1 = Some (css, m2)"
    and "\<forall>e \<in> set evs. fills_for (mm_symbol m) (fst e) = []"
    and "length (filter (\<lambda>e. book_for (mm_symbol m) (fst e)) evs) < unat (mm_min_quote_interval m)"
  shows "\<forall>c \<in> set (concat css). \<not> is_place c"
proof -
  have "mm_symbol m1 = mm_symbol m" "mm_min_quote_interval m1 = mm_min_quote_interval m"
    using mm_step_frame(1) [OF assms(1)] by (simp_all add: mm_config_def)
  then show ?thesis
    using cooldown_run [OF assms(3)] place_only_on_quotes [OF assms(1,2)] assms(4,5) by simp
qed

theorem market_maker_cooldown_witness:
  "\<exists>cmds m1 css m2. mm_on_event (fst (ex_book 100)) ex_ctx (ex_maker\<lparr>mm_book_updates_seen := 2\<rparr>) = Some (cmds, m1) \<and>
     strategy_run mm_on_event (replicate 4 (ex_book 200)) m1 = Some (css, m2) \<and> (\<forall>c \<in> set (concat css). \<not> is_place c)"
proof -
  let ?m = "ex_maker\<lparr>mm_book_updates_seen := 2\<rparr>" and ?evs = "replicate 4 (ex_book 200)"
  have "\<exists>cmds m1 css m2. mm_on_event (fst (ex_book 100)) ex_ctx ?m = Some (cmds, m1) \<and> (\<exists>c \<in> set cmds. is_place c) \<and>
      strategy_run mm_on_event ?evs m1 = Some (css, m2)"
  proof -
    have "map_option (\<lambda>(cmds, m1). list_ex is_place cmds \<and> strategy_run mm_on_event ?evs m1 \<noteq> None)
        (mm_on_event (fst (ex_book 100)) ex_ctx ?m) = Some True"
      by code_simp
    then show ?thesis by (auto simp: list_ex_iff)
  qed
  then obtain cmds m1 css m2 where on: "mm_on_event (fst (ex_book 100)) ex_ctx ?m = Some (cmds, m1)"
    "\<exists>c \<in> set cmds. is_place c" "strategy_run mm_on_event ?evs m1 = Some (css, m2)" by blast
  have "\<forall>e \<in> set ?evs. fills_for (mm_symbol ?m) (fst e) = []"
    "length (filter (\<lambda>e. book_for (mm_symbol ?m) (fst e)) ?evs) < unat (mm_min_quote_interval ?m)"
    by code_simp+
  from market_maker_cooldown [OF on this] on show ?thesis by blast
qed

end
