(* ===== verification/Rust_Float.thy ===== *)
theory Rust_Float
  imports Complex_Main Rust_Int
begin

section \<open>Rust's f64\<close>

text \<open>
  The finite values of \<open>f64\<close> as rationals. An operation computes the exact rational
  result and rounds it to the nearest value with a 53-bit significand, ties to even, as IEEE 754
  prescribes. The code uses \<open>f64\<close> for sums, products and quotients of integers of at most 64
  bits, so that the magnitudes stay between \<open>2^-130\<close> and \<open>2^260\<close>: no result
  overflows or is subnormal, and the code tests its divisors, so that infinities and NaN
  do not occur. Zero has one sign.
\<close>

type_synonym f64 = rat

subsection \<open>Rounding\<close>

text \<open>The exponent of a positive value: \<open>2 powi e \<le> x < 2 powi (e + 1)\<close>.\<close>

definition f64_exponent :: "rat \<Rightarrow> int" where
  "f64_exponent x = (let (a, b) = quotient_of x; e = int (bit_length (nat a)) - int (bit_length (nat b))
     in if 2 powi e \<le> x then e else e - 1)"

definition round_half_even :: "rat \<Rightarrow> int" where
  "round_half_even r = (let f = \<lfloor>r\<rfloor>; d = r - of_int f in
     if d < 1 / 2 then f else if 1 / 2 < d then f + 1 else if even f then f else f + 1)"

definition f64_rnd :: "rat \<Rightarrow> f64" where
  "f64_rnd x = (if x = 0 then 0
     else let u = 2 powi (f64_exponent \<bar>x\<bar> - 52) in of_int (round_half_even (x / u)) * u)"

subsection \<open>Operations and casts\<close>

definition f64_add :: "f64 \<Rightarrow> f64 \<Rightarrow> f64" where "f64_add a b = f64_rnd (a + b)"
definition f64_sub :: "f64 \<Rightarrow> f64 \<Rightarrow> f64" where "f64_sub a b = f64_rnd (a - b)"
definition f64_mul :: "f64 \<Rightarrow> f64 \<Rightarrow> f64" where "f64_mul a b = f64_rnd (a * b)"
definition f64_div :: "f64 \<Rightarrow> f64 \<Rightarrow> f64" where "f64_div a b = f64_rnd (a / b)"

definition f64_of_int :: "int \<Rightarrow> f64" where "f64_of_int n = f64_rnd (of_int n)"
definition f64_of_u64 :: "u64 \<Rightarrow> f64" where "f64_of_u64 w = f64_rnd (of_nat (unat w))"

text \<open>\<open>f64::round\<close> (half away from zero), truncation, and the saturating casts.\<close>

definition f64_round :: "f64 \<Rightarrow> int" where
  "f64_round x = (if 0 \<le> x then \<lfloor>x + 1 / 2\<rfloor> else \<lceil>x - 1 / 2\<rceil>)"

definition f64_trunc :: "f64 \<Rightarrow> int" where
  "f64_trunc x = (if 0 \<le> x then \<lfloor>x\<rfloor> else \<lceil>x\<rceil>)"

definition saturate_u64 :: "int \<Rightarrow> u64" where
  "saturate_u64 n = (if n < 0 then 0 else if 2 ^ 64 \<le> n then -1 else of_int n)"

definition saturate_i64 :: "int \<Rightarrow> i64" where
  "saturate_i64 n = (if n < - (2 ^ 63) then - (2 ^ 63) else if 2 ^ 63 \<le> n then 2 ^ 63 - 1 else n)"

subsection \<open>The rounding error\<close>

lemma power_int_two_pos [simp]: "0 < (2 :: rat) powi e"
  by simp

lemma f64_exponent_bounds:
  assumes "0 < x"
  shows "2 powi (f64_exponent x) \<le> x \<and> x < 2 powi (f64_exponent x + 1)"
proof -
  obtain a b where ab: "quotient_of x = (a, b)" by fastforce
  have b: "0 < b" and x: "x = of_int a / of_int b"
    using ab quotient_of_denom_pos quotient_of_div by blast+
  have a: "0 < a" using assms b by (simp add: x zero_less_divide_iff)
  define la lb where "la = bit_length (nat a)" and "lb = bit_length (nat b)"
  have A: "2 ^ (la - 1) \<le> nat a" "nat a < 2 ^ la" and B: "2 ^ (lb - 1) \<le> nat b" "nat b < 2 ^ lb"
    using bit_length_bounds [of "nat a"] bit_length_bounds [of "nat b"] a b by (simp_all add: la_def lb_def)
  have pos: "0 < la" "0 < lb" using a b bit_length.simps [of "nat a"] bit_length.simps [of "nat b"] by (simp_all add: la_def lb_def)
  have nat_int: "(of_nat (nat c) :: rat) = of_int c" if "0 < c" for c
    using that by (metis less_imp_le of_int_of_nat_eq of_nat_nat)
  have A': "(2 :: rat) ^ (la - 1) \<le> of_int a" "of_int a < (2 :: rat) ^ la"
    and B': "(2 :: rat) ^ (lb - 1) \<le> of_int b" "of_int b < (2 :: rat) ^ lb"
    using A [folded of_nat_le_iff [where ?'a = rat] of_nat_less_iff [where ?'a = rat]]
      B [folded of_nat_le_iff [where ?'a = rat] of_nat_less_iff [where ?'a = rat]]
    by (simp_all add: nat_int a b)
  let ?e = "int la - int lb"
  have split: "int la - int lb + 1 = int la - int (lb - 1)" "int la - int lb - 1 = int (la - 1) - int lb"
    using pos by simp_all
  have "x < 2 ^ la / 2 ^ (lb - 1)"
    unfolding x using A' B' a b by (intro frac_less) auto
  then have up: "x < 2 powi (?e + 1)"
    unfolding split by (simp add: power_int_diff)
  have "2 ^ (la - 1) / 2 ^ lb \<le> x"
    unfolding x using A' B' a b by (intro frac_le) auto
  then have low: "2 powi (?e - 1) \<le> x"
    unfolding split by (simp add: power_int_diff)
  show ?thesis
    using up low by (simp add: f64_exponent_def ab Let_def la_def [symmetric] lb_def [symmetric])
qed

lemma round_half_even_error: "\<bar>of_int (round_half_even r) - r\<bar> \<le> 1 / 2"
proof -
  have "of_int \<lfloor>r\<rfloor> \<le> r" "r < of_int \<lfloor>r\<rfloor> + 1" by linarith+
  then show ?thesis by (auto simp: round_half_even_def Let_def abs_le_iff)
qed

lemma round_half_even_of_int [simp]: "round_half_even (of_int n) = n"
  by (simp add: round_half_even_def Let_def)

lemma f64_rnd_error: "\<bar>f64_rnd x - x\<bar> \<le> \<bar>x\<bar> / 2 ^ 53"
proof (cases "x = 0")
  case False
  let ?u = "2 powi (f64_exponent \<bar>x\<bar> - 52) :: rat"
  have "?u * 2 ^ 52 = 2 powi (f64_exponent \<bar>x\<bar>)"
    by (simp add: power_int_diff)
  then have u: "?u * 2 ^ 52 \<le> \<bar>x\<bar>" using f64_exponent_bounds [of "\<bar>x\<bar>"] False by simp
  have "f64_rnd x - x = (of_int (round_half_even (x / ?u)) - x / ?u) * ?u"
    using False by (simp add: f64_rnd_def Let_def left_diff_distrib)
  then have "\<bar>f64_rnd x - x\<bar> = \<bar>of_int (round_half_even (x / ?u)) - x / ?u\<bar> * ?u"
    by (simp add: abs_mult)
  also have "\<dots> \<le> 1 / 2 * ?u"
    by (intro mult_right_mono round_half_even_error) simp
  also have "\<dots> \<le> \<bar>x\<bar> / 2 ^ 53" using u by simp
  finally show ?thesis .
qed (simp add: f64_rnd_def)

lemma f64_rnd_0 [simp]: "f64_rnd 0 = 0"
  by (simp add: f64_rnd_def)

text \<open>Integers below \<open>2^53\<close> are values of the type.\<close>

lemma f64_rnd_int:
  assumes "\<bar>n\<bar> < 2 ^ 53"
  shows "f64_rnd (of_int n) = of_int n"
proof (cases "n = 0")
  case False
  let ?e = "f64_exponent \<bar>of_int n\<bar>"
  have b: "2 powi ?e \<le> (of_int \<bar>n\<bar> :: rat)"
    using f64_exponent_bounds [of "\<bar>of_int n\<bar>"] False by simp
  have "(of_int \<bar>n\<bar> :: rat) < of_int (2 ^ 53)" using assms by (subst of_int_less_iff)
  then have "(2 :: rat) powi ?e < 2 powi 53" using b by simp
  then have "?e < 53" by (rule power_int_le_imp_less_exp [of 2, rotated]) simp_all
  then have "?e - 52 = - int (nat (52 - ?e))" by simp
  then have u: "2 powi (?e - 52) = (1 :: rat) / of_int (2 ^ nat (52 - ?e))"
    by (simp only: power_int_minus power_int_of_nat) (simp add: divide_simps)
  then have q: "of_int n / 2 powi (?e - 52) = (of_int (n * 2 ^ nat (52 - ?e)) :: rat)" by simp
  have "f64_rnd (of_int n) = of_int (round_half_even (of_int n / 2 powi (?e - 52))) * 2 powi (?e - 52)"
    using False by (simp add: f64_rnd_def Let_def)
  also have "\<dots> = of_int (n * 2 ^ nat (52 - ?e)) * (1 / of_int (2 ^ nat (52 - ?e)))"
    by (simp only: q round_half_even_of_int) (simp only: u)
  finally show ?thesis by simp
qed simp


text \<open>So are their quotients by powers of two.\<close>

lemma f64_exponent_unique:
  assumes "2 powi e \<le> x" and "x < 2 powi (e + 1)"
  shows "f64_exponent x = e"
proof -
  have "0 < x" using assms(1) power_int_two_pos [of e] by linarith
  note b = f64_exponent_bounds [OF this]
  have "(2 :: rat) powi e < 2 powi (f64_exponent x + 1)" and "(2 :: rat) powi f64_exponent x < 2 powi (e + 1)"
    using b assms by linarith+
  moreover have "a < c" if "(2 :: rat) powi a < 2 powi c" for a c :: int
    using that power_int_increasing [of c a "2 :: rat"] by (rule_tac ccontr) auto
  ultimately have "e < f64_exponent x + 1" and "f64_exponent x < e + 1" by blast+
  then show ?thesis by linarith
qed

lemma f64_rnd_scale: "f64_rnd (x * 2 powi k) = f64_rnd x * 2 powi k"
proof (cases "x = 0")
  case False
  let ?e = "f64_exponent \<bar>x\<bar>"
  have b: "2 powi ?e \<le> \<bar>x\<bar>" "\<bar>x\<bar> < 2 powi (?e + 1)"
    using f64_exponent_bounds [of "\<bar>x\<bar>"] False by auto
  have ex: "f64_exponent \<bar>x * 2 powi k\<bar> = ?e + k"
  proof (rule f64_exponent_unique)
    show "2 powi (?e + k) \<le> \<bar>x * 2 powi k\<bar>"
      using b(1) by (simp add: abs_mult power_int_add mult_right_mono)
    have "\<bar>x\<bar> * 2 powi k < 2 powi (?e + 1) * 2 powi k" using b(2) by (rule mult_strict_right_mono) simp
    then show "\<bar>x * 2 powi k\<bar> < 2 powi (?e + k + 1)"
      by (simp add: abs_mult power_int_add mult.assoc mult.left_commute)
  qed
  have u: "(2 :: rat) powi (?e + k - 52) = 2 powi (?e - 52) * 2 powi k"
    by (simp add: power_int_diff power_int_add)
  show ?thesis
    using False by (simp add: f64_rnd_def Let_def ex u)
qed simp

lemma f64_rnd_dyadic:
  assumes "\<bar>n\<bar> < 2 ^ 53"
  shows "f64_rnd (of_int n / 2 ^ k) = of_int n / 2 ^ k"
proof -
  have "(of_int n / 2 ^ k :: rat) = of_int n * 2 powi (- int k)" by (simp add: power_int_minus divide_inverse)
  then show ?thesis using f64_rnd_scale [of "of_int n" "- int k"] f64_rnd_int [OF assms] by simp
qed

lemma f64_round_eq:
  assumes "\<bar>x - of_int n\<bar> < 1 / 2"
  shows "f64_round x = n"
proof -
  have b: "of_int n - 1 / 2 < x" "x < of_int n + 1 / 2" using assms by linarith+
  have "\<lfloor>x + 1 / 2\<rfloor> = n" using b by (simp add: floor_eq_iff)
  moreover have "\<lceil>x - 1 / 2\<rceil> = n" using b by (simp add: ceiling_eq_iff)
  ultimately show ?thesis by (simp add: f64_round_def)
qed

lemma f64_round_error: "\<bar>of_int (f64_round x) - x\<bar> \<le> 1 / 2"
proof -
  have "of_int \<lfloor>x + 1 / 2\<rfloor> \<le> x + 1 / 2" "x + 1 / 2 < of_int \<lfloor>x + 1 / 2\<rfloor> + 1" by linarith+
  moreover have "x - 1 / 2 \<le> of_int \<lceil>x - 1 / 2\<rceil>" "of_int \<lceil>x - 1 / 2\<rceil> - 1 < x - 1 / 2"
    by (simp_all add: le_of_int_ceiling of_int_ceiling_le_add_one) (use ceiling_correct [of "x - 1 / 2"] in linarith)
  ultimately show ?thesis unfolding f64_round_def by (auto simp only: abs_le_iff split: if_split)
qed

lemma f64_of_int_exact: "\<bar>n\<bar> < 2 ^ 53 \<Longrightarrow> f64_of_int n = of_int n"
  unfolding f64_of_int_def by (rule f64_rnd_int)

lemma f64_of_u64_exact: "unat w < 2 ^ 53 \<Longrightarrow> f64_of_u64 w = of_nat (unat w)"
  using f64_rnd_int [of "int (unat w)"] by (simp add: f64_of_u64_def)

lemma saturate_i64_id [simp]: "in_i64 n \<Longrightarrow> saturate_i64 n = n"
  by (auto simp: saturate_i64_def in_i64_def)

lemma unat_saturate_u64: "0 \<le> n \<Longrightarrow> n < 2 ^ 64 \<Longrightarrow> unat (saturate_u64 n) = nat n"
  by (simp add: saturate_u64_def unat_eq_nat_uint uint_word_of_int_eq take_bit_int_eq_self)

text \<open>Dividing by \<open>m\<close> and multiplying by \<open>m\<close> again is off by less than a half.\<close>

lemma f64_scale_back:
  assumes "\<bar>n\<bar> \<le> 2 ^ 50" and "0 < (m :: rat)"
  shows "\<bar>f64_mul (f64_div (of_int n) m) m - of_int n\<bar> < 1 / 2"
proof -
  have small: "E < 1 / 2" if "B \<le> C + A" "E \<le> D + C" "C \<le> A / 2 ^ 53" "D \<le> B / 2 ^ 53" "A \<le> 2 ^ 50" for A B C D E :: rat
    using that by simp
  define t where "t = f64_div (of_int n) m"
  have N: "\<bar>of_int n :: rat\<bar> \<le> 2 ^ 50"
    using assms(1) by (metis of_int_abs of_int_le_iff of_int_numeral of_int_power)
  have "\<bar>t - of_int n / m\<bar> \<le> \<bar>of_int n / m\<bar> / 2 ^ 53"
    unfolding t_def f64_div_def by (rule f64_rnd_error)
  then have "\<bar>t - of_int n / m\<bar> * m \<le> \<bar>of_int n / m\<bar> / 2 ^ 53 * m"
    using assms(2) by (intro mult_right_mono) simp_all
  moreover have "\<bar>t - of_int n / m\<bar> * m = \<bar>t * m - of_int n\<bar>"
    using assms(2) by (simp add: abs_mult_pos left_diff_distrib)
  moreover have "\<bar>of_int n / m\<bar> / 2 ^ 53 * m = \<bar>of_int n\<bar> / 2 ^ 53"
    using assms(2) by (simp add: abs_divide)
  ultimately have e1: "\<bar>t * m - of_int n\<bar> \<le> \<bar>of_int n\<bar> / 2 ^ 53" by simp
  have e2: "\<bar>f64_mul t m - t * m\<bar> \<le> \<bar>t * m\<bar> / 2 ^ 53"
    unfolding f64_mul_def by (rule f64_rnd_error)
  have "\<bar>t * m\<bar> \<le> \<bar>t * m - of_int n\<bar> + \<bar>of_int n\<bar>"
    and "\<bar>f64_mul t m - of_int n\<bar> \<le> \<bar>f64_mul t m - t * m\<bar> + \<bar>t * m - of_int n\<bar>" by linarith+
  then show ?thesis unfolding t_def [symmetric] by (rule small [OF _ _ e1 e2 N])
qed

end
