(* ===== verification/Feed.thy ===== *)
theory Feed
  imports Rust_Float Core_Event "HOL-Library.Sublist"
begin

section \<open>Decimal prices, and atomic-feed: the normalizer (types.rs, normalizer.rs, connector.rs)\<close>

text \<open>
  \<open>Price\<close> and \<open>Qty\<close> are integers; the conversions from and to \<open>f64\<close> are where
  decimal market data enters and leaves the engine. The normalizer turns a raw message of any
  venue into an event payload.
\<close>

subsection \<open>Conversions\<close>

text \<open>\<open>10i64.pow(d)\<close> and \<open>10u64.pow(d)\<close> wrap in a release build; \<open>10f64.powi(d)\<close> is
  exact up to \<open>10^22\<close> and rounded beyond.\<close>

definition price_from_f64 :: "f64 \<Rightarrow> u8 \<Rightarrow> price" where
  "price_from_f64 v d = (let multiplier = wrap_i64 (10 ^ unat d) in
     saturate_i64 (f64_round (f64_mul v (f64_of_int multiplier))))"

definition price_to_f64 :: "price \<Rightarrow> u8 \<Rightarrow> f64" where
  "price_to_f64 p d = (let multiplier = f64_rnd (10 ^ unat d) in f64_div (f64_of_int p) multiplier)"

definition qty_from_f64 :: "f64 \<Rightarrow> u8 \<Rightarrow> qty" where
  "qty_from_f64 v d = (let multiplier = (10 ^ unat d :: u64) in
     saturate_u64 (f64_round (f64_mul v (f64_of_u64 multiplier))))"

definition qty_to_f64 :: "qty \<Rightarrow> u8 \<Rightarrow> f64" where
  "qty_to_f64 q d = (let multiplier = f64_rnd (10 ^ unat d) in f64_div (f64_of_u64 q) multiplier)"

lemma ten_pow_exact:
  assumes "n \<le> 15"
  shows "f64_rnd (10 ^ n) = 10 ^ n" and "f64_of_int (wrap_i64 (10 ^ n)) = 10 ^ n"
    and "f64_of_u64 (10 ^ n) = 10 ^ n"
proof -
  have le: "(10 :: int) ^ n \<le> 10 ^ 15" and le': "(10 :: nat) ^ n \<le> 10 ^ 15"
    using assms by (intro power_increasing; simp)+
  then have lt: "\<bar>(10 :: int) ^ n\<bar> < 2 ^ 53" by simp
  then show a: "f64_rnd (10 ^ n) = 10 ^ n" using f64_rnd_int [of "10 ^ n"] by simp
  have "in_i64 (10 ^ n)" using le by (intro in_i64_nonneg) simp_all
  with lt show "f64_of_int (wrap_i64 (10 ^ n)) = 10 ^ n" by (simp add: f64_of_int_exact)
  have "(10 :: u64) ^ n = of_nat (10 ^ n)" by simp
  then have "unat ((10 :: u64) ^ n) = 10 ^ n"
    using le' unat_of_nat_u64 [of "10 ^ n"] by (simp only:) simp
  then show "f64_of_u64 (10 ^ n) = 10 ^ n" using a by (simp add: f64_of_u64_def)
qed

text \<open>C28: Prices and quantities survive the conversion to \<open>f64\<close> and back: with at most 15 decimals, every
  price of magnitude up to \<open>2^50\<close> and every quantity up to \<open>2^50\<close> comes back exactly, whatever the
  two roundings did.\<close>

theorem decimal_roundtrip:
  assumes "unat d \<le> 15" and "\<bar>p\<bar> \<le> 2 ^ 50" and "unat q \<le> 2 ^ 50"
  shows "price_from_f64 (price_to_f64 p d) d = p \<and> qty_from_f64 (qty_to_f64 q d) d = q"
proof -
  note ten = ten_pow_exact [OF assms(1)]
  have m: "(0 :: rat) < 10 ^ unat d" by simp
  have "f64_of_int p = of_int p" using assms(2) by (intro f64_of_int_exact) simp
  then have "price_from_f64 (price_to_f64 p d) d = saturate_i64 p"
    using f64_round_eq [OF f64_scale_back [OF assms(2) m]]
    by (simp add: price_from_f64_def price_to_f64_def Let_def ten)
  moreover have "in_i64 p" using assms(2) by (intro in_i64_absI) simp
  moreover have "\<bar>int (unat q)\<bar> \<le> 2 ^ 50" using assms(3) by simp
  from f64_round_eq [OF f64_scale_back [OF this m]]
  have "f64_round (f64_mul (f64_div (of_nat (unat q)) (10 ^ unat d)) (10 ^ unat d)) = int (unat q)" by simp
  then have "qty_from_f64 (qty_to_f64 q d) d = saturate_u64 (int (unat q))"
    using assms(3) by (simp add: qty_from_f64_def qty_to_f64_def Let_def ten f64_of_u64_exact)
  moreover have "saturate_u64 (int (unat q)) = q"
    using assms(3) unat_saturate_u64 [of "int (unat q)"] by (simp add: word_eq_iff_unsigned [where ?'a = nat])
  ultimately show ?thesis by simp
qed

theorem decimal_roundtrip_witness:
  "price_from_f64 (price_to_f64 7000050 2) 2 = 7000050 \<and> qty_from_f64 (qty_to_f64 10000000 8) 8 = 10000000"
  using decimal_roundtrip [of 2 7000050 0] decimal_roundtrip [of 8 0 10000000] by simp

subsection \<open>The normalizer\<close>

datatype raw_feed_message =
    RawBookSnapshot string "(f64 \<times> f64) list" "(f64 \<times> f64) list" u64
  | RawBookDelta string "(f64 \<times> f64) list" "(f64 \<times> f64) list" u64
  | RawTrade string f64 f64 bool u64

record feed_normalizer =
  fn_venue :: venue
  fn_price_decimals :: u8
  fn_qty_decimals :: u8

definition normalizer_new :: "venue \<Rightarrow> u8 \<Rightarrow> u8 \<Rightarrow> feed_normalizer" where
  "normalizer_new v pd qd = \<lparr>fn_venue = v, fn_price_decimals = pd, fn_qty_decimals = qd\<rparr>"

definition convert_levels :: "feed_normalizer \<Rightarrow> (f64 \<times> f64) list \<Rightarrow> level list" where
  "convert_levels n raw = map (\<lambda>(p, q). \<lparr>lvl_price = price_from_f64 p (fn_price_decimals n),
     lvl_qty = qty_from_f64 q (fn_qty_decimals n)\<rparr>) raw"

text \<open>\<open>&clean[..clean.len() - k]\<close>\<close>

definition drop_end :: "nat \<Rightarrow> string \<Rightarrow> string" where
  "drop_end k s = take (length s - k) s"

definition parse_symbol :: "feed_normalizer \<Rightarrow> string \<Rightarrow> symbol" where
  "parse_symbol n raw =
     (let clean = filter (\<lambda>c. c \<noteq> CHR ''/'') (filter (\<lambda>c. c \<noteq> CHR ''-'') raw) in
      if suffix ''USDT'' clean then symbol_new (drop_end 4 clean) ''USDT'' (fn_venue n)
      else if suffix ''USD'' clean then symbol_new (drop_end 3 clean) ''USD'' (fn_venue n)
      else if suffix ''BTC'' clean then symbol_new (drop_end 3 clean) ''BTC'' (fn_venue n)
      else symbol_new clean ''UNKNOWN'' (fn_venue n))"

definition normalize :: "feed_normalizer \<Rightarrow> raw_feed_message \<Rightarrow> event_payload option" where
  "normalize n msg = (case msg of
     RawBookSnapshot smb bids asks ts \<Rightarrow> Some (OrderBookUpdate
       \<lparr>obu_symbol = parse_symbol n smb, obu_bids = convert_levels n bids, obu_asks = convert_levels n asks,
        obu_is_snapshot = True, obu_exchange_ts = ts\<rparr>)
   | RawBookDelta smb bids asks ts \<Rightarrow> Some (OrderBookUpdate
       \<lparr>obu_symbol = parse_symbol n smb, obu_bids = convert_levels n bids, obu_asks = convert_levels n asks,
        obu_is_snapshot = False, obu_exchange_ts = ts\<rparr>)
   | RawTrade smb p q is_buy ts \<Rightarrow> Some (Trade
       \<lparr>te_symbol = parse_symbol n smb, te_price = price_from_f64 p (fn_price_decimals n),
        te_qty = qty_from_f64 q (fn_qty_decimals n), te_side = (if is_buy then Buy else Sell), te_exchange_ts = ts\<rparr>))"

lemma normalize_examples:
  "parse_symbol (normalizer_new Binance 2 8) ''BTC-USDT'' = symbol_new ''BTC'' ''USDT'' Binance"
  "parse_symbol (normalizer_new Binance 2 8) ''ethbtc'' = symbol_new ''ETHBTC'' ''UNKNOWN'' Binance"
  by code_simp+

end
