(* ===== verification/Router.thy ===== *)
theory Router
  imports Rust_Float Book
begin

section \<open>atomic-router: the smart order router (router.rs)\<close>

text \<open>
  \<open>SmartOrderRouter\<close> keeps a book for each pair and venue in a hash map; its list is the
  map's iteration order, which ties are broken by. The VWAP proportions are \<open>f64\<close>. A
  panic (TWAP with no slices divides by zero) is \<^term>\<open>None\<close>.
\<close>

datatype routing_algo = BestVenue | VWAP | TWAP u32 u64 | LiquiditySweep

record order_slice =
  sl_venue :: venue
  sl_symbol :: symbol
  sl_side :: side
  sl_order_type :: order_type
  sl_price :: price
  sl_qty :: qty
  sl_time_in_force :: time_in_force

type_synonym router = "(string \<times> venue, order_book) hashmap"

definition router_new :: router where
  "router_new = []"

definition router_update_book :: "string \<Rightarrow> venue \<Rightarrow> order_book \<Rightarrow> router \<Rightarrow> router" where
  "router_update_book smb v b r = hm_insert (smb, v) b r"

text \<open>The entries of a pair, in iteration order: what the three loops look at.\<close>

definition venue_books :: "symbol \<Rightarrow> router \<Rightarrow> (venue \<times> order_book) list" where
  "venue_books smb r = map (\<lambda>((_, v), b). (v, b)) (filter (\<lambda>((s, _), _). s = pair smb) r)"

definition make_slice :: "symbol \<Rightarrow> side \<Rightarrow> venue \<Rightarrow> price \<Rightarrow> qty \<Rightarrow> order_slice" where
  "make_slice smb s v p q = \<lparr>sl_venue = v, sl_symbol = smb, sl_side = s, sl_order_type = Limit,
     sl_price = p, sl_qty = q, sl_time_in_force = ImmediateOrCancel\<rparr>"

subsection \<open>Best venue\<close>

definition contra_best :: "side \<Rightarrow> order_book \<Rightarrow> level option" where
  "contra_best s b = (case s of Buy \<Rightarrow> best_ask b | Sell \<Rightarrow> best_bid b)"

definition is_better :: "side \<Rightarrow> price \<Rightarrow> price \<Rightarrow> bool" where
  "is_better s p bp = (case s of Buy \<Rightarrow> p < bp | Sell \<Rightarrow> bp < p)"

definition best_step :: "side \<Rightarrow> venue \<times> order_book \<Rightarrow> (venue \<times> price) option \<Rightarrow> (venue \<times> price) option" where
  "best_step s e best = (case contra_best s (snd e) of
     None \<Rightarrow> best
   | Some l \<Rightarrow> (case best of
       None \<Rightarrow> Some (fst e, lvl_price l)
     | Some (v, bp) \<Rightarrow> if is_better s (lvl_price l) bp then Some (fst e, lvl_price l) else best))"

definition route_best_venue :: "symbol \<Rightarrow> side \<Rightarrow> qty \<Rightarrow> router \<Rightarrow> order_slice list" where
  "route_best_venue smb s q r = (case fold (best_step s) (venue_books smb r) None of
     None \<Rightarrow> [] | Some (v, p) \<Rightarrow> [make_slice smb s v p q])"

subsection \<open>VWAP\<close>

definition contra_depth :: "side \<Rightarrow> order_book \<Rightarrow> u64" where
  "contra_depth s b = (case s of Buy \<Rightarrow> ask_depth b | Sell \<Rightarrow> bid_depth b)"

definition venue_depths :: "symbol \<Rightarrow> side \<Rightarrow> router \<Rightarrow> (venue \<times> u64 \<times> price) list" where
  "venue_depths smb s r = List.map_filter (\<lambda>(v, b). map_option (\<lambda>l. (v, contra_depth s b, lvl_price l)) (contra_best s b))
     (venue_books smb r)"

definition vwap_share :: "u64 \<Rightarrow> u64 \<Rightarrow> u64 \<Rightarrow> u64" where
  "vwap_share q venue_depth total_depth =
     (let proportion = f64_div (f64_of_u64 venue_depth) (f64_of_u64 total_depth)
      in saturate_u64 (f64_round (f64_mul (f64_of_u64 q) proportion)))"

definition route_vwap :: "symbol \<Rightarrow> side \<Rightarrow> qty \<Rightarrow> router \<Rightarrow> order_slice list" where
  "route_vwap smb s q r =
     (let depths = venue_depths smb s r in
      if depths = [] then []
      else let total_depth = u64_sum (map (\<lambda>(_, d, _). d) depths) in
        if total_depth = 0 then []
        else List.map_filter (\<lambda>(v, d, p). let slice_qty = vwap_share q d total_depth in
               if slice_qty = 0 then None else Some (make_slice smb s v p slice_qty)) depths)"

subsection \<open>TWAP\<close>

definition route_twap :: "symbol \<Rightarrow> side \<Rightarrow> qty \<Rightarrow> u32 \<Rightarrow> router \<Rightarrow> order_slice list option" where
  "route_twap smb s q slices r =
     map_option (\<lambda>slice_qty. if slice_qty = 0 then []
       else concat (replicate (unat slices) (route_best_venue smb s slice_qty r)))
     (u64_div q (ucast slices))"

subsection \<open>Liquidity sweep\<close>

definition sweep_levels :: "symbol \<Rightarrow> side \<Rightarrow> router \<Rightarrow> (venue \<times> price \<times> qty) list" where
  "sweep_levels smb s r = concat (map (\<lambda>(v, b). map (\<lambda>l. (v, lvl_price l, lvl_qty l))
     (case s of Buy \<Rightarrow> top_asks 20 b | Sell \<Rightarrow> top_bids 20 b)) (venue_books smb r))"

text \<open>\<open>sort_by_key\<close> is stable.\<close>

definition sweep_sorted :: "side \<Rightarrow> (venue \<times> price \<times> qty) list \<Rightarrow> (venue \<times> price \<times> qty) list" where
  "sweep_sorted s ls = (case s of
     Buy \<Rightarrow> sort_key (\<lambda>(_, p, _). p) ls
   | Sell \<Rightarrow> sort_key (\<lambda>(_, p, _). - p) ls)"

fun sweep_loop :: "symbol \<Rightarrow> side \<Rightarrow> (venue \<times> price \<times> qty) list \<Rightarrow> i64 \<Rightarrow> order_slice list" where
  "sweep_loop smb s [] remaining = []"
| "sweep_loop smb s ((v, p, available) # ls) remaining =
     (if remaining \<le> 0 then []
      else let f = i64_as_u64 (min remaining (u64_as_i64 available))
        in make_slice smb s v p f # sweep_loop smb s ls (i64_sub remaining (u64_as_i64 f)))"

definition route_sweep :: "symbol \<Rightarrow> side \<Rightarrow> qty \<Rightarrow> router \<Rightarrow> order_slice list" where
  "route_sweep smb s q r = sweep_loop smb s (sweep_sorted s (sweep_levels smb s r)) (u64_as_i64 q)"

definition route :: "symbol \<Rightarrow> side \<Rightarrow> qty \<Rightarrow> routing_algo \<Rightarrow> router \<Rightarrow> order_slice list option" where
  "route smb s q algo r = (case algo of
     BestVenue \<Rightarrow> Some (route_best_venue smb s q r)
   | VWAP \<Rightarrow> Some (route_vwap smb s q r)
   | TWAP slices _ \<Rightarrow> route_twap smb s q slices r
   | LiquiditySweep \<Rightarrow> Some (route_sweep smb s q r))"


subsection \<open>Best venue\<close>

lemma best_fold:
  assumes "fold (best_step s) es best = res"
  shows "(res = None \<longleftrightarrow> best = None \<and> (\<forall>e \<in> set es. contra_best s (snd e) = None)) \<and>
    (\<forall>v p. res = Some (v, p) \<longrightarrow>
      (best = Some (v, p) \<or> (\<exists>e \<in> set es. fst e = v \<and> map_option lvl_price (contra_best s (snd e)) = Some p)) \<and>
      (\<forall>v' p'. best = Some (v', p') \<longrightarrow> \<not> is_better s p' p) \<and>
      (\<forall>e \<in> set es. \<forall>l. contra_best s (snd e) = Some l \<longrightarrow> \<not> is_better s (lvl_price l) p))"
  using assms
proof (induction es arbitrary: best)
  case Nil
  then show ?case by (auto simp: is_better_def split: side.split)
next
  case (Cons e es)
  let ?best = "best_step s e best"
  have ih: "(res = None \<longleftrightarrow> ?best = None \<and> (\<forall>e \<in> set es. contra_best s (snd e) = None)) \<and>
    (\<forall>v p. res = Some (v, p) \<longrightarrow>
      (?best = Some (v, p) \<or> (\<exists>e \<in> set es. fst e = v \<and> map_option lvl_price (contra_best s (snd e)) = Some p)) \<and>
      (\<forall>v' p'. ?best = Some (v', p') \<longrightarrow> \<not> is_better s p' p) \<and>
      (\<forall>e \<in> set es. \<forall>l. contra_best s (snd e) = Some l \<longrightarrow> \<not> is_better s (lvl_price l) p))"
    using Cons.prems by (intro Cons.IH) simp
  have none: "?best = None \<longleftrightarrow> best = None \<and> contra_best s (snd e) = None"
    by (auto simp: best_step_def split: option.splits)
  have better: "\<not> is_better s p' p"
    if "?best = Some (v2, p2)" "\<not> is_better s p2 p"
      and "best = Some (v', p') \<or> (\<exists>l. contra_best s (snd e) = Some l \<and> p' = lvl_price l)" for v' p' p v2 p2
    using that by (cases s) (auto simp: best_step_def is_better_def split: option.splits if_splits)
  have some: "?best = Some (v, p) \<Longrightarrow> best = Some (v, p) \<or> (fst e = v \<and> map_option lvl_price (contra_best s (snd e)) = Some p)" for v p
    by (auto simp: best_step_def split: option.splits if_splits)
  have ex: "\<exists>v2 p2. ?best = Some (v2, p2)" if "best = Some x \<or> contra_best s (snd e) = Some l" for x l
    using that none by (cases ?best) auto
  show ?case
  proof (intro conjI allI impI ballI)
    show "res = None \<longleftrightarrow> best = None \<and> (\<forall>e \<in> set (e # es). contra_best s (snd e) = None)"
      using ih none by auto
  next
    fix v p assume r: "res = Some (v, p)"
    show "best = Some (v, p) \<or> (\<exists>e \<in> set (e # es). fst e = v \<and> map_option lvl_price (contra_best s (snd e)) = Some p)"
      using ih r some [of v p] by auto
    { fix v' p' assume "best = Some (v', p')"
      with ex [of "(v', p')"] ih r better [of _ _ p v' p'] show "\<not> is_better s p' p" by blast }
    { fix e' l assume e': "e' \<in> set (e # es)" and l: "contra_best s (snd e') = Some l"
      show "\<not> is_better s (lvl_price l) p"
      proof (cases "e' \<in> set es")
        case True
        then show ?thesis using ih r l by blast
      next
        case False
        then have "contra_best s (snd e) = Some l" using e' l by simp
        with ex [of _ l] ih r better [of _ _ p _ "lvl_price l"] show ?thesis by blast
      qed }
  qed
qed

text \<open> Best-venue routing sends the whole quantity to one venue that quotes the best price for the
  pair: no other venue's best opposite level is strictly better, and nothing is routed exactly when
  no venue of the pair has an opposite level.\<close>

theorem best_venue_optimal:
  "case route_best_venue smb s q r of
     [] \<Rightarrow> \<forall>e \<in> set (venue_books smb r). contra_best s (snd e) = None
   | [sl] \<Rightarrow> (\<exists>e \<in> set (venue_books smb r). sl = make_slice smb s (fst e) (sl_price sl) q \<and>
         map_option lvl_price (contra_best s (snd e)) = Some (sl_price sl)) \<and>
       (\<forall>e \<in> set (venue_books smb r). \<forall>l. contra_best s (snd e) = Some l \<longrightarrow> \<not> is_better s (lvl_price l) (sl_price sl))
   | _ \<Rightarrow> False"
proof -
  obtain res where res: "fold (best_step s) (venue_books smb r) None = res" by blast
  show ?thesis
  proof (cases res)
    case None
    then show ?thesis using best_fold [OF res] by (simp add: route_best_venue_def res)
  next
    case (Some vp)
    obtain v p where vp: "vp = (v, p)" by fastforce
    have sl: "route_best_venue smb s q r = [make_slice smb s v p q]"
      by (simp add: route_best_venue_def res Some vp)
    have p: "sl_price (make_slice smb s v p q) = p" by (simp add: make_slice_def)
    from best_fold [OF res] Some vp show ?thesis unfolding sl list.case p by blast
  qed
qed

theorem best_venue_optimal_witness:
  "let b = (\<lambda>p. apply_snapshot [] [\<lparr>lvl_price = p, lvl_qty = 10\<rparr>] 1 1 (book_new \<lparr>sym_base = ''BTC'', sym_quote = ''USDT'', sym_venue = Binance\<rparr>));
       r = router_update_book ''BTC/USDT'' Bybit (b 100) (router_update_book ''BTC/USDT'' Binance (b 101) router_new);
       smb = \<lparr>sym_base = ''BTC'', sym_quote = ''USDT'', sym_venue = Binance\<rparr> in
     map sl_price (route_best_venue smb Buy 5 r) = [100] \<and>
     (\<forall>e \<in> set (venue_books smb r). \<forall>l. contra_best Buy (snd e) = Some l \<longrightarrow> \<not> is_better Buy (lvl_price l) 100)"
  (is "let b = ?b; r = _ b; smb = ?smb in _")
proof -
  let ?r = "router_update_book ''BTC/USDT'' Bybit (?b 100) (router_update_book ''BTC/USDT'' Binance (?b 101) router_new)"
  have "map (\<lambda>sl. (sl_price sl)) (route_best_venue ?smb Buy 5 ?r) = [100]" by code_simp
  then obtain sl where sl: "route_best_venue ?smb Buy 5 ?r = [sl]" "sl_price sl = 100" by auto
  with best_venue_optimal [where smb = ?smb and s = Buy and q = 5 and r = ?r] show ?thesis unfolding Let_def by auto
qed

subsection \<open>Liquidity sweep\<close>

definition as_levels :: "(venue \<times> price \<times> qty) list \<Rightarrow> level list" where
  "as_levels ls = map (\<lambda>(_, p, a). \<lparr>lvl_price = p, lvl_qty = a\<rparr>) ls"

definition slices_cost :: "order_slice list \<Rightarrow> int" where
  "slices_cost sls = (\<Sum>sl\<leftarrow>sls. int (unat (sl_qty sl)) * sl_price sl)"

lemma sweep_loop_exact:
  assumes "n < 2 ^ 63" and "\<forall>(v, p, a) \<in> set ls. unat a < 2 ^ 63"
  shows "total (map sl_qty (sweep_loop smb s ls (int n))) = min n (depth (as_levels ls)) \<and>
    slices_cost (sweep_loop smb s ls (int n)) = gcost (as_levels ls) n \<and>
    list_all2 (\<lambda>sl (v, p, a). sl = make_slice smb s v p (sl_qty sl) \<and> sl_qty sl \<le> a)
      (sweep_loop smb s ls (int n)) (take (length (sweep_loop smb s ls (int n))) ls)"
  using assms
proof (induction ls arbitrary: n)
  case (Cons l ls)
  obtain v p a where l: "l = (v, p, a)" using prod_cases3 by blast
  show ?case
  proof (cases "n = 0")
    case False
    let ?f = "min n (unat a)"
    have a: "unat a < 2 ^ 63" using Cons.prems(2) by (simp add: l)
    then have "u64_as_i64 a = int (unat a)" by (rule u64_as_i64_small)
    then have m: "min (int n) (u64_as_i64 a) = int ?f" by (simp add: of_nat_min)
    have f: "unat (of_nat ?f :: u64) = ?f"
      using a by (intro unat_of_nat_u64) simp
    have "u64_as_i64 (of_nat ?f) = int ?f"
      using a f by (subst u64_as_i64_small) simp_all
    then have sub: "i64_sub (int n) (u64_as_i64 (of_nat ?f)) = int (n - ?f)"
      using Cons.prems(1) by (subst i64_sub_exact) (auto simp: in_i64_def of_nat_diff)
    have step: "sweep_loop smb s (l # ls) (int n) =
        make_slice smb s v p (of_nat ?f) # sweep_loop smb s ls (int (n - ?f))"
      using False by (simp only: l sweep_loop.simps Let_def m i64_as_u64_def of_int_of_nat_eq sub) simp
    have ih: "total (map sl_qty (sweep_loop smb s ls (int (n - ?f)))) = min (n - ?f) (depth (as_levels ls)) \<and>
      slices_cost (sweep_loop smb s ls (int (n - ?f))) = gcost (as_levels ls) (n - ?f) \<and>
      list_all2 (\<lambda>sl (v, p, a). sl = make_slice smb s v p (sl_qty sl) \<and> sl_qty sl \<le> a)
        (sweep_loop smb s ls (int (n - ?f))) (take (length (sweep_loop smb s ls (int (n - ?f)))) ls)"
      using Cons.prems by (intro Cons.IH) auto
    have ms: "sl_qty (make_slice smb s v p (of_nat ?f)) = of_nat ?f" "sl_price (make_slice smb s v p (of_nat ?f)) = p"
      by (simp_all add: make_slice_def)
    have "of_nat ?f \<le> a" using f by (simp add: word_le_nat_alt)
    moreover have "as_levels (l # ls) = \<lparr>lvl_price = p, lvl_qty = a\<rparr> # as_levels ls" by (simp add: as_levels_def l)
    ultimately show ?thesis
      using ih f unfolding step slices_cost_def by (auto simp: ms l Let_def)
  qed (simp add: l slices_cost_def)
qed (simp add: slices_cost_def as_levels_def)

lemma sweep_sorted_facts:
  "mset (sweep_sorted s ls) = mset ls"
  "sorted (map lvl_price (as_levels (sweep_sorted Buy ls)))"
  "sorted (map lvl_price (map neg_level (as_levels (sweep_sorted Sell ls))))"
proof -
  show "mset (sweep_sorted s ls) = mset ls" by (cases s) (simp_all add: sweep_sorted_def)
  have *: "map lvl_price (as_levels xs) = map (\<lambda>(_, p, _). p) xs"
    "map lvl_price (map neg_level (as_levels xs)) = map (\<lambda>(_, p, _). - p) xs" for xs
    by (auto simp: as_levels_def neg_level_def)
  show "sorted (map lvl_price (as_levels (sweep_sorted Buy ls)))"
    unfolding * by (simp add: sweep_sorted_def)
  show "sorted (map lvl_price (map neg_level (as_levels (sweep_sorted Sell ls))))"
    unfolding * by (simp add: sweep_sorted_def)
qed


text \<open>Two venues, for the witnesses.\<close>

definition ex_router :: router where
  "ex_router =
     (let smb = \<lparr>sym_base = ''BTC'', sym_quote = ''USDT'', sym_venue = Binance\<rparr>;
          b = (\<lambda>ls. apply_snapshot [] ls 1 1 (book_new smb))
      in router_update_book ''BTC/USDT'' Bybit (b [\<lparr>lvl_price = 100, lvl_qty = 10\<rparr>])
        (router_update_book ''BTC/USDT'' Binance (b [\<lparr>lvl_price = 101, lvl_qty = 4\<rparr>, \<lparr>lvl_price = 99, lvl_qty = 6\<rparr>]) router_new))"

definition ex_pair :: symbol where
  "ex_pair = \<lparr>sym_base = ''BTC'', sym_quote = ''USDT'', sym_venue = Binance\<rparr>"


subsection \<open>VWAP shares\<close>

lemma f64_rnd_factor:
  assumes "0 \<le> x"
  shows "x * (1 - 1 / 2 ^ 53) \<le> f64_rnd x" and "f64_rnd x \<le> x * (1 + 1 / 2 ^ 53)"
proof -
  have "f64_rnd x - x \<le> x / 2 ^ 53" "x - f64_rnd x \<le> x / 2 ^ 53"
    using f64_rnd_error [of x] assms unfolding abs_le_iff by simp_all
  then show "x * (1 - 1 / 2 ^ 53) \<le> f64_rnd x" and "f64_rnd x \<le> x * (1 + 1 / 2 ^ 53)"
    by (simp_all add: algebra_simps)
qed

lemma vwap_share_error:
  assumes q: "unat q \<le> 2 ^ 48" and dt: "unat d \<le> unat t" and t: "0 < unat t"
  defines "X \<equiv> of_nat (unat q * unat d) / (of_nat (unat t) :: rat)"
  shows "\<bar>of_nat (unat (vwap_share q d t)) - X\<bar> < 1"
proof -
  let ?u = "1 / 2 ^ 53 :: rat"
  define D T Q :: rat where "D = of_nat (unat d)" and "T = of_nat (unat t)" and "Q = of_nat (unat q)"
  have pos: "0 \<le> D" "0 < T" "0 \<le> Q" "D \<le> T" using dt t by (simp_all add: D_def T_def Q_def)
  have Q48: "Q \<le> 2 ^ 48" using q unfolding Q_def by (metis of_nat_le_iff of_nat_numeral of_nat_power)
  have X: "X = Q * (D / T)" by (simp add: X_def Q_def D_def T_def)
  have "D / T \<le> 1" using pos by (simp add: divide_le_eq)
  then have X48: "0 \<le> X" "X \<le> 2 ^ 48"
    using pos Q48 mult_mono [of Q "2 ^ 48" "D / T" 1] by (simp_all add: X)
  define x where "x = f64_rnd D / f64_rnd T"
  have x: "D / T * ((1 - ?u) / (1 + ?u)) \<le> x" "x \<le> D / T * ((1 + ?u) / (1 - ?u))"
  proof -
    have T: "0 < f64_rnd T" using f64_rnd_factor(1) [of T] pos by (simp add: less_le_trans [OF _ f64_rnd_factor(1) [of T]])
    show "x \<le> D / T * ((1 + ?u) / (1 - ?u))"
      unfolding x_def times_divide_times_eq
      using pos f64_rnd_factor [of D] f64_rnd_factor [of T] by (intro frac_le) simp_all
    show "D / T * ((1 - ?u) / (1 + ?u)) \<le> x"
      unfolding x_def times_divide_times_eq
      using pos T f64_rnd_factor [of D] f64_rnd_factor [of T] by (intro frac_le) (simp_all add: order_trans [OF _ f64_rnd_factor(1)])
  qed
  have x0: "0 \<le> x" using x(1) pos by (intro order_trans [OF _ x(1)]) simp
  define p where "p = f64_rnd x"
  have p: "x * (1 - ?u) \<le> p" "p \<le> x * (1 + ?u)" unfolding p_def by (rule f64_rnd_factor [OF x0])+
  have p0: "0 \<le> p" using p(1) x0 by (intro order_trans [OF _ p(1)]) simp
  define s where "s = f64_rnd (Q * p)"
  have s: "Q * p * (1 - ?u) \<le> s" "s \<le> Q * p * (1 + ?u)"
    unfolding s_def by (rule f64_rnd_factor [OF mult_nonneg_nonneg [OF pos(3) p0]])+
  have DT: "0 \<le> D / T" using pos by simp
  have "s \<le> Q * (D / T * ((1 + ?u) / (1 - ?u)) * (1 + ?u)) * (1 + ?u)"
  proof -
    have "x * (1 + ?u) \<le> D / T * ((1 + ?u) / (1 - ?u)) * (1 + ?u)" by (rule mult_right_mono [OF x(2)]) simp
    with p(2) have "p \<le> D / T * ((1 + ?u) / (1 - ?u)) * (1 + ?u)" by (rule order_trans)
    then have "Q * p \<le> Q * (D / T * ((1 + ?u) / (1 - ?u)) * (1 + ?u))" using pos by (intro mult_left_mono)
    then have "Q * p * (1 + ?u) \<le> Q * (D / T * ((1 + ?u) / (1 - ?u)) * (1 + ?u)) * (1 + ?u)" by (intro mult_right_mono) simp_all
    with s(2) show ?thesis by (rule order_trans)
  qed
  also have "\<dots> = X * ((1 + ?u) / (1 - ?u) * (1 + ?u) * (1 + ?u))" by (simp only: X mult.assoc)
  also have "\<dots> \<le> X * (1 + 5 * ?u)" using X48 by (intro mult_left_mono) simp_all
  finally have up: "s \<le> X + 5 / 32" using X48 by (simp add: distrib_left)
  have "Q * (D / T * ((1 - ?u) / (1 + ?u)) * (1 - ?u)) * (1 - ?u) \<le> s"
  proof -
    have "D / T * ((1 - ?u) / (1 + ?u)) * (1 - ?u) \<le> x * (1 - ?u)" by (rule mult_right_mono [OF x(1)]) simp
    then have "D / T * ((1 - ?u) / (1 + ?u)) * (1 - ?u) \<le> p" using p(1) by (rule order_trans)
    then have "Q * (D / T * ((1 - ?u) / (1 + ?u)) * (1 - ?u)) \<le> Q * p" using pos by (intro mult_left_mono)
    then have "Q * (D / T * ((1 - ?u) / (1 + ?u)) * (1 - ?u)) * (1 - ?u) \<le> Q * p * (1 - ?u)" by (intro mult_right_mono) simp_all
    with s(1) show ?thesis by (rule order_trans [rotated])
  qed
  then have "X * ((1 - ?u) / (1 + ?u) * (1 - ?u) * (1 - ?u)) \<le> s"
    by (simp only: X mult.assoc)
  moreover have "X * (1 - 5 * ?u) \<le> X * ((1 - ?u) / (1 + ?u) * (1 - ?u) * (1 - ?u))"
    using X48 by (intro mult_left_mono) simp_all
  ultimately have "X * (1 - 5 * ?u) \<le> s" by (rule order_trans [rotated])
  then have low: "X - 5 / 32 \<le> s" using X48 by (simp add: right_diff_distrib)
  let ?n = "f64_round s"
  have e: "\<bar>of_int ?n - s\<bar> \<le> 1 / 2" by (rule f64_round_error)
  then have n: "(of_int ?n :: rat) < 2 ^ 48 + 1" "(-1 :: rat) < of_int ?n" using up low X48 by linarith+
  then have "(of_int ?n :: rat) < of_int (2 ^ 48 + 1)" "(of_int (-1) :: rat) < of_int ?n" by simp_all
  then have "?n < 2 ^ 48 + 1" "-1 < ?n" by (simp_all only: of_int_less_iff)
  then have "unat (saturate_u64 ?n) = nat ?n" "0 \<le> ?n" by (simp_all add: unat_saturate_u64)
  moreover have "vwap_share q d t = saturate_u64 ?n"
    unfolding vwap_share_def Let_def f64_mul_def f64_div_def f64_of_u64_def s_def p_def x_def D_def T_def Q_def
    using q f64_rnd_int [of "int (unat q)"] by simp
  ultimately have "(of_nat (unat (vwap_share q d t)) :: rat) = of_int ?n" by simp
  with e up low show ?thesis by linarith
qed

lemma vwap_slices:
  assumes "total_depth \<noteq> 0"
  shows "total (map sl_qty (List.map_filter (\<lambda>(v, d, p). let slice_qty = vwap_share q d total_depth in
      if slice_qty = 0 then None else Some (make_slice smb s v p slice_qty)) depths)) =
    (\<Sum>(v, d, p)\<leftarrow>depths. unat (vwap_share q d total_depth))"
  by (induction depths) (auto simp: List.map_filter_simps Let_def make_slice_def)

lemma sum_list_close:
  assumes "\<And>x. x \<in> set xs \<Longrightarrow> \<bar>f x - g x\<bar> < (1 :: rat)" and "xs \<noteq> []"
  shows "\<bar>sum_list (map f xs) - sum_list (map g xs)\<bar> < of_nat (length xs)"
proof -
  have "\<bar>sum_list (map f xs) - sum_list (map g xs)\<bar> \<le> of_nat (length xs) \<and>
      (xs \<noteq> [] \<longrightarrow> \<bar>sum_list (map f xs) - sum_list (map g xs)\<bar> < of_nat (length xs))"
    using assms(1)
  proof (induction xs)
    case (Cons x xs)
    have "\<bar>f x - g x\<bar> < 1" using Cons.prems by simp
    moreover have "\<bar>sum_list (map f xs) - sum_list (map g xs)\<bar> \<le> of_nat (length xs)"
      using Cons.IH Cons.prems by simp
    moreover have "sum_list (map f (x # xs)) - sum_list (map g (x # xs)) =
        (f x - g x) + (sum_list (map f xs) - sum_list (map g xs))" by simp
    ultimately show ?case unfolding list.size of_nat_Suc by linarith
  qed simp
  with assms(2) show ?thesis by blast
qed

text \<open> VWAP routing is proportional up to rounding: for quantities up to \<open>2^48\<close> every venue's slice differs
  from its exact proportional share \<open>qty * depth / total_depth\<close> by less than one unit in spite
  of the floating-point arithmetic, but the slices together may miss or exceed the quantity,
  by less than the number of venues.\<close>

theorem vwap_proportional:
  assumes q: "unat q \<le> 2 ^ 48" and sum: "total (map (\<lambda>(_, d, _). d) (venue_depths smb s r)) < 2 ^ 64"
    and nz: "total (map (\<lambda>(_, d, _). d) (venue_depths smb s r)) \<noteq> 0"
  defines "T \<equiv> total (map (\<lambda>(_, d, _). d) (venue_depths smb s r))"
  shows "(\<forall>sl \<in> set (route_vwap smb s q r). \<exists>(v, d, p) \<in> set (venue_depths smb s r).
      sl = make_slice smb s v p (sl_qty sl) \<and>
      \<bar>int (unat (sl_qty sl)) * int T - int (unat q) * int (unat d)\<bar> < int T) \<and>
    \<bar>int (total (map sl_qty (route_vwap smb s q r))) - int (unat q)\<bar> < int (length (venue_depths smb s r))"
proof -
  let ?ds = "venue_depths smb s r"
  define t where "t = u64_sum (map (\<lambda>(_, d, _). d) ?ds)"
  have t: "unat t = T" unfolding t_def T_def by (rule unat_u64_sum [OF sum])
  have T: "0 < T" using nz unfolding T_def by (simp only: neq0_conv)
  then have t0: "t \<noteq> 0" using t by auto
  have ne: "?ds \<noteq> []" using nz by auto
  have rv: "route_vwap smb s q r = List.map_filter (\<lambda>(v, d, p). let slice_qty = vwap_share q d t in
      if slice_qty = 0 then None else Some (make_slice smb s v p slice_qty)) ?ds"
    using ne t0 by (simp add: route_vwap_def Let_def t_def)
  have le: "unat d \<le> T" if "(v, d, p) \<in> set ?ds" for v d p
    unfolding T_def using that by (intro sum_list_le_member) force
  have err: "\<bar>of_nat (unat (vwap_share q d t)) - of_nat (unat q * unat d) / (of_nat T :: rat)\<bar> < 1"
    if "(v, d, p) \<in> set ?ds" for v d p
    using vwap_share_error [OF q, of d t] le [OF that] T by (simp add: t)
  have scaled: "\<bar>int (unat w) * int T - int (unat q) * int (unat d)\<bar> < int T"
    if "\<bar>of_nat (unat w) - of_nat (unat q * unat d) / (of_nat T :: rat)\<bar> < 1" for w d :: u64
  proof -
    have "\<bar>of_nat (unat w) - of_nat (unat q * unat d) / (of_nat T :: rat)\<bar> * of_nat T < 1 * of_nat T"
      using that T by (intro mult_strict_right_mono) simp_all
    moreover have "\<bar>of_nat (unat w) - of_nat (unat q * unat d) / (of_nat T :: rat)\<bar> * of_nat T =
        \<bar>of_int (int (unat w) * int T - int (unat q) * int (unat d))\<bar>"
      using T by (simp add: abs_mult_pos left_diff_distrib)
    ultimately have "(of_int \<bar>int (unat w) * int T - int (unat q) * int (unat d)\<bar> :: rat) < of_int (int T)" by simp
    then show ?thesis by (simp only: of_int_less_iff)
  qed
  have "\<exists>(v, d, p) \<in> set ?ds. sl = make_slice smb s v p (sl_qty sl) \<and>
      \<bar>int (unat (sl_qty sl)) * int T - int (unat q) * int (unat d)\<bar> < int T" if "sl \<in> set (route_vwap smb s q r)" for sl
  proof -
    from that obtain v d p where e: "(v, d, p) \<in> set ?ds" "sl = make_slice smb s v p (vwap_share q d t)"
      unfolding rv by (auto simp: List.map_filter_def Let_def split: if_splits)
    then show ?thesis using scaled [OF err [OF e(1)]] by (auto intro!: bexI [OF _ e(1)] simp: make_slice_def)
  qed
  moreover have "\<bar>int (total (map sl_qty (route_vwap smb s q r))) - int (unat q)\<bar> < int (length ?ds)"
  proof -
    let ?f = "\<lambda>(v, d, p). (of_nat (unat (vwap_share q d t)) :: rat)" and ?g = "\<lambda>(v, d, p). of_nat (unat q * unat d) / (of_nat T :: rat)"
    have close: "\<bar>sum_list (map ?f ?ds) - sum_list (map ?g ?ds)\<bar> < of_nat (length ?ds)"
      by (rule sum_list_close [OF _ ne]) (use err in auto)
    have f: "sum_list (map ?f ds) = of_nat (\<Sum>(v, d, p)\<leftarrow>ds. unat (vwap_share q d t))" for ds
      by (induction ds) auto
    have fs: "sum_list (map ?f ?ds) = of_nat (total (map sl_qty (route_vwap smb s q r)))"
      unfolding rv vwap_slices [OF t0] by (rule f)
    have g: "sum_list (map ?g ds) = of_nat (unat q) * of_nat (total (map (\<lambda>(_, d, _). d) ds)) / of_nat T" for ds
      by (induction ds) (auto simp: add_divide_distrib distrib_left)
    have gs: "sum_list (map ?g ?ds) = of_nat (unat q)" unfolding g T_def [symmetric] using T by simp
    have "(of_int \<bar>int (total (map sl_qty (route_vwap smb s q r))) - int (unat q)\<bar> :: rat) < of_int (int (length ?ds))"
      using close unfolding fs gs by simp
    then show ?thesis by (simp only: of_int_less_iff)
  qed
  ultimately show ?thesis by blast
qed

theorem vwap_proportional_witness:
  "map (\<lambda>sl. (sl_venue sl, sl_qty sl)) (route_vwap ex_pair Buy 5 ex_router) = [(Binance, 3), (Bybit, 3)] \<and>
   \<bar>int (total (map sl_qty (route_vwap ex_pair Buy 5 ex_router))) - 5\<bar> < 2"
proof -
  have d: "venue_depths ex_pair Buy ex_router = [(Binance, 10, 99), (Bybit, 10, 100)]" by code_simp
  have half: "f64_rnd (1 / 2) = 1 / 2" and fh: "f64_rnd (5 / 2) = 5 / 2"
    using f64_rnd_dyadic [of 1 1] f64_rnd_dyadic [of 5 1] by simp_all
  have ints: "f64_rnd 5 = 5" "f64_rnd 10 = 10" "f64_rnd 20 = 20"
    using f64_rnd_int [of 5] f64_rnd_int [of 10] f64_rnd_int [of 20] by simp_all
  have "vwap_share 5 10 20 = 3"
    by (simp add: vwap_share_def f64_of_u64_def f64_div_def f64_mul_def ints half fh f64_round_def saturate_u64_def)
  then have "map (\<lambda>sl. (sl_venue sl, sl_qty sl)) (route_vwap ex_pair Buy 5 ex_router) = [(Binance, 3), (Bybit, 3)]"
    by (simp add: route_vwap_def d u64_sum_def List.map_filter_simps make_slice_def)
  with vwap_proportional [of 5 ex_pair Buy ex_router] show ?thesis unfolding d by simp
qed

text \<open>TWAP divides the quantity and forgets the remainder; without slices it panics.\<close>

lemma route_twap_total:
  assumes "route_twap smb s q n r = Some slices"
  shows "total (map sl_qty slices) \<le> unat q \<and> (slices = [] \<or> total (map sl_qty slices) = unat n * (unat q div unat n))"
    and "route_twap smb s q 0 r = None"
proof -
  have n0: "(ucast n :: u64) \<noteq> 0"
    using assms by (auto simp: route_twap_def u64_div_def split: if_splits)
  have "unat n < 2 ^ 64" using unsigned_less [of n, where ?'a = nat] by simp
  then have len: "unat (ucast n :: u64) = unat n"
    using unat_of_nat_u64 [of "unat n"] by (simp add: of_nat_unat)
  have sl: "slices = (if q div ucast n = 0 then [] else concat (replicate (unat n) (route_best_venue smb s (q div ucast n) r)))"
    using assms n0 by (auto simp: route_twap_def u64_div_def split: if_splits)
  have "route_best_venue smb s w r = [] \<or> (\<exists>sl. route_best_venue smb s w r = [sl] \<and> sl_qty sl = w)" for w
    by (auto simp: route_best_venue_def make_slice_def split: option.split)
  then consider "slices = []" | sl where "sl_qty sl = q div ucast n" "slices = concat (replicate (unat n) [sl])"
    using sl by (metis concat_replicate_trivial)
  moreover have "unat n * (unat q div unat n) \<le> unat q" by simp
  ultimately show "total (map sl_qty slices) \<le> unat q \<and> (slices = [] \<or> total (map sl_qty slices) = unat n * (unat q div unat n))"
    by cases (auto simp: unat_div_distrib len sum_list_replicate)
  show "route_twap smb s q 0 r = None" by (simp add: route_twap_def u64_div_def)
qed

end
