(* ===== verification/Node_Config.thy ===== *)
theory Node_Config
  imports Feed Risk Event_Log
begin

section \<open>atomic-node: the configuration and the symbols in it (config.rs, main.rs)\<close>

text \<open>
  The configuration records with their defaults, the accessors, and loading from a file.
  \<open>serde_json\<close> is a parameter, the environment a map. Strings are ASCII, so that
  \<open>to_uppercase\<close> works byte by byte and every byte offset is a character boundary.
\<close>

record strategy_config =
  stc_order_qty :: u64
  stc_max_inventory :: u64
  stc_half_spread_pipettes :: i64
  stc_gamma :: i64
  stc_warmup_ticks :: u32
  stc_cooldown_ticks :: u32
  stc_requote_threshold :: i64
  stc_vpin_enabled :: "bool option"
  stc_stale_order_timeout_secs :: u64

definition strategy_config_default :: strategy_config where
  "strategy_config_default = \<lparr>stc_order_qty = 100000, stc_max_inventory = 20000000,
     stc_half_spread_pipettes = 10, stc_gamma = 1000, stc_warmup_ticks = 3, stc_cooldown_ticks = 2,
     stc_requote_threshold = 5, stc_vpin_enabled = None, stc_stale_order_timeout_secs = 30\<rparr>"

record gateway_settings =
  gs_mode :: string
  gs_api_key_env :: string
  gs_api_secret_env :: string
  gs_enabled :: bool

definition gateway_settings_default :: gateway_settings where
  "gateway_settings_default = \<lparr>gs_mode = ''testnet'', gs_api_key_env = ''ATOMIC_API_KEY'',
     gs_api_secret_env = ''ATOMIC_API_SECRET'', gs_enabled = False\<rparr>"

definition env_var :: "(string \<Rightarrow> string option) \<Rightarrow> string \<Rightarrow> (string, string) result" where
  "env_var env name = (case env name of
     None \<Rightarrow> Inl (''env var '' @ [CHR 0x27] @ name @ [CHR 0x27] @ '' not set'') | Some v \<Rightarrow> Inr v)"

definition api_key :: "(string \<Rightarrow> string option) \<Rightarrow> gateway_settings \<Rightarrow> (string, string) result" where
  "api_key env g = env_var env (gs_api_key_env g)"

definition api_secret :: "(string \<Rightarrow> string option) \<Rightarrow> gateway_settings \<Rightarrow> (string, string) result" where
  "api_secret env g = env_var env (gs_api_secret_env g)"

definition is_testnet :: "gateway_settings \<Rightarrow> bool" where
  "is_testnet g \<longleftrightarrow> gs_mode g = ''testnet''"

record peer_config =
  pc_node_id :: string
  pc_addr :: string

record feed_config =
  fc_venue :: venue
  fc_symbols :: "string list"
  fc_price_decimals :: u8
  fc_qty_decimals :: u8

record node_config =
  nc_node_id :: string
  nc_role :: node_role
  nc_bind_addr :: string
  nc_peers :: "peer_config list"
  nc_feeds :: "feed_config list"
  nc_risk :: risk_limits
  nc_event_log_path :: string
  nc_snapshot_interval :: u64
  nc_gateway :: gateway_settings
  nc_strategy :: strategy_config

definition node_config_default :: node_config where
  "node_config_default = \<lparr>nc_node_id = ''node-0'', nc_role = Leader, nc_bind_addr = ''0.0.0.0:5001'',
     nc_peers = [],
     nc_feeds = [\<lparr>fc_venue = Binance, fc_symbols = [''BTCUSDT''], fc_price_decimals = 2, fc_qty_decimals = 8\<rparr>],
     nc_risk = limits_default, nc_event_log_path = ''data/events.log'', nc_snapshot_interval = 10000,
     nc_gateway = gateway_settings_default, nc_strategy = strategy_config_default\<rparr>"

datatype config_error = Unreadable | Json string | Unsupported_format

definition config_from_file ::
  "(u8 list \<Rightarrow> string + node_config) \<Rightarrow> files \<Rightarrow> string \<Rightarrow> (node_config, config_error) result" where
  "config_from_file parse fs path = (case fs path of
     None \<Rightarrow> Inl Unreadable
   | Some content \<Rightarrow>
       if suffix ''.json'' path
       then (case parse content of Inl e \<Rightarrow> Inl (Json e) | Inr c \<Rightarrow> Inr c)
       else Inl Unsupported_format)"

subsection \<open>Symbols\<close>

definition known_quotes :: "string list" where
  "known_quotes = [''USDT'', ''USDC'', ''BUSD'', ''FDUSD'', ''BTC'', ''ETH'', ''EUR'', ''USD'', ''TRY'', ''BNB'', ''JPY'']"

definition split_end :: "nat \<Rightarrow> string \<Rightarrow> venue \<Rightarrow> symbol" where
  "split_end k s v = symbol_new (drop_end k s) (drop (length s - k) s) v"

definition parse_venue_symbol :: "string \<Rightarrow> venue \<Rightarrow> symbol" where
  "parse_venue_symbol raw v =
     (let upper = to_uppercase raw in
      case find (\<lambda>q. suffix q upper \<and> length q < length upper) known_quotes of
        Some q \<Rightarrow> symbol_new (drop_end (length q) upper) q v
      | None \<Rightarrow> if 4 < length upper then split_end 4 upper v
                else if 3 < length upper then split_end 3 upper v
                else symbol_new upper ''USDT'' v)"

text \<open>The symbol a market maker is registered for: the last four bytes are the quote.\<close>

definition registered_symbol :: "string \<Rightarrow> venue \<Rightarrow> symbol" where
  "registered_symbol s v = symbol_new (take (length s - 4) s) (drop (length s - 4) s) v"

text \<open>The symbol of the first feed, on which the node trades.\<close>

definition primary_symbol :: "venue \<Rightarrow> node_config \<Rightarrow> symbol" where
  "primary_symbol fallback c = (case nc_feeds c of
     [] \<Rightarrow> parse_venue_symbol ''BTCUSDT'' fallback
   | f # _ \<Rightarrow> (case fc_symbols f of
       [] \<Rightarrow> parse_venue_symbol ''BTCUSDT'' fallback
     | s # _ \<Rightarrow> parse_venue_symbol s (fc_venue f)))"

lemma upper_parts: "to_uppercase a @ to_uppercase b = to_uppercase (a @ b)"
  by (simp add: to_uppercase_def)

lemma to_uppercase_idem [simp]: "to_uppercase (to_uppercase s) = to_uppercase s"
proof -
  have "\<not> (CHR ''a'' \<le> (char_of (of_char c - (32 :: nat)) :: char))" if "c \<le> CHR ''z''" for c :: char
  proof -
    have "of_char c \<le> (122 :: nat)" using that by (simp add: less_eq_char_def)
    then have "of_char c - 32 < (97 :: nat)" by simp
    then have "of_char (char_of (of_char c - (32 :: nat)) :: char) < (97 :: nat)" by simp
    then show ?thesis by (simp add: less_eq_char_def)
  qed
  then show ?thesis by (simp add: to_uppercase_def)
qed

lemma split_end_parts: "sym_base (split_end k s v) @ sym_quote (split_end k s v) = to_uppercase s"
  by (simp add: split_end_def symbol_new_def drop_end_def upper_parts)

lemma suffix_drop_end: "suffix q s \<Longrightarrow> drop_end (length q) s @ q = s"
  by (auto simp: suffix_def drop_end_def)

text \<open> Splitting an exchange symbol loses nothing: base and quote put together are the
  upper-cased input whenever it has more than three characters, and the quote is a known one whenever
  one of the known quotes properly ends the input; a shorter input becomes a base quoted in USDT.\<close>

theorem parse_venue_symbol_splits:
  "let smb = parse_venue_symbol raw v; up = to_uppercase raw in
   (if length up \<le> 3 then smb = symbol_new up ''USDT'' v else sym_base smb @ sym_quote smb = up) \<and>
   sym_venue smb = v \<and> (\<forall>q. q \<in> set known_quotes \<and> suffix q up \<and> q \<noteq> up \<longrightarrow> sym_quote smb \<in> set known_quotes)"
proof -
  let ?up = "to_uppercase raw" and ?P = "\<lambda>q. suffix q (to_uppercase raw) \<and> length q < length (to_uppercase raw)"
  have long: "q \<in> set known_quotes \<Longrightarrow> 3 \<le> length q" for q by (auto simp: known_quotes_def)
  show ?thesis
  proof (cases "find ?P known_quotes")
    case None
    then have no: "\<not> ?P q" if "q \<in> set known_quotes" for q using that by (simp add: find_None_iff)
    then have "\<not> (q \<in> set known_quotes \<and> suffix q ?up \<and> q \<noteq> ?up)" for q
      by (metis suffix_length_le suffix_order.dual_order.refl le_neq_implies_less suffix_def append_Nil
          append_eq_append_conv)
    with None show ?thesis
      by (auto simp: parse_venue_symbol_def Let_def split_end_parts) (auto simp: split_end_def symbol_new_def)
  next
    case (Some q)
    then have q: "q \<in> set known_quotes" "suffix q ?up" "length q < length ?up"
      by (auto simp: find_Some_iff in_set_conv_nth)
    have uq: "to_uppercase q = q" using q(1) by (auto simp: known_quotes_def to_uppercase_def less_eq_char_def)
    have smb: "parse_venue_symbol raw v = symbol_new (drop_end (length q) ?up) q v"
      using Some by (simp add: parse_venue_symbol_def)
    have "sym_base (parse_venue_symbol raw v) @ sym_quote (parse_venue_symbol raw v) = ?up"
      unfolding smb by (simp add: symbol_new_def upper_parts suffix_drop_end [OF q(2)])
    moreover have "sym_quote (parse_venue_symbol raw v) = q" "sym_venue (parse_venue_symbol raw v) = v"
      by (simp_all add: smb symbol_new_def uq)
    ultimately show ?thesis using q(1,3) long [OF q(1)] by (simp add: Let_def)
  qed
qed

lemma parse_venue_symbol_splits_witness:
  "parse_venue_symbol ''btcusdt'' Binance = symbol_new ''BTC'' ''USDT'' Binance \<and>
   sym_quote (parse_venue_symbol ''ethbtc'' Binance) \<in> set known_quotes \<and>
   sym_base (parse_venue_symbol ''ethbtc'' Binance) @ sym_quote (parse_venue_symbol ''ethbtc'' Binance) = ''ETHBTC'' \<and>
   parse_venue_symbol ''ab'' Binance = symbol_new ''AB'' ''USDT'' Binance"
proof -
  have u: "to_uppercase ''ethbtc'' = ''ETHBTC''" "to_uppercase ''ab'' = ''AB''" by code_simp+
  have "parse_venue_symbol ''btcusdt'' Binance = symbol_new ''BTC'' ''USDT'' Binance"
    and k: "''BTC'' \<in> set known_quotes \<and> suffix ''BTC'' ''ETHBTC'' \<and> ''BTC'' \<noteq> ''ETHBTC''" by code_simp+
  moreover note parse_venue_symbol_splits [of "''ethbtc''" Binance, unfolded u Let_def]
    parse_venue_symbol_splits [of "''ab''" Binance, unfolded u Let_def]
  ultimately show ?thesis by auto
qed

text \<open> The symbol a market maker is registered for is the symbol the normalizer delivers exactly for
  pairs quoted in USDT: for any other symbol of at least four characters without separators, the
  strategy waits for a pair that its feed never sends.\<close>

theorem registered_symbol_matches_feed:
  assumes "fn_venue n = v" and "4 \<le> length s" and "CHR ''-'' \<notin> set s" and "CHR ''/'' \<notin> set s"
  shows "registered_symbol s v = parse_symbol n s \<longleftrightarrow> suffix ''USDT'' s"
proof -
  have clean: "filter (\<lambda>c. c \<noteq> CHR ''/'') (filter (\<lambda>c. c \<noteq> CHR ''-'') s) = s"
    using assms(3,4) by (auto simp: filter_id_conv)
  have len: "length (to_uppercase q) = length q" for q by (simp add: to_uppercase_def)
  have four: "length (sym_quote (registered_symbol s v)) = 4"
    using assms(2) by (simp add: registered_symbol_def symbol_new_def len)
  show ?thesis
  proof (cases "suffix ''USDT'' s")
    case True
    then obtain b where "s = b @ ''USDT''" by (auto simp: suffix_def)
    then show ?thesis
      using True clean assms(1) by (simp add: registered_symbol_def parse_symbol_def drop_end_def)
  next
    case False
    then have "length (sym_quote (parse_symbol n s)) \<noteq> 4"
      unfolding parse_symbol_def Let_def clean by (simp add: symbol_new_def len)
    with four False show ?thesis by metis
  qed
qed

lemma registered_symbol_matches_feed_witness:
  "registered_symbol ''BTCUSDT'' Binance = parse_symbol (normalizer_new Binance 2 8) ''BTCUSDT'' \<and>
   registered_symbol ''ETHBTC'' Binance \<noteq> parse_symbol (normalizer_new Binance 2 8) ''ETHBTC''"
proof -
  have u: "suffix ''USDT'' ''BTCUSDT''" "\<not> suffix ''USDT'' ''ETHBTC''" by code_simp+
  show ?thesis
    using registered_symbol_matches_feed [of "normalizer_new Binance 2 8" Binance "''BTCUSDT''"]
      registered_symbol_matches_feed [of "normalizer_new Binance 2 8" Binance "''ETHBTC''"] u
    by (simp add: normalizer_new_def)
qed

end
