(* ===== verification/Hotpath.thy ===== *)
theory Hotpath
  imports Core_Event
begin

section \<open>atomic-hotpath: the wrapper of the C++ engine (lib.rs)\<close>

text \<open>
  The quoting engine itself is C++ behind an opaque pointer and is a parameter: a record of its
  entry points on a state of any type. The Rust wrapper is modelled: the conversion of levels, the
  truncation to the buffers of \<open>MAX_LEVELS\<close> entries, the sides as integers, and the reading of
  a result's command array, which panics when the engine reports more commands than it has slots.
\<close>

record hp_level =
  hl_price :: i64
  hl_qty :: u64

record hp_command =
  hc_tag :: int
  hc_price :: i64
  hc_qty :: u64

record hp_result =
  hr_commands :: "hp_command list"
  hr_count :: int
  hr_fair_value :: i64
  hr_vpin :: i64
  hr_skew :: i64
  hr_half_spread :: i64
  hr_compute_ns :: i64

definition hp_result_default :: hp_result where
  "hp_result_default = \<lparr>hr_commands = replicate 4 \<lparr>hc_tag = 0, hc_price = 0, hc_qty = 0\<rparr>,
     hr_count = 0, hr_fair_value = 0, hr_vpin = 0, hr_skew = 0, hr_half_spread = 0, hr_compute_ns = 0\<rparr>"

text \<open>The foreign functions: what \<open>extern "C"\<close> declares, on the engine behind the pointer.\<close>

record 'h hp_engine =
  hp_book_update :: "hp_level list \<Rightarrow> hp_level list \<Rightarrow> bool \<Rightarrow> 'h \<Rightarrow> hp_result \<times> 'h"
  hp_trade :: "int \<Rightarrow> i64 \<Rightarrow> u64 \<Rightarrow> 'h \<Rightarrow> hp_result \<times> 'h"
  hp_fill :: "int \<Rightarrow> u64 \<Rightarrow> i64 \<Rightarrow> 'h \<Rightarrow> 'h"

definition max_levels :: nat where
  "max_levels = 40"

definition hp_levels :: "level list \<Rightarrow> hp_level list" where
  "hp_levels ls = map (\<lambda>l. \<lparr>hl_price = lvl_price l, hl_qty = lvl_qty l\<rparr>) (take (min (length ls) max_levels) ls)"

definition hp_side :: "side \<Rightarrow> int" where
  "hp_side s = (case s of Buy \<Rightarrow> 0 | Sell \<Rightarrow> 1)"

definition hp_on_book_update :: "'h hp_engine \<Rightarrow> level list \<Rightarrow> level list \<Rightarrow> bool \<Rightarrow> 'h \<Rightarrow> hp_result \<times> 'h" where
  "hp_on_book_update hp bids asks is_snapshot h = hp_book_update hp (hp_levels bids) (hp_levels asks) is_snapshot h"

definition hp_on_trade :: "'h hp_engine \<Rightarrow> side \<Rightarrow> price \<Rightarrow> qty \<Rightarrow> 'h \<Rightarrow> hp_result \<times> 'h" where
  "hp_on_trade hp s p q h = hp_trade hp (hp_side s) p q h"

definition hp_on_fill :: "'h hp_engine \<Rightarrow> side \<Rightarrow> qty \<Rightarrow> price \<Rightarrow> 'h \<Rightarrow> 'h" where
  "hp_on_fill hp s q p h = hp_fill hp (hp_side s) q p h"

text \<open>\<open>for i in 0..result.count { &result.commands[i as usize] }\<close>, on the array of 4 commands.\<close>

definition hp_commands :: "hp_result \<Rightarrow> hp_command list option" where
  "hp_commands r = (if 4 < hr_count r then None else Some (take (nat (hr_count r)) (hr_commands r)))"

lemma hp_commands_length: "hp_commands r = Some cs \<Longrightarrow> length cs \<le> 4"
  by (auto simp: hp_commands_def split: if_splits)

subsection \<open>Creation and queries\<close>

text \<open>\<open>hp_engine_create\<close> returns a pointer that may be null, which the wrapper asserts it is not.\<close>

record 'h hp_factory =
  hp_engine_create :: "u64 \<Rightarrow> i64 \<Rightarrow> int \<Rightarrow> int \<Rightarrow> int \<Rightarrow> int \<Rightarrow> i64 \<Rightarrow> bool \<Rightarrow> 'h option"
  hp_best_bid :: "'h \<Rightarrow> i64"
  hp_best_ask :: "'h \<Rightarrow> i64"
  hp_mid_price :: "'h \<Rightarrow> i64"
  hp_spread :: "'h \<Rightarrow> i64"
  hp_imbalance :: "'h \<Rightarrow> i64"
  hp_position :: "'h \<Rightarrow> i64"
  hp_realized_pnl :: "'h \<Rightarrow> i64"

definition hotpath_new :: "'h hp_factory \<Rightarrow> u64 \<Rightarrow> i64 \<Rightarrow> int \<Rightarrow> int \<Rightarrow> int \<Rightarrow> int \<Rightarrow> i64 \<Rightarrow> bool \<Rightarrow> 'h option" where
  "hotpath_new f order_qty max_inventory half_spread_pipettes gamma warmup_ticks cooldown_ticks requote_threshold vpin_enabled =
     hp_engine_create f order_qty max_inventory half_spread_pipettes gamma warmup_ticks cooldown_ticks requote_threshold vpin_enabled"

definition hotpath_quotes :: "'h hp_factory \<Rightarrow> 'h \<Rightarrow> price \<times> price \<times> price \<times> price" where
  "hotpath_quotes f h = (hp_best_bid f h, hp_best_ask f h, hp_mid_price f h, hp_spread f h)"

definition hotpath_state :: "'h hp_factory \<Rightarrow> 'h \<Rightarrow> i64 \<times> i64 \<times> i64" where
  "hotpath_state f h = (hp_imbalance f h, hp_position f h, hp_realized_pnl f h)"

end
