(* ===== verification/Sim_Execution.thy ===== *)
theory Sim_Execution
  imports Execution Simulator
begin

section \<open>The exchange and the execution engine together\<close>

text \<open>
  The node sends orders to an exchange and feeds the events that come back into its execution
  engine. This theory connects the simulated exchange (\<open>Simulator\<close>) with the engine
  (\<open>Execution\<close>): \<open>accepts\<close> is what the engine's specification says about the events of
  one order, and \<open>linked\<close> is the invariant that the events still pending at the exchange are
  acceptable to the engine and bring it into agreement with the exchange's resting orders.
\<close>

subsection \<open>The events of one order\<close>

inductive accepts :: "event list \<Rightarrow> live_order option \<Rightarrow> live_order option \<Rightarrow> bool" where
  accepts_none: "accepts [] c c"
| accepts_step: "order_moves ev c c1 \<Longrightarrow> accepts evs c1 c2 \<Longrightarrow> accepts (ev # evs) c c2"

inductive_simps accepts_simps [simp]: "accepts [] c c'" "accepts (ev # evs) c c'"

lemma accepts_append: "accepts (xs @ ys) c c' \<longleftrightarrow> (\<exists>d. accepts xs c d \<and> accepts ys d c')"
  by (induction xs arbitrary: c) auto

lemma order_moves_unique: "order_moves ev c c1 \<Longrightarrow> order_moves ev c c2 \<Longrightarrow> c1 = c2"
  by (elim order_movesE) (auto simp: fill_of_def linorder_not_le)

lemma accepts_unique: "accepts evs c c1 \<Longrightarrow> accepts evs c c2 \<Longrightarrow> c1 = c2"
  by (induction evs arbitrary: c) (auto dest: order_moves_unique)

definition about :: "order_id \<Rightarrow> event list \<Rightarrow> event list" where
  "about k evs = filter (\<lambda>ev. event_order ev = Some k) evs"

lemma about_simps [simp]:
  "about k [] = []"
  "about k (ev # evs) = (if event_order ev = Some k then ev # about k evs else about k evs)"
  "about k (xs @ ys) = about k xs @ about k ys"
  by (simp_all add: about_def)

text \<open>When every order accepts its own events of a list, the engine accepts the first one.\<close>

lemma accepted_head:
  assumes "event_order ev = Some j"
    and acc: "\<forall>k. \<exists>c. accepts (about k (ev # evs)) (hm_get (ee_orders en) k) c"
  obtains ord where "order_moves ev (hm_get (ee_orders en) j) (Some ord)"
    and "process_event ev en = (Inr True, en\<lparr>ee_orders := hm_insert j ord (ee_orders en)\<rparr>)"
    and "\<forall>k. \<exists>c. accepts (about k evs) (hm_get (hm_insert j ord (ee_orders en)) k) c"
proof -
  obtain r en' where pe: "process_event ev en = (r, en')" by fastforce
  obtain c1 where c1: "order_moves ev (hm_get (ee_orders en) j) c1" "\<exists>c. accepts (about j evs) c1 c"
    using acc [rule_format, of j] by (auto simp: assms(1)) blast
  obtain ord where r: "r = Inr True" and ord: "order_moves ev (hm_get (ee_orders en) j) (Some ord)"
    and en': "en' = en\<lparr>ee_orders := hm_insert j ord (ee_orders en)\<rparr>"
    using process_event_cases [OF pe] assms(1) c1(1) by auto
  have "c1 = Some ord" using order_moves_unique [OF c1(1) ord] .
  then have "\<exists>c. accepts (about k evs) (hm_get (hm_insert j ord (ee_orders en)) k) c" for k
    using c1(2) acc [rule_format, of k] assms(1) by (cases "k = j") (auto simp: hm_get_insert)
  with ord pe r en' show ?thesis by (intro that) auto
qed

text \<open>An engine accepts a list of order events when every order accepts its own.\<close>

lemma run_accepts:
  assumes "\<forall>ev \<in> set evs. event_order ev \<noteq> None"
    and "\<forall>k. \<exists>c. accepts (about k evs) (hm_get (ee_orders en) k) c"
  shows "set (fst (run_ops process_step en evs)) \<subseteq> {Inr True} \<and>
    (\<forall>k. accepts (about k evs) (hm_get (ee_orders en) k) (hm_get (ee_orders (run_events evs en)) k))"
  using assms
proof (induction evs arbitrary: en)
  case (Cons ev evs)
  obtain j where j: "event_order ev = Some j" using Cons.prems(1) by auto
  obtain ord where ord: "order_moves ev (hm_get (ee_orders en) j) (Some ord)"
    and pe: "process_event ev en = (Inr True, en\<lparr>ee_orders := hm_insert j ord (ee_orders en)\<rparr>)"
    and rest: "\<forall>k. \<exists>c. accepts (about k evs) (hm_get (hm_insert j ord (ee_orders en)) k) c"
    using accepted_head [OF j Cons.prems(2)] by blast
  let ?en' = "en\<lparr>ee_orders := hm_insert j ord (ee_orders en)\<rparr>"
  have ih: "set (fst (run_ops process_step ?en' evs)) \<subseteq> {Inr True}"
    "\<And>k. accepts (about k evs) (hm_get (hm_insert j ord (ee_orders en)) k) (hm_get (ee_orders (run_events evs ?en')) k)"
    using Cons.IH [of ?en'] Cons.prems(1) rest by simp_all
  have run: "run_events (ev # evs) en = run_events evs ?en'"
    by (simp add: snd_run_ops_Cons pe del: run_ops.simps(2))
  have "accepts (about k (ev # evs)) (hm_get (ee_orders en) k) (hm_get (ee_orders (run_events (ev # evs) en)) k)" for k
    using ih(2) [of k] ord j unfolding run by (auto simp: hm_get_insert split: if_splits)
  moreover have "set (fst (run_ops process_step en (ev # evs))) \<subseteq> {Inr True}"
    using ih(1) by (cases "run_ops process_step ?en' evs") (simp add: pe)
  ultimately show ?case by blast
qed simp

text \<open>The sequence numbers, which the exchange assigns when it is drained, do not matter to the engine.\<close>

lemma process_event_seq: "process_event (ev\<lparr>ev_seq := n\<rparr>) en = process_event ev en"
  by (cases "ev_payload ev") (simp_all add: process_event_def)

lemma run_number_from: "run_ops process_step en (number_from n evs) = run_ops process_step en evs"
  by (induction evs arbitrary: n en) (simp_all add: process_event_seq)

subsection \<open>What a submitted order is told\<close>

abbreviation is_open :: "live_order \<Rightarrow> bool" where
  "is_open lo \<equiv> lo_state lo = Ack \<or> lo_state lo = PartialFill"

lemma unat_add_below: "unat (a :: u64) + unat b \<le> unat (c :: u64) \<Longrightarrow> unat (a + b) = unat a + unat b"
  by (rule unat_add_lem [THEN iffD1]) (rule le_less_trans [OF _ unsigned_less])

text \<open>A fill of \<open>f\<close> out of the \<open>rem\<close> that is left, as the engine books it.\<close>

definition book_fill :: "event \<Rightarrow> u64 \<Rightarrow> u64 \<Rightarrow> live_order \<Rightarrow> live_order" where
  "book_fill ev f rest lo = lo\<lparr>lo_filled_qty := lo_filled_qty lo + f, lo_remaining_qty := rest,
     lo_state := (if rest = 0 then Filled else PartialFill), lo_updated_at := ev_timestamp ev\<rparr>"

lemma fill_accepted:
  assumes "fill_of ev = Some e" and "is_open lo"
    and "unat (lo_filled_qty lo) + unat (fe_qty e) + unat rest = unat (lo_original_qty lo)"
  shows "order_moves ev (Some lo) (Some (book_fill ev (fe_qty e) rest lo))"
proof -
  let ?new = "lo_filled_qty lo + fe_qty e"
  have sum: "unat ?new = unat (lo_filled_qty lo) + unat (fe_qty e)"
    using assms(3) by (intro unat_add_below [of _ _ "lo_original_qty lo"]) simp
  have "unat (?new + rest) = unat ?new + unat rest"
    using assms(3) sum by (intro unat_add_below [of _ _ "lo_original_qty lo"]) simp
  then have "?new + rest = lo_original_qty lo"
    using assms(3) sum by (simp add: word_unat_eq_iff)
  then have rest: "rest = lo_original_qty lo - ?new" by (simp add: eq_diff_eq add.commute)
  show ?thesis
  proof (cases "rest = 0")
    case True
    then have "lo_original_qty lo \<le> lo_filled_qty lo + fe_qty e"
      using assms(3) sum by (simp add: word_le_nat_alt)
    from completed [OF assms(1,2) this] True show ?thesis by (simp add: book_fill_def)
  next
    case False
    then have "unat rest \<noteq> 0" by (simp add: unat_eq_0)
    then have "lo_filled_qty lo + fe_qty e < lo_original_qty lo"
      using assms(3) sum by (simp add: word_less_nat_alt)
    from part_filled [OF assms(1,2) this] False show ?thesis by (simp add: book_fill_def flip: rest)
  qed
qed

lemma book_fill_simps [simp]:
  "lo_filled_qty (book_fill ev f rest lo) = lo_filled_qty lo + f"
  "lo_original_qty (book_fill ev f rest lo) = lo_original_qty lo"
  "lo_remaining_qty (book_fill ev f rest lo) = rest"
  "is_open (book_fill ev f rest lo) \<longleftrightarrow> rest \<noteq> 0"
  "order_terms (book_fill ev f rest lo) = order_terms lo"
  by (simp_all add: book_fill_def order_terms_def)

text \<open>An order in agreement with the exchange, which has \<open>rem\<close> of it left.\<close>

definition left_open :: "u64 \<Rightarrow> live_order \<Rightarrow> bool" where
  "left_open rem lo \<longleftrightarrow> (rem \<noteq> 0 \<longrightarrow> is_open lo) \<and> lo_remaining_qty lo = rem \<and>
     unat (lo_filled_qty lo) + unat rem = unat (lo_original_qty lo)"

lemma fills_accepted:
  assumes "is_open lo" and "left_open rem lo" and "total (map snd fills) + unat r = unat rem"
    and "\<forall>(p, f) \<in> set fills. f \<noteq> 0"
  shows "\<exists>lo'. accepts (fill_events x ord ts src fills rem) (Some lo) (Some lo') \<and>
    left_open r lo' \<and> order_terms lo' = order_terms lo"
  using assms
proof (induction fills arbitrary: lo rem)
  case Nil
  then have "r = rem" by (simp add: word_unat_eq_iff)
  with Nil show ?case by auto
next
  case (Cons fl fills)
  obtain p f where fl: "fl = (p, f)" by fastforce
  define rest where "rest = u64_saturating_sub rem f"
  define ev where "ev = taker_fill_event x ord ts src fl rest"
  have f: "f \<noteq> 0" "f \<le> rem" using Cons.prems(3,4) by (auto simp: fl word_le_nat_alt)
  then have rest: "unat rest + unat f = unat rem"
    by (simp add: rest_def u64_saturating_sub_le unat_sub word_le_nat_alt)
  have ev: "fill_of ev = Some e \<Longrightarrow> fe_qty e = f" for e
    by (auto simp: ev_def taker_fill_event_def fill_of_def fl)
  obtain e where e: "fill_of ev = Some e" by (simp add: ev_def taker_fill_event_def fill_of_def)
  define lo1 where "lo1 = book_fill ev f rest lo"
  have q: "unat (lo_filled_qty lo) + unat f + unat rest = unat (lo_original_qty lo)"
    using Cons.prems(2) rest by (simp add: left_open_def)
  have moves: "order_moves ev (Some lo) (Some lo1)"
    using fill_accepted [OF e Cons.prems(1), of rest] q by (simp add: ev [OF e] lo1_def)
  have "unat (lo_filled_qty lo + f) = unat (lo_filled_qty lo) + unat f"
    using q by (intro unat_add_below [of _ _ "lo_original_qty lo"]) simp
  with q have lo1: "left_open rest lo1"
    by (simp add: left_open_def lo1_def)
  have evs: "fill_events x ord ts src (fl # fills) rem = ev # fill_events x ord ts src fills rest"
    by (simp add: Let_def ev_def rest_def fl)
  have tot: "total (map snd fills) + unat r = unat rest"
    using Cons.prems(3) rest by (simp add: fl)
  have terms: "order_terms lo1 = order_terms lo" by (simp add: lo1_def)
  show ?case
  proof (cases "rest = 0")
    case True
    then have z: "total (map snd fills) = 0" "unat r = 0" using tot by auto
    have "fills = []"
      using z(1) Cons.prems(4) by (cases fills) (auto simp: unat_eq_0)
    moreover have "r = rest" using z(2) True by (simp add: unat_eq_0)
    ultimately show ?thesis unfolding evs using moves lo1 terms by auto
  next
    case False
    then have "is_open lo1" by (simp add: lo1_def)
    from Cons.IH [OF this lo1 tot] Cons.prems(4) moves terms show ?thesis
      unfolding evs by auto
  qed
qed

subsection \<open>The invariant of the connection\<close>

text \<open>
  \<open>follows\<close>: what the engine knows of an order agrees with the exchange: an order that rests there
  is open, with the same terms and the same quantity left, and an order that does not rest there is
  not one the engine still waits for.
\<close>

definition waiting :: "live_order \<Rightarrow> bool" where
  "waiting lo \<longleftrightarrow> lo_order_type lo = Limit \<and> lo_time_in_force lo \<noteq> ImmediateOrCancel \<and>
     lo_time_in_force lo \<noteq> FillOrKill \<and> \<not> is_terminal (lo_state lo) \<and> lo_remaining_qty lo \<noteq> 0"

definition follows :: "sim_order option \<Rightarrow> live_order option \<Rightarrow> bool" where
  "follows so c = (case so of
     None \<Rightarrow> (case c of None \<Rightarrow> True | Some lo \<Rightarrow> \<not> waiting lo)
   | Some so \<Rightarrow> (\<exists>lo. c = Some lo \<and> is_open lo \<and>
       left_open (so_remaining so) lo \<and> lo_symbol lo = so_symbol so \<and> lo_side lo = so_side so \<and>
       lo_price lo = so_price so \<and> lo_original_qty lo = so_qty so))"

text \<open>An event the exchange may have pending: news of an order the engine knows, a fill with that order's terms.\<close>

definition fill_terms :: "execution_engine \<Rightarrow> event \<Rightarrow> bool" where
  "fill_terms en ev = (case fill_of ev of None \<Rightarrow> True
   | Some e \<Rightarrow> (case hm_get (ee_orders en) (fe_order_id e) of None \<Rightarrow> False
       | Some lo \<Rightarrow> lo_side lo = fe_side e \<and> lo_symbol lo = fe_symbol e))"

definition order_news :: "execution_engine \<Rightarrow> event \<Rightarrow> bool" where
  "order_news en ev \<longleftrightarrow> event_order ev \<noteq> None \<and> (\<forall>e. ev_payload ev \<noteq> OrderNew e) \<and> fill_terms en ev"

lemma order_news_keep:
  assumes "order_news en ev"
    and "\<And>k lo. hm_get (ee_orders en) k = Some lo \<Longrightarrow>
      \<exists>lo'. hm_get (ee_orders en') k = Some lo' \<and> order_terms lo' = order_terms lo"
  shows "order_news en' ev"
proof -
  have "fill_terms en' ev"
  proof (cases "fill_of ev")
    case (Some e)
    with assms(1) obtain lo where "hm_get (ee_orders en) (fe_order_id e) = Some lo"
      "lo_side lo = fe_side e" "lo_symbol lo = fe_symbol e"
      by (auto simp: order_news_def fill_terms_def split: option.splits)
    with assms(2) Some show ?thesis by (fastforce simp: fill_terms_def order_terms_def)
  qed (simp add: fill_terms_def)
  with assms(1) show ?thesis by (simp add: order_news_def)
qed

definition linked :: "exchange \<Rightarrow> execution_engine \<Rightarrow> bool" where
  "linked x en \<longleftrightarrow> exchange_wf x \<and> engine_wf en \<and> (\<forall>ev \<in> set (sx_pending x). order_news en ev) \<and>
     (\<forall>k. \<exists>c. accepts (about k (sx_pending x)) (hm_get (ee_orders en) k) c \<and>
        follows (hm_get (sx_resting x) k) c)"

lemma linkedI:
  assumes "exchange_wf x" and "engine_wf en" and "\<And>ev. ev \<in> set (sx_pending x) \<Longrightarrow> order_news en ev"
    and "\<And>k. \<exists>c. accepts (about k (sx_pending x)) (hm_get (ee_orders en) k) c \<and> follows (hm_get (sx_resting x) k) c"
  shows "linked x en"
  using assms by (simp add: linked_def)

lemma linkedE:
  assumes "linked x en"
  obtains c where "accepts (about k (sx_pending x)) (hm_get (ee_orders en) k) c"
    and "follows (hm_get (sx_resting x) k) c"
  using assms by (auto simp: linked_def)

lemma follows_None [simp]: "follows None c \<longleftrightarrow> (\<forall>lo. c = Some lo \<longrightarrow> \<not> waiting lo)"
  by (auto simp: follows_def split: option.splits)

lemma linked_new: "linked (exchange_new c) engine_new"
  by (rule linkedI [OF exchange_wf_new engine_wf_new]) (auto simp: exchange_new_def engine_new_def hm_get_def)

text \<open>An order the engine has never heard of has no events pending and does not rest.\<close>

lemma unknown_order:
  assumes "linked x en" and "hm_get (ee_orders en) k = None"
  shows "about k (sx_pending x) = []" and "hm_get (sx_resting x) k = None"
proof -
  from assms(1) obtain c where c: "accepts (about k (sx_pending x)) (hm_get (ee_orders en) k) c"
    "follows (hm_get (sx_resting x) k) c" by (rule linkedE)
  show nil: "about k (sx_pending x) = []"
  proof (cases "about k (sx_pending x)")
    case (Cons ev evs)
    then have "ev \<in> set (sx_pending x)" by (auto simp: about_def dest: filter_eq_ConsD)
    then have "order_news en ev" using assms(1) by (simp add: linked_def)
    moreover from c(1) Cons assms(2) obtain c1 where "order_moves ev None c1" by auto
    ultimately show ?thesis by (auto simp: order_news_def order_moves_None)
  qed
  with c assms(2) show "hm_get (sx_resting x) k = None"
    by (auto simp: follows_def split: option.splits)
qed

text \<open>Draining: the engine accepts everything, and agrees with the exchange afterwards.\<close>

lemma linked_drain:
  fixes n :: u64
  assumes "linked x en"
  defines "d \<equiv> drain_events n x"
  shows "set (fst (run_ops process_step en (fst d))) \<subseteq> {Inr True}" (is ?ok)
    and "linked (snd d) (run_events (fst d) en)" (is ?linked)
    and "\<And>k. follows (hm_get (sx_resting x) k) (hm_get (ee_orders (run_events (fst d) en)) k)"
proof -
  have "\<forall>ev \<in> set (sx_pending x). event_order ev \<noteq> None"
    using assms(1) by (auto simp: linked_def order_news_def)
  moreover have "\<forall>k. \<exists>c. accepts (about k (sx_pending x)) (hm_get (ee_orders en) k) c"
    using assms(1) by (auto simp: linked_def)
  ultimately have run: "set (fst (run_ops process_step en (sx_pending x))) \<subseteq> {Inr True}"
    "\<And>k. accepts (about k (sx_pending x)) (hm_get (ee_orders en) k)
      (hm_get (ee_orders (run_events (sx_pending x) en)) k)"
    using run_accepts [of "sx_pending x" en] by blast+
  have d: "fst d = number_from n (sx_pending x)" "snd d = x\<lparr>sx_pending := []\<rparr>"
    by (simp_all add: d_def drain_events_def)
  show ?ok using run(1) by (simp add: d run_number_from)
  show fo: "follows (hm_get (sx_resting x) k) (hm_get (ee_orders (run_events (fst d) en)) k)" for k
  proof -
    from assms(1) obtain c where "accepts (about k (sx_pending x)) (hm_get (ee_orders en) k) c"
      "follows (hm_get (sx_resting x) k) c" by (rule linkedE)
    with run(2) [of k] accepts_unique show ?thesis by (metis d(1) run_number_from)
  qed
  have "exchange_wf (snd d)" "engine_wf (run_events (fst d) en)"
    using assms(1) by (auto simp: linked_def d exchange_wf_def
      intro: run_ops_invariant [where P = engine_wf] engine_wf_process)
  then show ?linked by (rule linkedI) (use fo in \<open>auto simp: d\<close>)
qed

subsection \<open>Submitting, cancelling and book updates keep the connection\<close>

lemma about_all: "\<forall>ev \<in> set evs. event_order ev = Some j \<Longrightarrow> about k evs = (if k = j then evs else [])"
  by (induction evs) auto

lemma process_new:
  "hm_get (ee_orders en) (ne_order_id ord) = None \<Longrightarrow> ev_payload ev = OrderNew ord \<Longrightarrow>
   process_event ev en = (Inr True, en\<lparr>ee_orders := hm_insert (ne_order_id ord)
     (live_order_new (ne_order_id ord) (ne_symbol ord) (ne_side ord) (ne_order_type ord) (ne_price ord)
       (ne_qty ord) (ne_time_in_force ord) (ne_venue ord) (ev_timestamp ev)) (ee_orders en)\<rparr>)"
  by (simp add: process_event_def register_order_def and_ok_def live_order_new_def)

lemma fill_events_order: "ev \<in> set (fill_events x ord ts src fills rem) \<Longrightarrow>
  event_order ev = Some (ne_order_id ord) \<and> (\<forall>e. ev_payload ev \<noteq> OrderNew e) \<and>
  (\<forall>e. fill_of ev = Some e \<longrightarrow> fe_side e = ne_side ord \<and> fe_symbol e = ne_symbol ord)"
  by (induction fills arbitrary: rem) (auto simp: Let_def taker_fill_event_def event_order_def fill_of_def)

text \<open>What a submission tells of the order, and what the exchange keeps of it.\<close>

lemma submit_told:
  fixes ts :: u64 and src :: node_id
  assumes wf: "exchange_wf x" and norest: "hm_get (sx_resting x) (ne_order_id ord) = None"
  defines "x' \<equiv> submit_order ord ts src x"
  shows "\<exists>news lo. sx_pending x' = sx_pending x @ news \<and>
    (\<forall>ev \<in> set news. event_order ev = Some (ne_order_id ord) \<and> (\<forall>e. ev_payload ev \<noteq> OrderNew e) \<and>
      (\<forall>e. fill_of ev = Some e \<longrightarrow> fe_side e = ne_side ord \<and> fe_symbol e = ne_symbol ord)) \<and>
    accepts news (Some (live_order_new (ne_order_id ord) (ne_symbol ord) (ne_side ord) (ne_order_type ord)
      (ne_price ord) (ne_qty ord) (ne_time_in_force ord) (ne_venue ord) ts')) (Some lo) \<and>
    follows (hm_get (sx_resting x') (ne_order_id ord)) (Some lo) \<and>
    (\<forall>k. k \<noteq> ne_order_id ord \<longrightarrow> hm_get (sx_resting x') k = hm_get (sx_resting x) k)"
proof -
  let ?lo0 = "live_order_new (ne_order_id ord) (ne_symbol ord) (ne_side ord) (ne_order_type ord)
      (ne_price ord) (ne_qty ord) (ne_time_in_force ord) (ne_venue ord) ts'"
  have new: "lo_state ?lo0 = New" by (simp add: live_order_new_def)
  show ?thesis
  proof (cases "refuses ord x")
    case (Some why)
    let ?ev = "reject_event ord why (ts + sc_ack_latency_ns (sx_config x)) src"
    have "ev_payload ?ev = OrderReject \<lparr>re_order_id = ne_order_id ord, re_reason = why, re_venue = Simulated\<rparr>"
      by (simp add: reject_event_def)
    from rejected [OF this new] obtain lo where "order_moves ?ev (Some ?lo0) (Some lo)" "lo_state lo = Rejected"
      by force
    then show ?thesis
      using norest by (intro exI [of _ "[?ev]"] exI [of _ lo])
        (simp add: x'_def submit_refused [OF Some] push_event_def reject_event_def event_order_def fill_of_def waiting_def)
  next
    case None
    obtain m' fills r where m: "match_order (case hm_get (sx_books x) (pair (ne_symbol ord)) of None \<Rightarrow> [] | Some b \<Rightarrow> contra (ne_side ord) b)
        (ne_side ord) (ne_qty ord) (limit_price ord) = (m', fills, r)"
      and pend: "sx_pending x' = sx_pending x @
        sim_ack_event ord (sx_next_exchange_id x) (ts + sc_ack_latency_ns (sx_config x)) src #
        fill_events x ord (ts + sc_fill_latency_ns (sx_config x)) src fills (ne_qty ord) @
        ioc_cancel ord (ts + sc_fill_latency_ns (sx_config x)) src r"
      and res: "sx_resting x' = (if rests ord r then
        hm_insert (ne_order_id ord) (rest_order ord r ts src) (sx_resting x) else sx_resting x)"
      using submit_accepted [OF wf None, of ts src] unfolding x'_def by blast
    let ?ack = "sim_ack_event ord (sx_next_exchange_id x) (ts + sc_ack_latency_ns (sx_config x)) src"
    let ?fills = "fill_events x ord (ts + sc_fill_latency_ns (sx_config x)) src fills (ne_qty ord)"
    let ?ioc = "ioc_cancel ord (ts + sc_fill_latency_ns (sx_config x)) src r"
    have "side_wf (case hm_get (sx_books x) (pair (ne_symbol ord)) of None \<Rightarrow> [] | Some b \<Rightarrow> contra (ne_side ord) b)"
      using wf by (auto simp: exchange_wf_def sim_book_wf_contra side_wf_Nil split: option.split)
    note spec = match_order_spec(2,4) [OF this m]
    obtain lo1 where ack: "order_moves ?ack (Some ?lo0) (Some lo1)" "is_open lo1"
        "left_open (ne_qty ord) lo1" "order_terms lo1 = order_terms ?lo0"
      using acked [of ?ack _ ?lo0, OF _ new] 
      by (auto simp: sim_ack_event_def live_order_new_def left_open_def order_terms_def)
    obtain lo2 where fills: "accepts ?fills (Some lo1) (Some lo2)" "left_open r lo2" "order_terms lo2 = order_terms lo1"
      using fills_accepted [OF ack(2,3) spec(1)] spec(2) by fast
    have "\<exists>lo. accepts ?ioc (Some lo2) (Some lo) \<and> (rests ord r \<longrightarrow> lo = lo2) \<and> (lo = lo2 \<or> lo_state lo = Canceled)"
    proof (cases "r \<noteq> 0 \<and> ne_time_in_force ord = ImmediateOrCancel")
      case True
      let ?c = "cancel_event (ne_order_id ord) ''ioc_expired'' (ts + sc_fill_latency_ns (sx_config x)) src"
      have "is_open lo2" using fills(2) True by (simp add: left_open_def)
      from canceled [of ?c _ lo2, OF _ this] True show ?thesis
        by (auto simp: ioc_cancel_def cancel_event_def rests_def)
    qed (auto simp: ioc_cancel_def)
    then obtain lo where lo: "accepts ?ioc (Some lo2) (Some lo)" "rests ord r \<Longrightarrow> lo = lo2"
      "lo = lo2 \<or> lo_state lo = Canceled" by blast
    have terms: "order_terms lo2 = order_terms ?lo0" using fills(3) ack(4) by simp
    have "follows (hm_get (sx_resting x') (ne_order_id ord)) (Some lo)"
    proof (cases "rests ord r")
      case True
      then show ?thesis using lo(2) [OF True] fills(2) terms
        by (auto simp: res hm_get_insert follows_def rest_order_def order_terms_def live_order_new_def rests_def left_open_def)
    next
      case False
      then have "\<not> waiting lo2"
        using fills(2) terms by (auto simp: waiting_def rests_def left_open_def order_terms_def live_order_new_def)
      then show ?thesis using lo(3) False norest by (auto simp: res waiting_def)
    qed
    moreover have "accepts (?ack # ?fills @ ?ioc) (Some ?lo0) (Some lo)"
      using ack(1) fills(1) lo(1) by (auto simp: accepts_append)
    moreover have "\<forall>ev \<in> set (?ack # ?fills @ ?ioc). event_order ev = Some (ne_order_id ord) \<and> (\<forall>e. ev_payload ev \<noteq> OrderNew e) \<and>
        (\<forall>e. fill_of ev = Some e \<longrightarrow> fe_side e = ne_side ord \<and> fe_symbol e = ne_symbol ord)"
      using fill_events_order by (auto simp: sim_ack_event_def ioc_cancel_def cancel_event_def event_order_def fill_of_def)
    moreover have "\<forall>k. k \<noteq> ne_order_id ord \<longrightarrow> hm_get (sx_resting x') k = hm_get (sx_resting x) k"
      by (simp add: res hm_get_insert)
    ultimately show ?thesis using pend by blast
  qed
qed

text \<open>A change that only concerns the order \<open>j\<close> keeps the connection if it does for that order.\<close>

lemma linked_news:
  assumes "linked x en" and "exchange_wf x'" and "engine_wf en'"
    and "sx_pending x' = sx_pending x @ news"
    and "\<And>ev. ev \<in> set news \<Longrightarrow> order_news en' ev"
    and known: "\<And>k lo. hm_get (ee_orders en) k = Some lo \<Longrightarrow> hm_get (ee_orders en') k = Some lo"
    and "\<And>k. k \<notin> K \<Longrightarrow> about k news = [] \<and> hm_get (ee_orders en') k = hm_get (ee_orders en) k \<and>
      hm_get (sx_resting x') k = hm_get (sx_resting x) k"
    and "\<And>k. k \<in> K \<Longrightarrow> \<exists>c. accepts (about k (sx_pending x) @ about k news) (hm_get (ee_orders en') k) c \<and>
      follows (hm_get (sx_resting x') k) c"
  shows "linked x' en'"
proof (rule linkedI [OF assms(2,3)])
  show "order_news en' ev" if "ev \<in> set (sx_pending x')" for ev
  proof (cases "ev \<in> set (sx_pending x)")
    case True
    then have "order_news en ev" using assms(1) by (simp add: linked_def)
    then show ?thesis by (rule order_news_keep) (auto dest: known)
  qed (use that assms(4,5) in auto)
  show "\<exists>c. accepts (about k (sx_pending x')) (hm_get (ee_orders en') k) c \<and> follows (hm_get (sx_resting x') k) c" for k
  proof (cases "k \<in> K")
    case True
    from assms(8) [OF this] show ?thesis by (simp add: assms(4))
  next
    case False
    with assms(1,7) show ?thesis by (auto simp: assms(4) elim: linkedE [of x en k])
  qed
qed

lemma linked_submit:
  fixes ts :: u64 and src :: node_id
  assumes link: "linked x en" and fresh: "hm_get (ee_orders en) (ne_order_id ord) = None"
    and ev: "ev_payload ev = OrderNew ord"
  shows "linked (submit_order ord ts src x) (snd (process_event ev en))"
proof -
  let ?oid = "ne_order_id ord" and ?x' = "submit_order ord ts src x"
  note pe = process_new [OF fresh ev]
  note unknown = unknown_order [OF link fresh]
  have wf: "exchange_wf x" "engine_wf en" using link by (auto simp: linked_def)
  obtain news lo where news: "sx_pending ?x' = sx_pending x @ news"
      "\<forall>ev \<in> set news. event_order ev = Some ?oid \<and> (\<forall>e. ev_payload ev \<noteq> OrderNew e) \<and>
        (\<forall>e. fill_of ev = Some e \<longrightarrow> fe_side e = ne_side ord \<and> fe_symbol e = ne_symbol ord)"
      "accepts news (hm_get (ee_orders (snd (process_event ev en))) ?oid) (Some lo)"
      "follows (hm_get (sx_resting ?x') ?oid) (Some lo)"
      "\<forall>k. k \<noteq> ?oid \<longrightarrow> hm_get (sx_resting ?x') k = hm_get (sx_resting x) k"
    using submit_told [OF wf(1) unknown(2), of ts src "ev_timestamp ev"] by (auto simp: pe hm_get_insert)
  have ab: "about k news = (if k = ?oid then news else [])" for k
    using news(2) by (intro about_all) auto
  show ?thesis
  proof (rule linked_news [OF link exchange_wf_submit [OF wf(1)] engine_wf_process [OF wf(2)] news(1), where K = "{?oid}"])
    show "order_news (snd (process_event ev en)) ev'" if "ev' \<in> set news" for ev'
    proof -
      have "fe_order_id e = ?oid" if "fill_of ev' = Some e" for e
        using news(2) \<open>ev' \<in> set news\<close> fill_of_order [OF that] by auto
      then show ?thesis
        using that news(2) by (auto simp: order_news_def fill_terms_def pe hm_get_insert live_order_new_def split: option.splits)
    qed
    show "hm_get (ee_orders (snd (process_event ev en))) k = Some lo" if "hm_get (ee_orders en) k = Some lo" for k lo
      using that fresh by (auto simp: pe hm_get_insert)
  next
    fix k assume "k \<notin> {?oid}"
    then show "about k news = [] \<and> hm_get (ee_orders (snd (process_event ev en))) k = hm_get (ee_orders en) k \<and>
      hm_get (sx_resting ?x') k = hm_get (sx_resting x) k"
      using news(5) by (simp add: ab pe hm_get_insert)
  next
    fix k assume k: "k \<in> {?oid}"
    then show "\<exists>c. accepts (about k (sx_pending x) @ about k news) (hm_get (ee_orders (snd (process_event ev en))) k) c \<and>
      follows (hm_get (sx_resting ?x') k) c"
      using news(3,4) by (auto simp: ab unknown(1))
  qed
qed

lemma linked_cancel:
  fixes ts :: u64 and src :: node_id
  assumes link: "linked x en"
  shows "linked (cancel_order oid ts src x) en"
proof (cases "hm_get (sx_resting x) oid")
  case None
  with link show ?thesis by (simp add: cancel_order_def)
next
  case (Some so)
  let ?ev = "cancel_event oid ''user_cancel'' (ts + sc_ack_latency_ns (sx_config x)) src"
  let ?x' = "cancel_order oid ts src x"
  have wf: "exchange_wf x" "engine_wf en" using link by (auto simp: linked_def)
  have x': "sx_pending ?x' = sx_pending x @ [?ev]" "sx_resting ?x' = hm_remove oid (sx_resting x)"
    using Some by (simp_all add: cancel_order_def push_event_def)
  have ev: "event_order ?ev = Some oid" by (simp add: cancel_event_def event_order_def)
  show ?thesis
  proof (rule linked_news [OF link exchange_wf_cancel [OF wf(1)] wf(2) x'(1), where K = "{oid}"])
    fix k assume k: "k \<in> {oid}"
    from link obtain c where c: "accepts (about oid (sx_pending x)) (hm_get (ee_orders en) oid) c"
      "follows (Some so) c" using Some by (metis linkedE)
    then obtain lo where lo: "c = Some lo" "is_open lo" by (auto simp: follows_def)
    from canceled [of ?ev _ lo, OF _ lo(2)] obtain lo' where "order_moves ?ev (Some lo) (Some lo')" "lo_state lo' = Canceled"
      by (auto simp: cancel_event_def)
    with c lo k show "\<exists>c. accepts (about k (sx_pending x) @ about k [?ev]) (hm_get (ee_orders en) k) c \<and>
      follows (hm_get (sx_resting ?x') k) c"
      by (auto simp: accepts_append ev x' hm_get_remove waiting_def)
  qed (auto simp: ev x' hm_get_remove order_news_def cancel_event_def event_order_def fill_terms_def fill_of_def)
qed

lemma about_concat:
  assumes "distinct ids" and "\<And>i ev. ev \<in> set (f i) \<Longrightarrow> event_order ev = Some i"
  shows "about k (concat (map f ids)) = (if k \<in> set ids then f k else [])"
proof -
  have "about k (f i) = (if k = i then f i else [])" for i
    using assms(2) by (intro about_all) blast
  then show ?thesis using assms(1) by (induction ids) auto
qed

text \<open>The engine knows every resting order, with its terms.\<close>

lemma accepts_terms: "accepts evs (Some lo) (Some lo') \<Longrightarrow> order_terms lo' = order_terms lo"
proof (induction evs arbitrary: lo)
  case (Cons ev evs)
  then obtain c where c: "order_moves ev (Some lo) c" "accepts evs c (Some lo')" by auto
  then obtain lo1 where "c = Some lo1" by (auto elim: order_movesE)
  with c Cons.IH order_moves_terms show ?case by fastforce
qed simp

lemma linked_known:
  assumes link: "linked x en" and rest: "hm_get (sx_resting x) k = Some so"
  shows "\<exists>lo. hm_get (ee_orders en) k = Some lo \<and> lo_side lo = so_side so \<and> lo_symbol lo = so_symbol so"
proof -
  obtain lo where lo: "hm_get (ee_orders en) k = Some lo"
    using unknown_order(2) [OF link, of k] rest by (cases "hm_get (ee_orders en) k") auto
  from link obtain c where c: "accepts (about k (sx_pending x)) (hm_get (ee_orders en) k) c"
    "follows (hm_get (sx_resting x) k) c" by (rule linkedE)
  then obtain lo' where "c = Some lo'" "lo_side lo' = so_side so" "lo_symbol lo' = so_symbol so"
    using rest by (auto simp: follows_def)
  with c(1) lo accepts_terms [of "about k (sx_pending x)" lo lo'] show ?thesis
    by (auto simp: order_terms_def)
qed

lemma linked_update:
  assumes link: "linked x en"
  shows "linked (on_book_update smb bs as snap x) en"
proof -
  define y where "y = x\<lparr>sx_books := hm_insert (pair smb) (apply_levels bs as snap
    (case hm_get (sx_books x) (pair smb) of None \<Rightarrow> sim_book_new | Some b \<Rightarrow> b)) (sx_books x)\<rparr>"
  let ?x' = "on_book_update smb bs as snap x" and ?ids = "resting_ids (pair smb) y"
  have wf: "exchange_wf x" "engine_wf en" using link by (auto simp: linked_def)
  have y: "sx_resting y = sx_resting x" "sx_pending y = sx_pending x" by (simp_all add: y_def)
  have d: "distinct ?ids" using wf by (simp add: resting_ids_distinct y exchange_wf_def)
  define told where "told = (\<lambda>oid. case hm_get (sx_resting x) oid of None \<Rightarrow> []
    | Some so \<Rightarrow> if can_cross so y then [maker_fill_event y so] else [])"
  have x': "?x' = fold check_one ?ids y"
    by (simp add: on_book_update_def Let_def check_resting_fold y_def)
  have pend: "sx_pending ?x' = sx_pending x @ concat (map told ?ids)"
    and rest: "hm_get (sx_resting ?x') k = (case hm_get (sx_resting x) k of None \<Rightarrow> None
      | Some so \<Rightarrow> if k \<in> set ?ids \<and> can_cross so y then None else Some so)" for k
    using check_fold [OF d, of y] by (simp_all add: x' y told_def)
  have id: "so_order_id so = k" if "hm_get (sx_resting x) k = Some so" for k so
    using that wf by (simp add: exchange_wf_def sim_order_wf_def)
  have told: "event_order ev = Some k \<and> (\<forall>e. ev_payload ev \<noteq> OrderNew e)" if "ev \<in> set (told k)" for ev k
    using that id by (auto simp: told_def maker_fill_event_def event_order_def split: option.splits if_splits)
  note ab = about_concat [OF d, where f = told, OF conjunct1 [OF told]]
  show ?thesis
  proof (rule linked_news [OF link exchange_wf_update [OF wf(1)] wf(2) pend, where K = "set ?ids"])
    show "order_news en ev" if "ev \<in> set (concat (map told ?ids))" for ev
    proof -
      from that obtain k where k: "ev \<in> set (told k)" by auto
      then obtain so where so: "hm_get (sx_resting x) k = Some so" "ev = maker_fill_event y so"
        by (cases "hm_get (sx_resting x) k") (auto simp: told_def split: if_splits)
      from linked_known [OF link so(1)] told [OF k] id [OF so(1)] show ?thesis
        by (auto simp: order_news_def fill_terms_def so(2) maker_fill_event_def fill_of_def)
    qed
  next
    fix k assume "k \<notin> set ?ids"
    then show "about k (concat (map told ?ids)) = [] \<and> hm_get (ee_orders en) k = hm_get (ee_orders en) k \<and>
      hm_get (sx_resting ?x') k = hm_get (sx_resting x) k"
      by (simp add: ab rest split: option.split)
  next
    fix k assume k: "k \<in> set ?ids"
    from link obtain c where c: "accepts (about k (sx_pending x)) (hm_get (ee_orders en) k) c"
      "follows (hm_get (sx_resting x) k) c" by (rule linkedE)
    show "\<exists>c. accepts (about k (sx_pending x) @ about k (concat (map told ?ids))) (hm_get (ee_orders en) k) c \<and>
      follows (hm_get (sx_resting ?x') k) c"
    proof (cases "\<exists>so. hm_get (sx_resting x) k = Some so \<and> can_cross so y")
      case False
      then have "told k = []" "hm_get (sx_resting ?x') k = hm_get (sx_resting x) k"
        by (auto simp: told_def rest split: option.split)
      with c k show ?thesis by (auto simp: ab)
    next
      case True
      then obtain so where so: "hm_get (sx_resting x) k = Some so" "can_cross so y" by blast
      let ?ev = "maker_fill_event y so"
      from c(2) so obtain lo where lo: "c = Some lo" "is_open lo" "left_open (so_remaining so) lo"
        by (auto simp: follows_def)
      obtain e where e: "fill_of ?ev = Some e" "fe_qty e = so_remaining so"
        by (simp add: maker_fill_event_def fill_of_def)
      have "order_moves ?ev (Some lo) (Some (book_fill ?ev (fe_qty e) 0 lo))"
        using lo(3) e(2) by (intro fill_accepted [OF e(1) lo(2)]) (simp add: left_open_def)
      moreover have "\<not> waiting (book_fill ?ev (fe_qty e) 0 lo)" by (simp add: waiting_def)
      moreover have "told k = [?ev]" "hm_get (sx_resting ?x') k = None"
        using so k by (simp_all add: told_def rest)
      ultimately show ?thesis using c lo k by (auto simp: ab accepts_append)
    qed
  qed
qed

end
