(* ===== verification/Backtest.thy ===== *)
theory Backtest
  imports Sim_Execution Node_Config Hotpath
begin

section \<open>atomic-node: the backtest (main.rs, run_backtest)\<close>

text \<open>
  \<open>run_backtest\<close> replays recorded events through the quoting engine, the execution engine and
  the simulated exchange, and keeps a profit-and-loss book in dollars as \<open>f64\<close>. The variables
  of the function are the fields of \<open>backtest\<close>, the quoting engine is the parameter \<open>hp\<close>, and
  \<^term>\<open>None\<close> is the panic of reading past its command array. The progress output, the final report
  with its Sharpe ratio and the CSV export are left out.
\<close>

subsection \<open>The state\<close>

record backtest_config =
  bc_price_divisor :: f64
  bc_qty_divisor :: i64
  bc_fallback_symbol :: symbol

definition backtest_config_of :: "node_config \<Rightarrow> backtest_config" where
  "backtest_config_of c =
     (let price_decimals = (case nc_feeds c of [] \<Rightarrow> 2 | f # _ \<Rightarrow> fc_price_decimals f);
          qty_decimals = (case nc_feeds c of [] \<Rightarrow> 8 | f # _ \<Rightarrow> fc_qty_decimals f)
      in \<lparr>bc_price_divisor = f64_rnd (10 ^ unat price_decimals),
          bc_qty_divisor = wrap_i64 (10 ^ unat qty_decimals),
          bc_fallback_symbol = primary_symbol Simulated c\<rparr>)"

record 'h backtest =
  bk_execution :: execution_engine
  bk_verifier :: state_verifier
  bk_hotpath :: 'h
  bk_sim :: exchange
  bk_processed :: u64
  bk_position_qty :: i64
  bk_cost_basis :: f64
  bk_realized_pnl :: f64
  bk_total_trades :: u64
  bk_winning_trades :: u64
  bk_peak_pnl :: f64
  bk_max_drawdown :: f64
  bk_volume_total :: f64
  bk_equity_curve :: "(u64 \<times> f64 \<times> i64) list"
  bk_trade_pnls :: "f64 list"
  bk_last_flat_pnl :: f64
  bk_total_events :: u64
  bk_total_orders :: u64
  bk_total_fills :: u64

definition backtest_sim_config :: simulator_config where
  "backtest_sim_config = simulator_default\<lparr>sc_maker_fee_bps := 0\<rparr>"

definition backtest_new :: "'h \<Rightarrow> state_verifier \<Rightarrow> execution_engine \<Rightarrow> 'h backtest" where
  "backtest_new h v en = \<lparr>bk_execution = en, bk_verifier = v, bk_hotpath = h,
     bk_sim = exchange_new backtest_sim_config, bk_processed = 0, bk_position_qty = 0,
     bk_cost_basis = 0, bk_realized_pnl = 0, bk_total_trades = 0, bk_winning_trades = 0,
     bk_peak_pnl = 0, bk_max_drawdown = 0, bk_volume_total = 0, bk_equity_curve = [],
     bk_trade_pnls = [], bk_last_flat_pnl = 0, bk_total_events = 0, bk_total_orders = 0, bk_total_fills = 0\<rparr>"

subsection \<open>Commands\<close>

definition event_symbol :: "symbol \<Rightarrow> event \<Rightarrow> symbol" where
  "event_symbol fallback ev = (case ev_payload ev of
     OrderBookUpdate obu \<Rightarrow> obu_symbol obu | Trade t \<Rightarrow> te_symbol t | _ \<Rightarrow> fallback)"

definition zero_source :: node_id where
  "zero_source = replicate 32 0"

definition backtest_order :: "order_id \<Rightarrow> symbol \<Rightarrow> side \<Rightarrow> hp_command \<Rightarrow> order_new_event" where
  "backtest_order oid smb sd c = \<lparr>ne_order_id = oid, ne_symbol = smb, ne_side = sd, ne_order_type = Limit,
     ne_price = hc_price c, ne_qty = hc_qty c, ne_time_in_force = GoodTilCancel, ne_venue = Simulated\<rparr>"

definition bt_place :: "symbol \<Rightarrow> event \<Rightarrow> u64 \<Rightarrow> side \<Rightarrow> hp_command \<Rightarrow> 'h backtest \<Rightarrow> 'h backtest" where
  "bt_place smb ev i sd c b =
     (let (oid, en) = next_order_id Simulated (bk_execution b);
          ord = backtest_order oid smb sd c;
          order_event = event_new (ev_seq ev * 1000 + i) (ev_timestamp ev) zero_source (OrderNew ord)
      in b\<lparr>bk_execution := snd (process_event order_event en),
           bk_sim := submit_order ord (ev_timestamp ev) zero_source (bk_sim b),
           bk_total_orders := bk_total_orders b + 1\<rparr>)"

definition bt_cancel_all :: "event \<Rightarrow> 'h backtest \<Rightarrow> 'h backtest" where
  "bt_cancel_all ev b =
     (if bk_position_qty b = 0
      then b\<lparr>bk_sim := fold (\<lambda>oid. cancel_order oid (ev_timestamp ev) zero_source)
               (open_order_ids (bk_execution b)) (bk_sim b)\<rparr>
      else b)"

definition bt_command :: "symbol \<Rightarrow> event \<Rightarrow> u64 \<times> hp_command \<Rightarrow> 'h backtest \<Rightarrow> 'h backtest" where
  "bt_command smb ev ic b = (case ic of (i, c) \<Rightarrow>
     if hc_tag c = 1 then bt_place smb ev i Buy c b
     else if hc_tag c = 2 then bt_place smb ev i Sell c b
     else if hc_tag c = 3 then bt_cancel_all ev b
     else b)"

definition bt_commands :: "symbol \<Rightarrow> event \<Rightarrow> hp_command list \<Rightarrow> 'h backtest \<Rightarrow> 'h backtest" where
  "bt_commands smb ev cs b = fold (bt_command smb ev) (zip (map of_nat [0..<length cs]) cs) b"

subsection \<open>Fills and their profit\<close>

definition i64_neg :: "i64 \<Rightarrow> i64" where
  "i64_neg x = wrap_i64 (- x)"

text \<open>Position, cost basis and realised profit after a fill.\<close>

definition bt_pnl :: "backtest_config \<Rightarrow> order_fill_event \<Rightarrow> i64 \<Rightarrow> f64 \<Rightarrow> f64 \<Rightarrow> i64 \<times> f64 \<times> f64" where
  "bt_pnl cfg e position_qty cost_basis realized_pnl =
     (let fill_price_usd = f64_div (f64_of_int (fe_price e)) (bc_price_divisor cfg);
          fill_qty_units = f64_div (f64_of_u64 (fe_qty e)) (f64_of_int (bc_qty_divisor cfg));
          fill_notional = f64_mul fill_price_usd fill_qty_units;
          fill_qty = u64_as_i64 (fe_qty e);
          usd = (\<lambda>q. f64_mul fill_price_usd (f64_div (f64_of_int q) (f64_of_int (bc_qty_divisor cfg))))
      in case fe_side e of
        Buy \<Rightarrow>
          if 0 \<le> position_qty then (i64_add position_qty fill_qty, f64_add cost_basis fill_notional, realized_pnl)
          else let close_qty = min fill_qty (i64_neg position_qty);
                   close_frac = f64_div (f64_of_int close_qty) (f64_of_int (i64_neg position_qty));
                   close_cost = f64_mul cost_basis close_frac;
                   open_qty = i64_sub fill_qty close_qty
               in (i64_add position_qty fill_qty,
                   (if 0 < open_qty then usd open_qty else f64_sub cost_basis close_cost),
                   f64_add realized_pnl (f64_sub \<bar>close_cost\<bar> (usd close_qty)))
      | Sell \<Rightarrow>
          if position_qty \<le> 0 then (i64_sub position_qty fill_qty, f64_sub cost_basis fill_notional, realized_pnl)
          else let close_qty = min fill_qty position_qty;
                   close_frac = f64_div (f64_of_int close_qty) (f64_of_int position_qty);
                   close_cost = f64_mul cost_basis close_frac;
                   open_qty = i64_sub fill_qty close_qty
               in (i64_sub position_qty fill_qty,
                   (if 0 < open_qty then - usd open_qty else f64_sub cost_basis close_cost),
                   f64_add realized_pnl (f64_sub (usd close_qty) close_cost)))"

text \<open>The rest of the accounting of a fill: fee, volume, round trips, drawdown, equity curve.\<close>

definition bt_flat :: "'h backtest \<Rightarrow> 'h backtest" where
  "bt_flat b =
     (if bk_position_qty b = 0
      then let trade_pnl = f64_sub (bk_realized_pnl b) (bk_last_flat_pnl b)
           in b\<lparr>bk_cost_basis := 0, bk_trade_pnls := bk_trade_pnls b @ [trade_pnl],
                bk_total_trades := bk_total_trades b + 1,
                bk_winning_trades := (if 0 < trade_pnl then bk_winning_trades b + 1 else bk_winning_trades b),
                bk_last_flat_pnl := bk_realized_pnl b\<rparr>
      else b)"

definition bt_drawdown :: "'h backtest \<Rightarrow> 'h backtest" where
  "bt_drawdown b =
     (let peak = (if bk_peak_pnl b < bk_realized_pnl b then bk_realized_pnl b else bk_peak_pnl b);
          dd = f64_sub peak (bk_realized_pnl b)
      in b\<lparr>bk_peak_pnl := peak, bk_max_drawdown := (if bk_max_drawdown b < dd then dd else bk_max_drawdown b)\<rparr>)"

definition bt_fill :: "backtest_config \<Rightarrow> 'h hp_engine \<Rightarrow> event \<Rightarrow> order_fill_event \<Rightarrow> 'h backtest \<Rightarrow> 'h backtest" where
  "bt_fill cfg hp ev e b =
     (let (pos, cost, pnl) = bt_pnl cfg e (bk_position_qty b) (bk_cost_basis b) (bk_realized_pnl b);
          fee_usd = f64_div (f64_div (f64_of_int (fe_fee e)) (f64_of_int (bc_qty_divisor cfg))) (bc_price_divisor cfg);
          fill_notional = f64_mul (f64_div (f64_of_int (fe_price e)) (bc_price_divisor cfg))
            (f64_div (f64_of_u64 (fe_qty e)) (f64_of_int (bc_qty_divisor cfg)));
          b = bt_drawdown (bt_flat
            (b\<lparr>bk_total_fills := bk_total_fills b + 1,
               bk_hotpath := hp_on_fill hp (fe_side e) (fe_qty e) (fe_price e) (bk_hotpath b),
               bk_position_qty := pos, bk_cost_basis := cost, bk_realized_pnl := f64_sub pnl fee_usd,
               bk_volume_total := f64_add (bk_volume_total b) \<bar>fill_notional\<bar>\<rparr>))
      in b\<lparr>bk_equity_curve := bk_equity_curve b @ [(ev_seq ev, bk_realized_pnl b, bk_position_qty b)]\<rparr>)"

definition bt_sim_event :: "backtest_config \<Rightarrow> 'h hp_engine \<Rightarrow> event \<Rightarrow> event \<Rightarrow> 'h backtest \<Rightarrow> 'h backtest" where
  "bt_sim_event cfg hp ev sim_event b =
     (let b = b\<lparr>bk_execution := snd (process_event sim_event (bk_execution b))\<rparr>
      in case ev_payload sim_event of
        OrderFill e \<Rightarrow> bt_fill cfg hp ev e b
      | OrderPartialFill e \<Rightarrow> bt_fill cfg hp ev e b
      | _ \<Rightarrow> b)"

subsection \<open>One event, and the run\<close>

definition bt_market :: "'h hp_engine \<Rightarrow> event \<Rightarrow> 'h backtest \<Rightarrow> hp_result \<times> 'h backtest" where
  "bt_market hp ev b = (case ev_payload ev of
     OrderBookUpdate obu \<Rightarrow>
       let (r, h) = hp_on_book_update hp (obu_bids obu) (obu_asks obu) (obu_is_snapshot obu) (bk_hotpath b)
       in (r, b\<lparr>bk_sim := on_book_update (obu_symbol obu) (obu_bids obu) (obu_asks obu) (obu_is_snapshot obu) (bk_sim b),
                bk_hotpath := h\<rparr>)
   | Trade t \<Rightarrow>
       let (r, h) = hp_on_trade hp (te_side t) (te_price t) (te_qty t) (bk_hotpath b)
       in (r, b\<lparr>bk_hotpath := h\<rparr>)
   | _ \<Rightarrow> (hp_result_default, b))"

definition bt_drain :: "backtest_config \<Rightarrow> 'h hp_engine \<Rightarrow> event \<Rightarrow> 'h backtest \<Rightarrow> 'h backtest" where
  "bt_drain cfg hp ev b =
     (let (sim_events, sim) = drain_events (ev_seq ev * 1000) (bk_sim b)
      in fold (bt_sim_event cfg hp ev) sim_events (b\<lparr>bk_sim := sim\<rparr>))"

definition bt_verify :: "(execution_engine \<Rightarrow> u8 list) \<Rightarrow> event \<Rightarrow> 'h backtest \<Rightarrow> 'h backtest" where
  "bt_verify hash ev b =
     (let (due, v) = verifier_tick (bk_verifier b)
      in b\<lparr>bk_processed := bk_processed b + 1, bk_total_events := bk_total_events b + 1,
           bk_verifier := (if due then on_verified (ev_seq ev) (hash (bk_execution b)) v else v)\<rparr>)"

text \<open>Market data and commands: everything before the exchange is drained.\<close>

definition bt_trade :: "backtest_config \<Rightarrow> 'h hp_engine \<Rightarrow> event \<Rightarrow> 'h backtest \<Rightarrow> 'h backtest option" where
  "bt_trade cfg hp ev b =
     (let smb = event_symbol (bc_fallback_symbol cfg) ev;
          (r, b) = bt_market hp ev b
      in if bk_position_qty b = 0
         then map_option (\<lambda>cs. bt_commands smb ev cs b) (hp_commands r) else Some b)"

definition bt_event ::
  "backtest_config \<Rightarrow> (execution_engine \<Rightarrow> u8 list) \<Rightarrow> 'h hp_engine \<Rightarrow> event \<Rightarrow> 'h backtest \<Rightarrow> 'h backtest option" where
  "bt_event cfg hash hp ev b =
     map_option (\<lambda>b. bt_verify hash ev (bt_drain cfg hp ev b)) (bt_trade cfg hp ev b)"

fun run_backtest ::
  "backtest_config \<Rightarrow> (execution_engine \<Rightarrow> u8 list) \<Rightarrow> 'h hp_engine \<Rightarrow> event list \<Rightarrow> 'h backtest \<Rightarrow> 'h backtest option" where
  "run_backtest cfg hash hp [] b = Some b"
| "run_backtest cfg hash hp (ev # evs) b = do {
     b \<leftarrow> bt_event cfg hash hp ev b;
     run_backtest cfg hash hp evs b
   }"

subsection \<open>Position and filled quantities\<close>

text \<open>What the fills the engine booked add up to.\<close>

definition signed_fill :: "live_order \<Rightarrow> int" where
  "signed_fill lo = (case lo_side lo of Buy \<Rightarrow> 1 | Sell \<Rightarrow> - 1) * int (unat (lo_filled_qty lo))"

definition net_filled :: "execution_engine \<Rightarrow> int" where
  "net_filled en = sum_list (map signed_fill (hm_values (ee_orders en)))"

lemma sum_hm_insert:
  fixes f :: "'v \<Rightarrow> int"
  shows "hm_wf m \<Longrightarrow> sum_list (map f (hm_values (hm_insert k v m))) =
    sum_list (map f (hm_values m)) - (case hm_get m k of None \<Rightarrow> 0 | Some w \<Rightarrow> f w) + f v"
proof (induction m)
  case (Cons e m)
  then show ?case
  proof (cases "fst e = k")
    case True
    then have "hm_get m k = None"
      using Cons.prems by (auto simp: hm_wf_def hm_get_def map_of_eq_None_iff)
    with True show ?thesis by (cases e) (auto simp: hm_insert_def hm_values_def hm_get_def)
  next
    case False
    with Cons show ?thesis by (cases e) (simp add: hm_wf_def hm_insert_def hm_values_def hm_get_def)
  qed
qed (simp add: hm_insert_def hm_values_def hm_get_def)

text \<open>What an accepted event adds to the engine's net filled quantity.\<close>

definition fill_delta :: "event \<Rightarrow> int" where
  "fill_delta ev = (case fill_of ev of None \<Rightarrow> 0
     | Some e \<Rightarrow> (case fe_side e of Buy \<Rightarrow> 1 | Sell \<Rightarrow> - 1) * int (unat (fe_qty e)))"

lemma net_filled_step:
  assumes wf: "engine_wf en" and news: "order_news en ev"
    and j: "event_order ev = Some j" and mv: "order_moves ev (hm_get (ee_orders en) j) (Some ord)"
  shows "net_filled (en\<lparr>ee_orders := hm_insert j ord (ee_orders en)\<rparr>) mod 2 ^ 64 = (net_filled en + fill_delta ev) mod 2 ^ 64"
proof -
  obtain lo where lo: "hm_get (ee_orders en) j = Some lo"
    using mv news by (cases "hm_get (ee_orders en) j") (auto simp: order_moves_None order_news_def)
  then have mv: "order_moves ev (Some lo) (Some ord)" using mv by simp
  have side: "lo_side ord = lo_side lo" using order_moves_terms [OF mv] by (simp add: order_terms_def)
  have sum: "net_filled (en\<lparr>ee_orders := hm_insert j ord (ee_orders en)\<rparr>) = net_filled en - signed_fill lo + signed_fill ord"
    using wf lo by (simp add: net_filled_def sum_hm_insert engine_wf_def)
  show ?thesis
  proof (cases "fill_of ev")
    case None
    then have "signed_fill ord = signed_fill lo"
      using order_moves_filled [OF mv] side by (simp add: signed_fill_def)
    with sum None show ?thesis by (simp add: fill_delta_def)
  next
    case (Some e)
    have "fe_side e = lo_side lo"
      using news Some lo fill_of_order [OF Some] j by (auto simp: order_news_def fill_terms_def)
    moreover have "lo_filled_qty ord = lo_filled_qty lo + fe_qty e"
      using order_moves_filled [OF mv] Some by simp
    moreover have "int (unat (lo_filled_qty lo + fe_qty e)) mod 2 ^ 64 =
        (int (unat (lo_filled_qty lo)) + int (unat (fe_qty e))) mod 2 ^ 64"
      by (simp add: unat_word_ariths zmod_int)
    then obtain z where "int (unat (lo_filled_qty lo + fe_qty e)) =
        int (unat (lo_filled_qty lo)) + int (unat (fe_qty e)) + 2 ^ 64 * z"
      by (metis mod_eqE)
    ultimately have "signed_fill ord = signed_fill lo + fill_delta ev +
        2 ^ 64 * ((case lo_side lo of Buy \<Rightarrow> 1 | Sell \<Rightarrow> - 1) * z)"
      using Some side by (cases "lo_side lo") (auto simp: signed_fill_def fill_delta_def algebra_simps)
    with sum have "net_filled (en\<lparr>ee_orders := hm_insert j ord (ee_orders en)\<rparr>) =
        (net_filled en + fill_delta ev) + 2 ^ 64 * ((case lo_side lo of Buy \<Rightarrow> 1 | Sell \<Rightarrow> - 1) * z)"
      by linarith
    then show ?thesis by (simp only: mod_mult_self2)
  qed
qed

lemma bt_fill_fields:
  "bk_execution (bt_fill cfg hp ev e b) = bk_execution b"
  "bk_sim (bt_fill cfg hp ev e b) = bk_sim b"
  "bk_total_orders (bt_fill cfg hp ev e b) = bk_total_orders b"
  "bk_position_qty (bt_fill cfg hp ev e b) = (case fe_side e of
     Buy \<Rightarrow> i64_add (bk_position_qty b) (u64_as_i64 (fe_qty e))
   | Sell \<Rightarrow> i64_sub (bk_position_qty b) (u64_as_i64 (fe_qty e)))"
proof -
  have "fst (bt_pnl cfg e pos cost pnl) = (case fe_side e of
      Buy \<Rightarrow> i64_add pos (u64_as_i64 (fe_qty e)) | Sell \<Rightarrow> i64_sub pos (u64_as_i64 (fe_qty e)))" for pos cost pnl
    by (cases "fe_side e") (simp_all add: bt_pnl_def Let_def)
  then show "bk_position_qty (bt_fill cfg hp ev e b) = (case fe_side e of
     Buy \<Rightarrow> i64_add (bk_position_qty b) (u64_as_i64 (fe_qty e))
   | Sell \<Rightarrow> i64_sub (bk_position_qty b) (u64_as_i64 (fe_qty e)))"
    by (cases "bt_pnl cfg e (bk_position_qty b) (bk_cost_basis b) (bk_realized_pnl b)")
      (auto simp: bt_fill_def bt_drawdown_def bt_flat_def Let_def dest: arg_cong [where f = fst])
qed (simp_all add: bt_fill_def bt_drawdown_def bt_flat_def Let_def split: prod.split)

lemma bt_sim_event_fields:
  "bk_execution (bt_sim_event cfg hp ev se b) = snd (process_event se (bk_execution b))"
  "bk_sim (bt_sim_event cfg hp ev se b) = bk_sim b"
  "bk_total_orders (bt_sim_event cfg hp ev se b) = bk_total_orders b"
  "bk_position_qty b = wrap_i64 x \<Longrightarrow> bk_position_qty (bt_sim_event cfg hp ev se b) = wrap_i64 (x + fill_delta se)"
proof -
  have fill: "(case fe_side e of Buy \<Rightarrow> i64_add p (u64_as_i64 (fe_qty e))
      | Sell \<Rightarrow> i64_sub p (u64_as_i64 (fe_qty e))) =
    wrap_i64 (x + (case fe_side e of Buy \<Rightarrow> 1 | Sell \<Rightarrow> - 1) * int (unat (fe_qty e)))" if "p = wrap_i64 x" for e p
    unfolding i64_add_def i64_sub_def that
    by (cases "fe_side e") (auto intro!: wrap_i64_cong mod_add_cong mod_diff_cong simp: wrap_i64_mod [simplified] u64_as_i64_mod [simplified])
  show "bk_position_qty b = wrap_i64 x \<Longrightarrow> bk_position_qty (bt_sim_event cfg hp ev se b) = wrap_i64 (x + fill_delta se)"
    by (cases "ev_payload se") (simp_all add: bt_sim_event_def bt_fill_fields fill_delta_def fill_of_def fill)
qed (cases "ev_payload se"; simp add: bt_sim_event_def bt_fill_fields)+

text \<open>Processing drained events: the engine runs them, and the position follows its fills.\<close>

lemma bt_drain_fold:
  assumes "engine_wf (bk_execution b)" and "\<forall>se \<in> set evs. order_news (bk_execution b) se"
    and "\<forall>k. \<exists>c. accepts (about k evs) (hm_get (ee_orders (bk_execution b)) k) c"
    and "bk_position_qty b = wrap_i64 (net_filled (bk_execution b))"
  shows "bk_execution (fold (bt_sim_event cfg hp ev) evs b) = run_events evs (bk_execution b) \<and>
    bk_sim (fold (bt_sim_event cfg hp ev) evs b) = bk_sim b \<and>
    bk_position_qty (fold (bt_sim_event cfg hp ev) evs b) = wrap_i64 (net_filled (run_events evs (bk_execution b)))"
  using assms
proof (induction evs arbitrary: b)
  case (Cons se evs)
  let ?en = "bk_execution b" and ?b = "bt_sim_event cfg hp ev se b"
  obtain j where j: "event_order se = Some j" using Cons.prems(2) by (auto simp: order_news_def)
  obtain ord where ord: "order_moves se (hm_get (ee_orders ?en) j) (Some ord)"
    and pe: "process_event se ?en = (Inr True, ?en\<lparr>ee_orders := hm_insert j ord (ee_orders ?en)\<rparr>)"
    and acc: "\<forall>k. \<exists>c. accepts (about k evs) (hm_get (hm_insert j ord (ee_orders ?en)) k) c"
    using accepted_head [OF j Cons.prems(3)] by blast
  let ?en' = "?en\<lparr>ee_orders := hm_insert j ord (ee_orders ?en)\<rparr>"
  have en': "bk_execution ?b = ?en'" by (simp add: bt_sim_event_fields pe)
  have wf: "engine_wf ?en'" using engine_wf_process [OF Cons.prems(1), of se] by (simp add: pe)
  have keep: "\<exists>lo'. hm_get (ee_orders ?en') k = Some lo' \<and> order_terms lo' = order_terms lo"
    if "hm_get (ee_orders ?en) k = Some lo" for k lo
    using that ord order_moves_terms by (cases "k = j") (auto simp: hm_get_insert)
  have news: "\<forall>se \<in> set evs. order_news ?en' se"
    using Cons.prems(2) order_news_keep [OF _ keep] by auto
  have "net_filled ?en' mod 2 ^ 64 = (net_filled ?en + fill_delta se) mod 2 ^ 64"
    using Cons.prems(1,2) by (intro net_filled_step [OF _ _ j ord]) simp_all
  then have "bk_position_qty ?b = wrap_i64 (net_filled ?en')"
    using bt_sim_event_fields(4) [OF Cons.prems(4)] wrap_i64_cong by metis
  from Cons.IH [of ?b, unfolded en', OF wf news _ this] acc
  show ?case by (simp add: bt_sim_event_fields snd_run_ops_Cons pe del: run_ops.simps(2))
qed simp

lemma bt_sim_event_seq: "bt_sim_event cfg hp ev (se\<lparr>ev_seq := n\<rparr>) b = bt_sim_event cfg hp ev se b"
  by (simp add: bt_sim_event_def process_event_seq)

lemma bt_drain_unnumbered:
  "bt_drain cfg hp ev b = fold (bt_sim_event cfg hp ev) (sx_pending (bk_sim b)) (b\<lparr>bk_sim := bk_sim b\<lparr>sx_pending := []\<rparr>\<rparr>)"
proof -
  have "fold (bt_sim_event cfg hp ev) (number_from n evs) b = fold (bt_sim_event cfg hp ev) evs b" for n evs b
    by (induction evs arbitrary: n b) (simp_all add: bt_sim_event_seq)
  then show ?thesis by (simp add: bt_drain_def drain_events_def)
qed

lemma next_id_run: "ee_next_local_id (run_events evs en) = ee_next_local_id en"
  by (induction evs arbitrary: en) (simp_all add: snd_run_ops_Cons next_id_process del: run_ops.simps(2))

text \<open>
  The invariant between the parts of a backtest: exchange and engine are connected, the position is
  the net filled quantity, and the engine's orders are good-till-cancel
  limit orders with the first \<open>n\<close> ids of its counter.
\<close>

definition ids_below :: "nat \<Rightarrow> execution_engine \<Rightarrow> bool" where
  "ids_below n en \<longleftrightarrow> ee_next_local_id en = of_nat n \<and>
     (\<forall>k lo. hm_get (ee_orders en) k = Some lo \<longrightarrow> (\<exists>i < n. k = order_id_new Simulated (of_nat i)) \<and>
        lo_order_type lo = Limit \<and> lo_time_in_force lo = GoodTilCancel)"

definition reconciled :: "nat \<Rightarrow> 'h backtest \<Rightarrow> bool" where
  "reconciled n b \<longleftrightarrow> linked (bk_sim b) (bk_execution b) \<and> ids_below n (bk_execution b) \<and>
     bk_position_qty b = wrap_i64 (net_filled (bk_execution b))"

lemma bt_drain_reconciled:
  assumes inv: "reconciled n b"
    and b'_def: "b' = bt_drain cfg hp ev b"
  shows "reconciled n b'" and "sx_pending (bk_sim b') = []"
    and "\<And>k. follows (hm_get (sx_resting (bk_sim b')) k) (hm_get (ee_orders (bk_execution b')) k)"
proof -
  have link: "linked (bk_sim b) (bk_execution b)" using inv by (simp add: reconciled_def)
  then have ok: "engine_wf (bk_execution b)" "\<forall>se \<in> set (sx_pending (bk_sim b)). order_news (bk_execution b) se"
    "\<forall>k. \<exists>c. accepts (about k (sx_pending (bk_sim b))) (hm_get (ee_orders (bk_execution b)) k) c"
    by (auto simp: linked_def)
  let ?evs = "sx_pending (bk_sim b)"
  have b': "bk_execution b' = run_events ?evs (bk_execution b)" "bk_sim b' = bk_sim b\<lparr>sx_pending := []\<rparr>"
    "bk_position_qty b' = wrap_i64 (net_filled (run_events ?evs (bk_execution b)))"
    using bt_drain_fold [of "b\<lparr>bk_sim := bk_sim b\<lparr>sx_pending := []\<rparr>\<rparr>" ?evs cfg hp ev] ok inv
    unfolding b'_def bt_drain_unnumbered by (auto simp: reconciled_def)
  note drained = linked_drain [OF link, where n = 0, unfolded drain_events_def fst_conv snd_conv run_number_from]
  show "sx_pending (bk_sim b') = []" by (simp add: b')
  show "follows (hm_get (sx_resting (bk_sim b')) k) (hm_get (ee_orders (bk_execution b')) k)" for k
    using drained(3) [of k] by (simp add: b')
  have "ids_below n (run_events ?evs (bk_execution b))"
  proof -
    have "\<exists>lo0. hm_get (ee_orders (bk_execution b)) k = Some lo0 \<and> order_terms lo = order_terms lo0"
      if lo: "hm_get (ee_orders (run_events ?evs (bk_execution b))) k = Some lo" for k lo
    proof -
      have "\<forall>ev \<in> set ?evs. event_order ev \<noteq> None" using ok(2) by (auto simp: order_news_def)
      then have acc: "accepts (about k ?evs) (hm_get (ee_orders (bk_execution b)) k) (Some lo)"
        using run_accepts [OF _ ok(3)] lo by metis
      show ?thesis
      proof (cases "hm_get (ee_orders (bk_execution b)) k")
        case None
        with acc unknown_order(1) [OF link None] show ?thesis by simp
      next
        case (Some lo0)
        with acc accepts_terms [of "about k ?evs" lo0 lo] show ?thesis by simp
      qed
    qed
    then show ?thesis using inv by (fastforce simp: reconciled_def ids_below_def next_id_run order_terms_def)
  qed
  then show "reconciled n b'"
    using drained(2) by (simp add: reconciled_def b')
qed

subsection \<open>The invariant along a run\<close>

lemma bt_place_reconciled:
  assumes inv: "reconciled n b" and n: "n < 2 ^ 64"
  shows "reconciled (Suc n) (bt_place smb ev i sd c b)"
proof -
  let ?en = "bk_execution b" and ?oid = "order_id_new Simulated (of_nat n)"
  have ids: "ids_below n ?en" and link: "linked (bk_sim b) ?en" and pos: "bk_position_qty b = wrap_i64 (net_filled ?en)"
    using inv by (auto simp: reconciled_def)
  have nid: "ee_next_local_id ?en = of_nat n" using ids by (simp add: ids_below_def)
  define en where "en = ?en\<lparr>ee_next_local_id := of_nat n + 1\<rparr>"
  have no: "next_order_id Simulated ?en = (?oid, en)" by (simp add: next_order_id_def nid en_def)
  have same: "ee_orders en = ee_orders ?en" by (simp add: en_def)
  have fresh: "hm_get (ee_orders en) ?oid = None"
  proof (rule ccontr)
    assume "hm_get (ee_orders en) ?oid \<noteq> None"
    then obtain lo where "hm_get (ee_orders ?en) ?oid = Some lo" by (auto simp: same)
    with ids have "\<exists>i < n. ?oid = order_id_new Simulated (of_nat i)" by (simp add: ids_below_def)
    then obtain i where i: "i < n" "(of_nat n :: u64) = of_nat i" by (auto simp: order_id_new_inj)
    then have "unat (of_nat n :: u64) = unat (of_nat i :: u64)" by simp
    moreover have "i < 2 ^ 64" using i(1) n by simp
    ultimately show False using i(1) by (simp only: unat_of_nat_u64 n)
  qed
  have link': "linked (bk_sim b) en"
    using link by (simp add: linked_def same engine_wf_def order_news_def fill_terms_def cong: option.case_cong)
  let ?ord = "backtest_order ?oid smb sd c"
  let ?ev = "event_new (ev_seq ev * 1000 + i) (ev_timestamp ev) zero_source (OrderNew ?ord)"
  have oid: "ne_order_id ?ord = ?oid" by (simp add: backtest_order_def)
  note pe = process_new [of en ?ord ?ev, unfolded oid, OF fresh event_new_simps(4)]
  let ?b = "bt_place smb ev i sd c b"
  have b: "bk_execution ?b = snd (process_event ?ev en)"
    "bk_sim ?b = submit_order ?ord (ev_timestamp ev) zero_source (bk_sim b)" "bk_position_qty ?b = bk_position_qty b"
    by (simp_all add: bt_place_def no Let_def)
  have "linked (bk_sim ?b) (bk_execution ?b)"
    unfolding b by (rule linked_submit [OF link']) (simp_all add: oid fresh)
  moreover have "ids_below (Suc n) (bk_execution ?b)"
    using ids unfolding b ids_below_def pe
    by (auto simp: hm_get_insert same live_order_new_def backtest_order_def en_def less_Suc_eq add.commute)
  moreover have "net_filled (bk_execution ?b) = net_filled ?en"
    using link fresh unfolding b pe
    by (simp add: net_filled_def sum_hm_insert linked_def engine_wf_def same signed_fill_def live_order_new_def)
  ultimately show ?thesis using pos by (simp add: reconciled_def b)
qed

lemma bt_cancel_reconciled: "reconciled n b \<Longrightarrow> reconciled n (bt_cancel_all ev b)"
proof -
  assume inv: "reconciled n b"
  have "linked (fold (\<lambda>oid. cancel_order oid ts src) oids x) en" if "linked x en" for oids x en ts src
    using that by (induction oids arbitrary: x) (simp_all add: linked_cancel)
  with inv show ?thesis by (simp add: reconciled_def bt_cancel_all_def)
qed

lemma bt_market_reconciled: "reconciled n b \<Longrightarrow> reconciled n (snd (bt_market hp ev b))"
  by (cases "ev_payload ev") (simp_all add: reconciled_def bt_market_def linked_update split: prod.split)

lemma bt_commands_reconciled:
  assumes "reconciled n b" and "n + length ics < 2 ^ 64"
  shows "\<exists>n' \<le> n + length ics. reconciled n' (fold (bt_command smb ev) ics b)"
  using assms
proof (induction ics arbitrary: n b)
  case (Cons ic ics)
  have "\<exists>n1 \<le> Suc n. reconciled n1 (bt_command smb ev ic b)"
  proof -
    obtain i c where ic: "ic = (i, c)" by fastforce
    have n: "n < 2 ^ 64" using Cons.prems(2) by simp
    consider "hc_tag c = 1" | "hc_tag c = 2" | "hc_tag c = 3" | "hc_tag c \<noteq> 1" "hc_tag c \<noteq> 2" "hc_tag c \<noteq> 3" by blast
    then show ?thesis
    proof cases
      case 3
      with bt_cancel_reconciled [OF Cons.prems(1)] show ?thesis
        by (intro exI [of _ n]) (simp add: bt_command_def ic)
    next
      case 4
      with Cons.prems(1) show ?thesis by (intro exI [of _ n]) (simp add: bt_command_def ic)
    qed (use bt_place_reconciled [OF Cons.prems(1) n] in
      \<open>auto simp: bt_command_def ic intro!: exI [of _ "Suc n"]\<close>)
  qed
  then obtain n1 where n1: "n1 \<le> Suc n" "reconciled n1 (bt_command smb ev ic b)" by blast
  then obtain n' where "n' \<le> n1 + length ics" "reconciled n' (fold (bt_command smb ev) ics (bt_command smb ev ic b))"
    using Cons.IH [OF n1(2)] Cons.prems(2) by auto
  with n1(1) show ?case by (intro exI [of _ n']) simp
qed auto

lemma bt_trade_reconciled:
  assumes "reconciled n b" and "bt_trade cfg hp ev b = Some b'" and "n + 4 < 2 ^ 64"
  shows "\<exists>n' \<le> n + 4. reconciled n' b'"
proof -
  obtain r b1 where m: "bt_market hp ev b = (r, b1)" by fastforce
  have b1: "reconciled n b1" using bt_market_reconciled [OF assms(1), of hp ev] m by simp
  show ?thesis
  proof (cases "bk_position_qty b1 = 0")
    case True
    then obtain cs where cs: "hp_commands r = Some cs" "b' = bt_commands (event_symbol (bc_fallback_symbol cfg) ev) ev cs b1"
      using assms(2) m by (auto simp: bt_trade_def Let_def)
    let ?ics = "zip (map of_nat [0..<length cs]) cs :: (u64 \<times> hp_command) list"
    have "length ?ics \<le> 4" using hp_commands_length [OF cs(1)] by simp
    then show ?thesis
      using bt_commands_reconciled [OF b1, of ?ics] assms(3) unfolding cs(2) bt_commands_def
      by (meson add_left_mono le_less_trans order_trans)
  next
    case False
    with assms(2) m b1 show ?thesis by (intro exI [of _ n]) (simp add: bt_trade_def Let_def)
  qed
qed

lemma bt_verify_fields [simp]:
  "bk_execution (bt_verify hash ev b) = bk_execution b" "bk_sim (bt_verify hash ev b) = bk_sim b"
  "bk_position_qty (bt_verify hash ev b) = bk_position_qty b"
  by (simp_all add: bt_verify_def split: prod.split)

lemma run_reconciled:
  assumes "reconciled n b" and "run_backtest cfg hash hp evs b = Some b'" and "n + 4 * length evs < 2 ^ 64"
    and "sx_pending (bk_sim b) = []"
    and "\<And>k. follows (hm_get (sx_resting (bk_sim b)) k) (hm_get (ee_orders (bk_execution b)) k)"
  shows "(\<exists>n' \<le> n + 4 * length evs. reconciled n' b') \<and> sx_pending (bk_sim b') = [] \<and>
    (\<forall>k. follows (hm_get (sx_resting (bk_sim b')) k) (hm_get (ee_orders (bk_execution b')) k))"
  using assms
proof (induction evs arbitrary: n b)
  case (Cons ev evs)
  then obtain b1 where b1: "bt_trade cfg hp ev b = Some b1"
    "run_backtest cfg hash hp evs (bt_verify hash ev (bt_drain cfg hp ev b1)) = Some b'"
    by (auto simp: bt_event_def bind_eq_Some_conv)
  obtain n1 where n1: "n1 \<le> n + 4" "reconciled n1 b1"
    using bt_trade_reconciled [OF Cons.prems(1) b1(1)] Cons.prems(3) by auto
  let ?b = "bt_verify hash ev (bt_drain cfg hp ev b1)"
  note d = bt_drain_reconciled [OF n1(2), of "bt_drain cfg hp ev b1" cfg hp ev, OF refl]
  have "reconciled n1 ?b" using d(1) by (simp add: reconciled_def)
  from Cons.IH [OF this b1(2)] n1(1) Cons.prems(3) d(2,3)
  obtain n' where "n' \<le> n1 + 4 * length evs" "reconciled n' b'" "sx_pending (bk_sim b') = []"
    "\<forall>k. follows (hm_get (sx_resting (bk_sim b')) k) (hm_get (ee_orders (bk_execution b')) k)"
    by auto
  with n1(1) show ?case by (intro conjI exI [of _ n']) simp_all
qed auto

lemma backtest_new_reconciled: "reconciled 1 (backtest_new h v engine_new)"
  by (simp add: reconciled_def backtest_new_def linked_new ids_below_def net_filled_def)
    (simp add: engine_new_def hm_get_def hm_values_def wrap_i64_def)

subsection \<open>Properties\<close>

lemma start_follows: "follows (hm_get (sx_resting (bk_sim (backtest_new h v engine_new))) k)
    (hm_get (ee_orders (bk_execution (backtest_new h v engine_new))) k)"
  and start_pending: "sx_pending (bk_sim (backtest_new h v en)) = []"
  by (simp_all add: backtest_new_def exchange_new_def engine_new_def hm_get_def)

text \<open>C23: A backtest's books agree. After any run on a fresh engine, whatever the quoting engine does,
  the position is the net quantity of all fills the execution engine booked (as an \<open>i64\<close>), and
  exchange and engine agree on every order: one that rests at the exchange is open in the engine
  with the same side, price and quantity left, and no other order of the engine has anything left to
  wait for.\<close>

theorem backtest_reconciles:
  assumes "run_backtest cfg hash hp evs (backtest_new h v engine_new) = Some b" and "4 * length evs < 2 ^ 64 - 1"
  shows "bk_position_qty b = wrap_i64 (net_filled (bk_execution b)) \<and> sx_pending (bk_sim b) = [] \<and>
    (\<forall>k. case hm_get (sx_resting (bk_sim b)) k of
       Some so \<Rightarrow> (\<exists>lo. get_order k (bk_execution b) = Some lo \<and> \<not> is_terminal (lo_state lo) \<and>
         lo_side lo = so_side so \<and> lo_price lo = so_price so \<and> lo_remaining_qty lo = so_remaining so)
     | None \<Rightarrow> (\<forall>lo. get_order k (bk_execution b) = Some lo \<longrightarrow> is_terminal (lo_state lo) \<or> lo_remaining_qty lo = 0))"
proof -
  have "1 + 4 * length evs < 2 ^ 64" using assms(2) by simp
  note run = run_reconciled [OF backtest_new_reconciled assms(1) this start_pending start_follows]
  then obtain n where n: "reconciled n b" by blast
  have "case hm_get (sx_resting (bk_sim b)) k of
       Some so \<Rightarrow> (\<exists>lo. get_order k (bk_execution b) = Some lo \<and> \<not> is_terminal (lo_state lo) \<and>
         lo_side lo = so_side so \<and> lo_price lo = so_price so \<and> lo_remaining_qty lo = so_remaining so)
     | None \<Rightarrow> (\<forall>lo. get_order k (bk_execution b) = Some lo \<longrightarrow> is_terminal (lo_state lo) \<or> lo_remaining_qty lo = 0)" for k
  proof (cases "hm_get (sx_resting (bk_sim b)) k")
    case None
    moreover from None run have "\<forall>lo. hm_get (ee_orders (bk_execution b)) k = Some lo \<longrightarrow> \<not> waiting lo"
      by (metis follows_None)
    ultimately show ?thesis
      using n by (auto simp: reconciled_def ids_below_def waiting_def get_order_def)
  next
    case (Some so)
    then have "follows (Some so) (hm_get (ee_orders (bk_execution b)) k)" using run by metis
    then show ?thesis by (auto simp: Some follows_def get_order_def left_open_def)
  qed
  then show ?thesis using n run by (simp add: reconciled_def)
qed

text \<open>C24: No exchange event is lost on the engine: at every event of a backtest, the execution engine
  accepts each of the events the exchange delivers when it is drained, so that the ignored results of
  \<open>process_event\<close> hide no error.\<close>

theorem backtest_events_accepted:
  assumes "run_backtest cfg hash hp evs (backtest_new h v engine_new) = Some b" and "4 * length evs < 2 ^ 64 - 5"
    and "bt_trade cfg hp ev b = Some b'"
  shows "set (fst (run_ops process_step (bk_execution b') (fst (drain_events (ev_seq ev * 1000) (bk_sim b'))))) \<subseteq> {Inr True}"
proof -
  have len: "1 + 4 * length evs < 2 ^ 64" "1 + 4 * length evs + 4 < 2 ^ 64" using assms(2) by simp_all
  obtain n where n: "n \<le> 1 + 4 * length evs" "reconciled n b"
    using run_reconciled [OF backtest_new_reconciled assms(1) len(1) start_pending start_follows] by blast
  then obtain n' where "reconciled n' b'"
    using bt_trade_reconciled [OF n(2) assms(3)] len(2) by force
  then show ?thesis by (intro linked_drain(1)) (simp add: reconciled_def)
qed

subsection \<open>The report\<close>

text \<open>Peak and drawdown of a sequence of realised profits, as the loop updates them.\<close>

definition peak_of :: "f64 list \<Rightarrow> f64" where
  "peak_of ps = fold max ps 0"

definition drawdowns :: "f64 list \<Rightarrow> f64 list" where
  "drawdowns ps = map (\<lambda>i. f64_sub (peak_of (take (Suc i) ps)) (ps ! i)) [0..<length ps]"

definition pnl_curve :: "'h backtest \<Rightarrow> f64 list" where
  "pnl_curve b = map (\<lambda>(_, p, _). p) (bk_equity_curve b)"

definition report_inv :: "'h backtest \<Rightarrow> bool" where
  "report_inv b \<longleftrightarrow> bk_total_fills b = of_nat (length (bk_equity_curve b)) \<and>
     bk_total_trades b = of_nat (length (bk_trade_pnls b)) \<and>
     bk_winning_trades b = of_nat (length (filter (\<lambda>p. 0 < p) (bk_trade_pnls b))) \<and>
     bk_peak_pnl b = peak_of (pnl_curve b) \<and> bk_max_drawdown b = peak_of (drawdowns (pnl_curve b))"

lemma peak_of_snoc: "peak_of (ps @ [p]) = max p (peak_of ps)"
  by (simp add: peak_of_def)

lemma drawdowns_snoc: "drawdowns (ps @ [p]) = drawdowns ps @ [f64_sub (peak_of (ps @ [p])) p]"
  by (simp add: drawdowns_def nth_append cong: map_cong)

lemma peak_of_Max: "peak_of ps = Max (insert 0 (set ps))"
proof (induction ps rule: rev_induct)
  case (snoc p ps)
  have "insert 0 (set (ps @ [p])) = insert p (insert 0 (set ps))" by auto
  with snoc show ?case by (simp add: peak_of_snoc)
qed (simp add: peak_of_def)

lemma bt_fill_report: "report_inv b \<Longrightarrow> report_inv (bt_fill cfg hp ev e b)"
  by (auto simp: report_inv_def bt_fill_def bt_flat_def bt_drawdown_def Let_def pnl_curve_def peak_of_snoc
      drawdowns_snoc max_def split: prod.split)

lemma report_frame [simp]:
  "report_inv (b\<lparr>bk_execution := en\<rparr>) = report_inv b" "report_inv (b\<lparr>bk_sim := x\<rparr>) = report_inv b"
  "report_inv (b\<lparr>bk_hotpath := h\<rparr>) = report_inv b" "report_inv (b\<lparr>bk_total_orders := n\<rparr>) = report_inv b"
  "report_inv (bt_verify hash ev b) = report_inv b"
  by (simp_all add: report_inv_def pnl_curve_def bt_verify_def split: prod.split)

lemma bt_sim_event_report: "report_inv b \<Longrightarrow> report_inv (bt_sim_event cfg hp ev se b)"
  by (cases "ev_payload se") (simp_all add: bt_sim_event_def bt_fill_report)

lemma bt_drain_report: "report_inv b \<Longrightarrow> report_inv (bt_drain cfg hp ev b)"
  unfolding bt_drain_unnumbered by (rule fold_invariant) (simp_all add: bt_sim_event_report)

lemma bt_command_report: "report_inv b \<Longrightarrow> report_inv (bt_command smb ev ic b)"
  by (cases ic) (simp add: bt_command_def bt_place_def bt_cancel_all_def Let_def split: prod.split)

lemma bt_market_report: "report_inv b \<Longrightarrow> report_inv (snd (bt_market hp ev b))"
  by (cases "ev_payload ev") (simp_all add: bt_market_def split: prod.split)

lemma bt_trade_report:
  assumes "report_inv b" and "bt_trade cfg hp ev b = Some b'"
  shows "report_inv b'"
proof -
  obtain r b1 where m: "bt_market hp ev b = (r, b1)" by fastforce
  have "report_inv b1" using bt_market_report [OF assms(1), of hp ev] m by simp
  then show ?thesis
    using assms(2) m by (auto simp: bt_trade_def bt_commands_def Let_def split: if_splits
      intro!: fold_invariant [where P = report_inv] bt_command_report)
qed

lemma run_report: "report_inv b \<Longrightarrow> run_backtest cfg hash hp evs b = Some b' \<Longrightarrow> report_inv b'"
proof (induction evs arbitrary: b)
  case (Cons ev evs)
  then obtain b1 where b1: "bt_trade cfg hp ev b = Some b1"
    "run_backtest cfg hash hp evs (bt_verify hash ev (bt_drain cfg hp ev b1)) = Some b'"
    by (auto simp: bt_event_def bind_eq_Some_conv)
  show ?case
    by (rule Cons.IH [OF _ b1(2)]) (simp add: bt_drain_report bt_trade_report [OF Cons.prems(1) b1(1)])
qed simp

text \<open> The figures of the backtest report are those of its equity curve: one point for each fill, one
  trade for each return to a flat position and the winners among them, the peak is the largest
  realised profit (at least 0), and the maximal drawdown is the largest distance of a point from the
  peak before it.\<close>

theorem backtest_report:
  assumes "run_backtest cfg hash hp evs (backtest_new h v en) = Some b"
  shows "bk_total_fills b = of_nat (length (bk_equity_curve b)) \<and>
    bk_total_trades b = of_nat (length (bk_trade_pnls b)) \<and>
    bk_winning_trades b = of_nat (length (filter (\<lambda>p. 0 < p) (bk_trade_pnls b))) \<and>
    bk_peak_pnl b = Max (insert 0 (set (pnl_curve b))) \<and>
    bk_max_drawdown b = Max (insert 0 {f64_sub (Max (insert 0 (set (take (Suc i) (pnl_curve b))))) (pnl_curve b ! i)
      | i. i < length (pnl_curve b)})"
proof -
  have "report_inv (backtest_new h v en)"
    by (simp add: report_inv_def backtest_new_def pnl_curve_def peak_of_def drawdowns_def)
  then have inv: "report_inv b" using run_report assms by blast
  have "set (drawdowns (pnl_curve b)) = {f64_sub (Max (insert 0 (set (take (Suc i) (pnl_curve b))))) (pnl_curve b ! i)
      | i. i < length (pnl_curve b)}"
    by (auto simp: drawdowns_def peak_of_Max)
  with inv show ?thesis by (simp add: report_inv_def peak_of_Max)
qed

subsection \<open>A worked example\<close>

text \<open>An engine that answers every book update with a bid of 5 at 101 and an ask of 5 at 103.\<close>

definition ex_quoter :: "unit hp_engine" where
  "ex_quoter = \<lparr>hp_book_update = (\<lambda>_ _ _ h. (hp_result_default\<lparr>hr_count := 2, hr_commands :=
       [\<lparr>hc_tag = 1, hc_price = 101, hc_qty = 5\<rparr>, \<lparr>hc_tag = 2, hc_price = 103, hc_qty = 5\<rparr>]\<rparr>, h)),
     hp_trade = (\<lambda>_ _ _ h. (hp_result_default, h)), hp_fill = (\<lambda>_ _ _ h. h)\<rparr>"

definition ex_config :: backtest_config where
  "ex_config = \<lparr>bc_price_divisor = 1, bc_qty_divisor = 1, bc_fallback_symbol = ex_sym\<rparr>"

definition ex_book_event :: "u64 \<Rightarrow> i64 \<Rightarrow> i64 \<Rightarrow> event" where
  "ex_book_event n bid ask = ex_event n (OrderBookUpdate \<lparr>obu_symbol = ex_sym,
     obu_bids = [\<lparr>lvl_price = bid, lvl_qty = 3\<rparr>], obu_asks = [\<lparr>lvl_price = ask, lvl_qty = 3\<rparr>],
     obu_is_snapshot = True, obu_exchange_ts = n\<rparr>)"

text \<open>A backtest only stops short when the quoting engine reports more commands than its array holds.\<close>

lemma run_backtest_total:
  assumes "\<And>ev b. hr_count (fst (bt_market hp ev b)) \<le> 4"
  shows "\<exists>b'. run_backtest cfg hash hp evs b = Some b'"
proof (induction evs arbitrary: b)
  case (Cons ev evs)
  obtain r b0 where m: "bt_market hp ev b = (r, b0)" by fastforce
  then have "hp_commands r \<noteq> None" using assms [of ev b] by (simp add: hp_commands_def)
  with m obtain b1 where "bt_trade cfg hp ev b = Some b1"
    by (cases "bk_position_qty b0 = 0") (auto simp: bt_trade_def Let_def)
  with Cons.IH show ?case by (simp add: bt_event_def)
qed simp

lemma ex_quoter_count: "hr_count (fst (bt_market ex_quoter ev b)) \<le> 4"
  by (cases "ev_payload ev")
    (simp_all add: bt_market_def ex_quoter_def hp_on_book_update_def hp_on_trade_def hp_result_default_def)

definition ex_backtest :: "unit backtest option" where
  "ex_backtest = run_backtest ex_config (\<lambda>_. []) ex_quoter [ex_book_event 1 99 101, ex_book_event 2 104 105]
     (backtest_new () (verifier_new 10) engine_new)"

lemma backtest_reconciles_witness:
  "\<exists>b. ex_backtest = Some b \<and> bk_position_qty b = wrap_i64 (net_filled (bk_execution b)) \<and> sx_pending (bk_sim b) = []"
proof -
  obtain b where b: "ex_backtest = Some b"
    unfolding ex_backtest_def using run_backtest_total [OF ex_quoter_count] by blast
  from backtest_reconciles [OF b [unfolded ex_backtest_def]] b show ?thesis
    by (intro exI [of _ b]) simp
qed

lemma backtest_events_accepted_witness:
  "\<exists>b b'. ex_backtest = Some b \<and> bt_trade ex_config ex_quoter (ex_book_event 3 99 101) b = Some b' \<and>
    set (fst (run_ops process_step (bk_execution b')
      (fst (drain_events (ev_seq (ex_book_event 3 99 101) * 1000) (bk_sim b'))))) \<subseteq> {Inr True}"
proof -
  obtain b where b: "ex_backtest = Some b"
    unfolding ex_backtest_def using run_backtest_total [OF ex_quoter_count] by blast
  obtain b' where b': "bt_trade ex_config ex_quoter (ex_book_event 3 99 101) b = Some b'"
    using run_backtest_total [OF ex_quoter_count, of ex_config "\<lambda>_. []" "[ex_book_event 3 99 101]" b]
    by (auto simp: bt_event_def bind_eq_Some_conv)
  from backtest_events_accepted [OF b [unfolded ex_backtest_def] _ b'] b b' show ?thesis by auto
qed

lemma backtest_report_witness:
  "\<exists>b. ex_backtest = Some b \<and> bk_total_fills b = of_nat (length (bk_equity_curve b))"
proof -
  obtain b where b: "ex_backtest = Some b"
    unfolding ex_backtest_def using run_backtest_total [OF ex_quoter_count] by blast
  from backtest_report [OF b [unfolded ex_backtest_def]] b show ?thesis by blast
qed

end
