(* ===== verification/Metrics.thy ===== *)
theory Metrics
  imports Rust_Float
begin

section \<open>atomic-core: latency metrics (metrics.rs)\<close>

text \<open>
  \<open>LatencyHistogram\<close> is a set of atomic counters that many threads update without a lock. Each
  operation is modelled on the values of the counters, and \<open>record\<close> a second time as the
  sequence of its atomic accesses (\<open>record_step\<close>), so that calls of several threads can
  interleave; a failing \<open>compare_exchange_weak\<close> may be spurious. The text of the report is left
  out.
\<close>

subsection \<open>The histogram\<close>

definition bucket_count :: nat where
  "bucket_count = 10"

definition thresholds :: "u64 list" where
  "thresholds = [100, 1000, 10000, 100000, 1000000, 10000000, 100000000, 1000000000, 10000000000]"

record latency_histogram =
  lh_name :: string
  lh_buckets :: "u64 list"
  lh_sum_ns :: u64
  lh_count :: u64
  lh_min_ns :: u64
  lh_max_ns :: u64

definition histogram_new :: "string \<Rightarrow> latency_histogram" where
  "histogram_new name = \<lparr>lh_name = name, lh_buckets = replicate bucket_count 0, lh_sum_ns = 0,
     lh_count = 0, lh_min_ns = -1, lh_max_ns = 0\<rparr>"

definition bucket_index :: "u64 \<Rightarrow> nat" where
  "bucket_index ns = (case position (\<lambda>t. ns < t) thresholds of None \<Rightarrow> bucket_count - 1 | Some i \<Rightarrow> i)"

definition add_bucket :: "nat \<Rightarrow> latency_histogram \<Rightarrow> latency_histogram" where
  "add_bucket i h = h\<lparr>lh_buckets := (lh_buckets h)[i := lh_buckets h ! i + 1]\<rparr>"

definition histogram_record :: "u64 \<Rightarrow> latency_histogram \<Rightarrow> latency_histogram" where
  "histogram_record ns h =
     (let h = add_bucket (bucket_index ns) h;
          h = h\<lparr>lh_sum_ns := lh_sum_ns h + ns\<rparr>;
          h = h\<lparr>lh_count := lh_count h + 1\<rparr>;
          h = (if ns < lh_min_ns h then h\<lparr>lh_min_ns := ns\<rparr> else h)
      in if lh_max_ns h < ns then h\<lparr>lh_max_ns := ns\<rparr> else h)"

definition avg_ns :: "latency_histogram \<Rightarrow> u64" where
  "avg_ns h = (if lh_count h = 0 then 0 else lh_sum_ns h div lh_count h)"

definition min_ns :: "latency_histogram \<Rightarrow> u64" where
  "min_ns h = (if lh_min_ns h = -1 then 0 else lh_min_ns h)"

definition max_ns :: "latency_histogram \<Rightarrow> u64" where
  "max_ns h = lh_max_ns h"

text \<open>The first bucket at which the cumulated count reaches the target, from bucket \<open>i\<close> on.\<close>

fun percentile_loop :: "u64 \<Rightarrow> nat \<Rightarrow> u64 \<Rightarrow> u64 list \<Rightarrow> u64" where
  "percentile_loop target i cumulative [] = -1"
| "percentile_loop target i cumulative (b # bs) =
     (let cumulative = cumulative + b in
      if target \<le> cumulative then (if i < length thresholds then thresholds ! i else -1)
      else percentile_loop target (Suc i) cumulative bs)"

definition percentile_target :: "u64 \<Rightarrow> f64 \<Rightarrow> u64" where
  "percentile_target n pct = saturate_u64 \<lceil>f64_div (f64_mul (f64_of_u64 n) pct) 100\<rceil>"

definition percentile :: "f64 \<Rightarrow> latency_histogram \<Rightarrow> u64" where
  "percentile pct h = (if lh_count h = 0 then 0
     else percentile_loop (percentile_target (lh_count h) pct) 0 0 (lh_buckets h))"

record histogram_snapshot =
  hs_name :: string
  hs_buckets :: "u64 list"
  hs_count :: u64
  hs_sum_ns :: u64
  hs_min_ns :: u64
  hs_max_ns :: u64

definition histogram_snap :: "latency_histogram \<Rightarrow> histogram_snapshot" where
  "histogram_snap h = \<lparr>hs_name = lh_name h, hs_buckets = lh_buckets h, hs_count = lh_count h,
     hs_sum_ns = lh_sum_ns h, hs_min_ns = min_ns h, hs_max_ns = max_ns h\<rparr>"

definition snap_avg_ns :: "histogram_snapshot \<Rightarrow> u64" where
  "snap_avg_ns s = (if hs_count s = 0 then 0 else hs_sum_ns s div hs_count s)"

definition histogram_reset :: "latency_histogram \<Rightarrow> latency_histogram" where
  "histogram_reset h = h\<lparr>lh_buckets := map (\<lambda>_. 0) (lh_buckets h), lh_sum_ns := 0, lh_count := 0,
     lh_min_ns := -1, lh_max_ns := 0\<rparr>"

text \<open>\<open>StageTimer\<close> records the time between its start and its drop.\<close>

definition timer_drop :: "u64 \<Rightarrow> u64 \<Rightarrow> latency_histogram \<Rightarrow> latency_histogram" where
  "timer_drop start now h = histogram_record (now - start) h"

record pipeline_metrics =
  pm_feed_recv :: latency_histogram
  pm_feed_normalize :: latency_histogram
  pm_ring_enqueue :: latency_histogram
  pm_strategy_compute :: latency_histogram
  pm_risk_check :: latency_histogram
  pm_order_submit :: latency_histogram
  pm_order_to_ack :: latency_histogram
  pm_order_to_fill :: latency_histogram
  pm_event_processing :: latency_histogram
  pm_state_hash :: latency_histogram
  pm_total_events :: u64
  pm_total_orders :: u64
  pm_total_fills :: u64
  pm_total_rejects :: u64
  pm_sequence_gaps :: u64

definition pipeline_metrics_new :: pipeline_metrics where
  "pipeline_metrics_new = \<lparr>pm_feed_recv = histogram_new ''feed_recv'', pm_feed_normalize = histogram_new ''feed_normalize'',
     pm_ring_enqueue = histogram_new ''ring_enqueue'', pm_strategy_compute = histogram_new ''strategy_compute'',
     pm_risk_check = histogram_new ''risk_check'', pm_order_submit = histogram_new ''order_submit'',
     pm_order_to_ack = histogram_new ''order_to_ack'', pm_order_to_fill = histogram_new ''order_to_fill'',
     pm_event_processing = histogram_new ''event_processing'', pm_state_hash = histogram_new ''state_hash'',
     pm_total_events = 0, pm_total_orders = 0, pm_total_fills = 0, pm_total_rejects = 0, pm_sequence_gaps = 0\<rparr>"

definition pipeline_reset :: "pipeline_metrics \<Rightarrow> pipeline_metrics" where
  "pipeline_reset m = \<lparr>pm_feed_recv = histogram_reset (pm_feed_recv m),
     pm_feed_normalize = histogram_reset (pm_feed_normalize m), pm_ring_enqueue = histogram_reset (pm_ring_enqueue m),
     pm_strategy_compute = histogram_reset (pm_strategy_compute m), pm_risk_check = histogram_reset (pm_risk_check m),
     pm_order_submit = histogram_reset (pm_order_submit m), pm_order_to_ack = histogram_reset (pm_order_to_ack m),
     pm_order_to_fill = histogram_reset (pm_order_to_fill m), pm_event_processing = histogram_reset (pm_event_processing m),
     pm_state_hash = histogram_reset (pm_state_hash m),
     pm_total_events = 0, pm_total_orders = 0, pm_total_fills = 0, pm_total_rejects = 0, pm_sequence_gaps = 0\<rparr>"

subsection \<open>Recording as atomic accesses\<close>

datatype record_pc = At_bucket u64 | At_sum u64 | At_count u64 | At_min u64 | Min_cas u64 u64
  | At_max u64 | Max_cas u64 u64 | Recorded u64

inductive record_step :: "latency_histogram \<Rightarrow> record_pc \<Rightarrow> latency_histogram \<Rightarrow> record_pc \<Rightarrow> bool" where
  step_bucket: "record_step h (At_bucket ns) (add_bucket (bucket_index ns) h) (At_sum ns)"
| step_sum: "record_step h (At_sum ns) (h\<lparr>lh_sum_ns := lh_sum_ns h + ns\<rparr>) (At_count ns)"
| step_count: "record_step h (At_count ns) (h\<lparr>lh_count := lh_count h + 1\<rparr>) (At_min ns)"
| step_load_min: "record_step h (At_min ns) h (Min_cas ns (lh_min_ns h))"
| step_min_done: "\<not> ns < cur \<Longrightarrow> record_step h (Min_cas ns cur) h (At_max ns)"
| step_min_cas: "ns < cur \<Longrightarrow> lh_min_ns h = cur \<Longrightarrow>
    record_step h (Min_cas ns cur) (h\<lparr>lh_min_ns := ns\<rparr>) (At_max ns)"
| step_min_fail: "ns < cur \<Longrightarrow> record_step h (Min_cas ns cur) h (Min_cas ns (lh_min_ns h))"
| step_load_max: "record_step h (At_max ns) h (Max_cas ns (lh_max_ns h))"
| step_max_done: "\<not> cur < ns \<Longrightarrow> record_step h (Max_cas ns cur) h (Recorded ns)"
| step_max_cas: "cur < ns \<Longrightarrow> lh_max_ns h = cur \<Longrightarrow>
    record_step h (Max_cas ns cur) (h\<lparr>lh_max_ns := ns\<rparr>) (Recorded ns)"
| step_max_fail: "cur < ns \<Longrightarrow> record_step h (Max_cas ns cur) h (Max_cas ns (lh_max_ns h))"

inductive_cases record_stepE: "record_step h pc h' pc'"

text \<open>Any number of threads, each in one call of \<open>record\<close>, in any order.\<close>

inductive record_run :: "latency_histogram \<Rightarrow> record_pc list \<Rightarrow> latency_histogram \<Rightarrow> record_pc list \<Rightarrow> bool" where
  run_start: "record_run h pcs h pcs"
| run_step: "record_run h0 pcs0 h pcs \<Longrightarrow> i < length pcs \<Longrightarrow> record_step h (pcs ! i) h' pc' \<Longrightarrow>
    record_run h0 pcs0 h' (pcs[i := pc'])"

subsection \<open>What a sequence of calls leaves\<close>

lemma bucket_index_less: "bucket_index ns < bucket_count"
proof (cases "position (\<lambda>t. ns < t) thresholds")
  case (Some i)
  then have "i < length thresholds" by (simp only: position_Some_iff)
  with Some show ?thesis by (simp add: bucket_index_def bucket_count_def thresholds_def)
qed (simp add: bucket_index_def bucket_count_def)

definition histogram_wf :: "latency_histogram \<Rightarrow> bool" where
  "histogram_wf h \<longleftrightarrow> length (lh_buckets h) = bucket_count"

definition in_bucket :: "nat \<Rightarrow> u64 \<Rightarrow> u64" where
  "in_bucket j ns = (if bucket_index ns = j then 1 else 0)"

lemma add_bucket_nth:
  "j < length (lh_buckets h) \<Longrightarrow> lh_buckets (add_bucket (bucket_index ns) h) ! j = lh_buckets h ! j + in_bucket j ns"
  by (simp add: add_bucket_def in_bucket_def nth_list_update)

lemma add_bucket_simps [simp]:
  "lh_name (add_bucket i h) = lh_name h" "lh_sum_ns (add_bucket i h) = lh_sum_ns h"
  "lh_count (add_bucket i h) = lh_count h" "lh_min_ns (add_bucket i h) = lh_min_ns h"
  "lh_max_ns (add_bucket i h) = lh_max_ns h" "length (lh_buckets (add_bucket i h)) = length (lh_buckets h)"
  by (simp_all add: add_bucket_def)

lemma record_fields:
  "lh_name (histogram_record ns h) = lh_name h" "lh_sum_ns (histogram_record ns h) = lh_sum_ns h + ns"
  "lh_count (histogram_record ns h) = lh_count h + 1" "lh_min_ns (histogram_record ns h) = min ns (lh_min_ns h)"
  "lh_max_ns (histogram_record ns h) = max ns (lh_max_ns h)"
  "lh_buckets (histogram_record ns h) = lh_buckets (add_bucket (bucket_index ns) h)"
  by (auto simp: histogram_record_def Let_def min_def max_def)

lemma records_fields:
  "lh_name (fold histogram_record xs h) = lh_name h"
  "lh_sum_ns (fold histogram_record xs h) = lh_sum_ns h + sum_list xs"
  "lh_count (fold histogram_record xs h) = lh_count h + of_nat (length xs)"
  "lh_min_ns (fold histogram_record xs h) = fold min xs (lh_min_ns h)"
  "lh_max_ns (fold histogram_record xs h) = fold max xs (lh_max_ns h)"
  "length (lh_buckets (fold histogram_record xs h)) = length (lh_buckets h)"
  by (induction xs arbitrary: h) (simp_all add: record_fields)

lemma records_bucket:
  "j < length (lh_buckets h) \<Longrightarrow>
    lh_buckets (fold histogram_record xs h) ! j = lh_buckets h ! j + sum_list (map (in_bucket j) xs)"
  by (induction xs arbitrary: h) (simp_all add: record_fields add_bucket_nth)

lemma fold_min_least:
  fixes b :: "'a::linorder"
  shows "fold min xs b \<le> b" "x \<in> set xs \<Longrightarrow> fold min xs b \<le> x" "fold min xs b = b \<or> fold min xs b \<in> set xs"
  by (induction xs rule: rev_induct) (auto simp: min_le_iff_disj min_def)

lemma fold_max_greatest:
  fixes b :: "'a::linorder"
  shows "b \<le> fold max xs b" "x \<in> set xs \<Longrightarrow> x \<le> fold max xs b" "fold max xs b = b \<or> fold max xs b \<in> set xs"
  by (induction xs rule: rev_induct) (auto simp: le_max_iff_disj max_def)

subsection \<open>The invariant of interleaved calls\<close>

fun sample :: "record_pc \<Rightarrow> u64" where
  "sample (At_bucket ns) = ns" | "sample (At_sum ns) = ns" | "sample (At_count ns) = ns"
| "sample (At_min ns) = ns" | "sample (Min_cas ns _) = ns" | "sample (At_max ns) = ns"
| "sample (Max_cas ns _) = ns" | "sample (Recorded ns) = ns"

fun stage :: "record_pc \<Rightarrow> nat" where
  "stage (At_bucket ns) = 0" | "stage (At_sum ns) = 1" | "stage (At_count ns) = 2"
| "stage (At_min ns) = 3" | "stage (Min_cas ns _) = 3" | "stage (At_max ns) = 4"
| "stage (Max_cas ns _) = 4" | "stage (Recorded ns) = 5"

text \<open>What the threads have contributed to one counter: those past stage \<open>k\<close>, each \<open>f\<close> of its sample.\<close>

definition contributed :: "nat \<Rightarrow> (u64 \<Rightarrow> u64) \<Rightarrow> record_pc list \<Rightarrow> u64" where
  "contributed k f pcs = sum_list (map (\<lambda>pc. if k \<le> stage pc then f (sample pc) else 0) pcs)"

lemma contributed_update:
  "i < length pcs \<Longrightarrow> contributed k f (pcs[i := pc']) = contributed k f pcs
    - (if k \<le> stage (pcs ! i) then f (sample (pcs ! i)) else 0) + (if k \<le> stage pc' then f (sample pc') else 0)"
proof -
  assume "i < length pcs"
  moreover have "i < length xs \<Longrightarrow> sum_list (xs[i := y]) = sum_list xs - xs ! i + y" for i and y :: u64 and xs
    by (induction xs arbitrary: i) (auto simp: nth_Cons' split: nat.split)
  ultimately show ?thesis by (simp add: contributed_def map_update)
qed

definition counters_inv :: "latency_histogram \<Rightarrow> latency_histogram \<Rightarrow> record_pc list \<Rightarrow> bool" where
  "counters_inv h0 h pcs \<longleftrightarrow> lh_name h = lh_name h0 \<and> length (lh_buckets h) = length (lh_buckets h0) \<and>
     (\<forall>j < length (lh_buckets h0). lh_buckets h ! j = lh_buckets h0 ! j + contributed 1 (in_bucket j) pcs) \<and>
     lh_sum_ns h = lh_sum_ns h0 + contributed 2 (\<lambda>ns. ns) pcs \<and>
     lh_count h = lh_count h0 + contributed 3 (\<lambda>_. 1) pcs"

text \<open>The extremes: moved only towards samples, and past every sample whose loop is over.\<close>

definition min_inv :: "u64 \<Rightarrow> u64 set \<Rightarrow> u64 \<Rightarrow> record_pc \<Rightarrow> bool" where
  "min_inv m0 xs m pc \<longleftrightarrow> m \<le> m0 \<and> m \<in> insert m0 xs \<and> sample pc \<in> xs \<and> (4 \<le> stage pc \<longrightarrow> m \<le> sample pc) \<and>
     (\<forall>ns cur. pc = Min_cas ns cur \<longrightarrow> m \<le> cur)"

definition max_inv :: "u64 \<Rightarrow> u64 set \<Rightarrow> u64 \<Rightarrow> record_pc \<Rightarrow> bool" where
  "max_inv m0 xs m pc \<longleftrightarrow> m0 \<le> m \<and> m \<in> insert m0 xs \<and> sample pc \<in> xs \<and> (5 \<le> stage pc \<longrightarrow> sample pc \<le> m) \<and>
     (\<forall>ns cur. pc = Max_cas ns cur \<longrightarrow> cur \<le> m)"

lemma record_step_sample: "record_step h pc h' pc' \<Longrightarrow> sample pc' = sample pc"
  by (auto elim: record_stepE)

lemma samples_update: "i < length pcs \<Longrightarrow> sample pc' = sample (pcs ! i) \<Longrightarrow> map sample (pcs[i := pc']) = map sample pcs"
  by (simp add: map_update list_update_same_conv)

lemma counters_step:
  assumes "counters_inv h0 h pcs" and "i < length pcs" and "record_step h (pcs ! i) h' pc'"
  shows "counters_inv h0 h' (pcs[i := pc'])"
  using assms(3,1)
  by cases (auto simp: counters_inv_def contributed_update [OF assms(2)] add_bucket_nth algebra_simps)

lemma min_step:
  assumes "record_step h pc h' pc'" and "min_inv m0 xs (lh_min_ns h) pc"
  shows "lh_min_ns h' \<le> lh_min_ns h \<and> min_inv m0 xs (lh_min_ns h') pc'"
  using assms by cases (auto simp: min_inv_def)

lemma max_step:
  assumes "record_step h pc h' pc'" and "max_inv m0 xs (lh_max_ns h) pc"
  shows "lh_max_ns h \<le> lh_max_ns h' \<and> max_inv m0 xs (lh_max_ns h') pc'"
  using assms by cases (auto simp: max_inv_def)

lemma min_inv_lower: "min_inv m0 xs m pc \<Longrightarrow> m' \<le> m \<Longrightarrow> m' \<in> insert m0 xs \<Longrightarrow> min_inv m0 xs m' pc"
  by (auto simp: min_inv_def)

lemma max_inv_upper: "max_inv m0 xs m pc \<Longrightarrow> m \<le> m' \<Longrightarrow> m' \<in> insert m0 xs \<Longrightarrow> max_inv m0 xs m' pc"
  by (auto simp: max_inv_def intro: order_trans)

lemma record_run_inv:
  assumes "record_run h0 pcs0 h pcs" and "pcs0 = map At_bucket xs"
  shows "map sample pcs = xs \<and> counters_inv h0 h pcs \<and>
    lh_min_ns h \<le> lh_min_ns h0 \<and> lh_min_ns h \<in> insert (lh_min_ns h0) (set xs) \<and>
    lh_max_ns h0 \<le> lh_max_ns h \<and> lh_max_ns h \<in> insert (lh_max_ns h0) (set xs) \<and>
    (\<forall>pc \<in> set pcs. min_inv (lh_min_ns h0) (set xs) (lh_min_ns h) pc \<and> max_inv (lh_max_ns h0) (set xs) (lh_max_ns h) pc)"
  using assms
proof (induction rule: record_run.induct)
  case (run_start h pcs)
  then show ?case
    by (auto simp: counters_inv_def contributed_def comp_def min_inv_def max_inv_def sum_list_0)
next
  case (run_step h0 pcs0 h pcs i h' pc')
  let ?mn = "min_inv (lh_min_ns h0) (set xs)" and ?mx = "max_inv (lh_max_ns h0) (set xs)"
  have ih: "map sample pcs = xs" "counters_inv h0 h pcs"
    "\<And>pc. pc \<in> set pcs \<Longrightarrow> ?mn (lh_min_ns h) pc \<and> ?mx (lh_max_ns h) pc"
    using run_step.IH run_step.prems by blast+
  have at: "pcs ! i \<in> set pcs" using run_step.hyps(2) by simp
  have mn: "lh_min_ns h' \<le> lh_min_ns h" "?mn (lh_min_ns h') pc'"
    using min_step [OF run_step.hyps(3)] ih(3) [OF at] by blast+
  have mx: "lh_max_ns h \<le> lh_max_ns h'" "?mx (lh_max_ns h') pc'"
    using max_step [OF run_step.hyps(3)] ih(3) [OF at] by blast+
  have "?mn (lh_min_ns h') pc \<and> ?mx (lh_max_ns h') pc" if "pc \<in> set (pcs[i := pc'])" for pc
  proof (cases "pc = pc'")
    case False
    then have "pc \<in> set pcs" using that set_update_subset_insert [of pcs i pc'] by auto
    with ih(3) mn mx show ?thesis
      by (meson max_inv_upper max_inv_def min_inv_lower min_inv_def)
  qed (use mn(2) mx(2) in blast)
  moreover have "map sample (pcs[i := pc']) = xs"
    using ih(1) samples_update [OF run_step.hyps(2) record_step_sample [OF run_step.hyps(3)]] by simp
  moreover have "counters_inv h0 h' (pcs[i := pc'])"
    using counters_step [OF ih(2) run_step.hyps(2,3)] .
  moreover have "lh_min_ns h' \<le> lh_min_ns h0 \<and> lh_min_ns h' \<in> insert (lh_min_ns h0) (set xs)"
    "lh_max_ns h0 \<le> lh_max_ns h' \<and> lh_max_ns h' \<in> insert (lh_max_ns h0) (set xs)"
    using mn(2) mx(2) unfolding min_inv_def max_inv_def by blast+
  ultimately show ?case by blast
qed

text \<open> Recording without locks loses nothing: when any number of threads record their samples at the
  same time, in whatever order their atomic accesses interleave and however often a compare-exchange
  fails, the histogram they leave when all are done is the one a single thread would have left that
  records the samples one after the other.\<close>

theorem record_interleaved:
  assumes "record_run h0 (map At_bucket xs) h pcs" and "\<forall>pc \<in> set pcs. stage pc = 5"
  shows "h = fold histogram_record xs h0"
proof -
  note inv = record_run_inv [OF assms(1) refl]
  have xs: "map sample pcs = xs" and cnt: "counters_inv h0 h pcs" using inv by blast+
  have mn: "lh_min_ns h = lh_min_ns h0 \<or> lh_min_ns h \<in> set xs" and mx: "lh_max_ns h = lh_max_ns h0 \<or> lh_max_ns h \<in> set xs"
    using inv by blast+
  have all: "contributed k f pcs = sum_list (map f xs)" if "k \<le> 5" for k f
    using that assms(2) unfolding contributed_def xs [symmetric] by (simp add: comp_def cong: map_cong)
  have "lh_buckets h = lh_buckets (fold histogram_record xs h0)"
    using cnt by (intro nth_equalityI) (simp_all add: counters_inv_def records_bucket records_fields all)
  moreover have "lh_min_ns h = fold min xs (lh_min_ns h0)"
  proof (rule antisym)
    have "lh_min_ns h \<le> x" if "x \<in> set xs" for x
      using that assms(2) inv xs by (auto simp: min_inv_def)
    then show "lh_min_ns h \<le> fold min xs (lh_min_ns h0)"
      using inv fold_min_least(3) [of xs "lh_min_ns h0"] by auto
    show "fold min xs (lh_min_ns h0) \<le> lh_min_ns h"
      using mn fold_min_least(1,2) [where xs = xs and b = "lh_min_ns h0"] by metis
  qed
  moreover have "lh_max_ns h = fold max xs (lh_max_ns h0)"
  proof (rule antisym)
    have "x \<le> lh_max_ns h" if "x \<in> set xs" for x
      using that assms(2) inv xs by (auto simp: max_inv_def)
    then show "fold max xs (lh_max_ns h0) \<le> lh_max_ns h"
      using inv fold_max_greatest(3) [of xs "lh_max_ns h0"] by auto
    show "lh_max_ns h \<le> fold max xs (lh_max_ns h0)"
      using mx fold_max_greatest(1,2) [where xs = xs and b = "lh_max_ns h0"] by metis
  qed
  moreover have "lh_name h = lh_name h0" "lh_sum_ns h = lh_sum_ns h0 + sum_list xs"
    "lh_count h = lh_count h0 + of_nat (length xs)"
    using cnt all [of 2 "\<lambda>ns. ns"] all [of 3 "\<lambda>_. 1"] by (simp_all add: counters_inv_def sum_list_triv)
  ultimately show ?thesis
    by (intro latency_histogram.equality) (simp_all add: records_fields)
qed

text \<open>A thread that is not interrupted.\<close>

lemma thread_alone:
  assumes "record_run h0 pcs0 h pcs" and "i < length pcs" and "pcs ! i = At_bucket ns"
  shows "record_run h0 pcs0 (histogram_record ns h) (pcs[i := Recorded ns])"
proof -
  define h1 where "h1 = add_bucket (bucket_index ns) h"
  define h2 where "h2 = h1\<lparr>lh_sum_ns := lh_sum_ns h1 + ns\<rparr>"
  define h3 where "h3 = h2\<lparr>lh_count := lh_count h2 + 1\<rparr>"
  define h4 where "h4 = (if ns < lh_min_ns h3 then h3\<lparr>lh_min_ns := ns\<rparr> else h3)"
  have fin: "histogram_record ns h = (if lh_max_ns h4 < ns then h4\<lparr>lh_max_ns := ns\<rparr> else h4)"
    by (simp add: histogram_record_def Let_def h1_def h2_def h3_def h4_def)
  have step: "record_run h0 pcs0 h'' (pcs[i := pc''])"
    if "record_run h0 pcs0 h' (pcs[i := pc'])" "record_step h' pc' h'' pc''" for h' h'' pc' pc''
    using run_step [OF that(1), of i h'' pc''] that(2) assms(2) by simp
  have "record_run h0 pcs0 h (pcs[i := At_bucket ns])"
    using assms(1,3) by (metis list_update_id)
  then have "record_run h0 pcs0 h1 (pcs[i := At_sum ns])" unfolding h1_def by (rule step) (rule step_bucket)
  then have "record_run h0 pcs0 h2 (pcs[i := At_count ns])" unfolding h2_def by (rule step) (rule step_sum)
  then have "record_run h0 pcs0 h3 (pcs[i := At_min ns])" unfolding h3_def by (rule step) (rule step_count)
  then have "record_run h0 pcs0 h3 (pcs[i := Min_cas ns (lh_min_ns h3)])" by (rule step) (rule step_load_min)
  then have "record_run h0 pcs0 h4 (pcs[i := At_max ns])"
    unfolding h4_def by (cases "ns < lh_min_ns h3") (auto elim!: step intro: record_step.intros)
  then have "record_run h0 pcs0 h4 (pcs[i := Max_cas ns (lh_max_ns h4)])" by (rule step) (rule step_load_max)
  then show ?thesis
    unfolding fin by (cases "lh_max_ns h4 < ns") (auto elim!: step intro: record_step.intros)
qed

lemma record_interleaved_witness:
  "\<exists>h pcs. record_run (histogram_new ''x'') (map At_bucket [50, 2000]) h pcs \<and>
    h = fold histogram_record [50, 2000] (histogram_new ''x'') \<and> lh_count h = 2"
proof -
  let ?h0 = "histogram_new ''x''" and ?pcs = "map At_bucket [50, 2000]"
  have "record_run ?h0 ?pcs (histogram_record 2000 ?h0) [At_bucket 50, Recorded 2000]"
    using thread_alone [OF run_start, of 1 ?pcs 2000 ?h0] by simp
  from thread_alone [OF this, of 0 50]
  have run: "record_run ?h0 ?pcs (histogram_record 50 (histogram_record 2000 ?h0)) [Recorded 50, Recorded 2000]"
    by simp
  note r = record_interleaved [OF run]
  have "lh_count (fold histogram_record [50, 2000] ?h0) = 2" by (simp add: record_fields histogram_new_def)
  with run r show ?thesis by (intro exI conjI) (rule run, simp_all)
qed

subsection \<open>Percentiles\<close>

definition below :: "u64 list \<Rightarrow> u64 \<Rightarrow> nat" where
  "below xs t = length (filter (\<lambda>x. x < t) xs)"

text \<open>The samples of the first \<open>k\<close> buckets.\<close>

definition in_first :: "u64 list \<Rightarrow> nat \<Rightarrow> nat" where
  "in_first xs k = length (filter (\<lambda>x. bucket_index x < k) xs)"

lemma thresholds_sorted: "sorted thresholds"
  by (simp add: thresholds_def)

lemma bucket_index_below: "i < length thresholds \<Longrightarrow> bucket_index x < Suc i \<longleftrightarrow> x < thresholds ! i"
proof (cases "position (\<lambda>t. x < t) thresholds")
  case None
  assume i: "i < length thresholds"
  with None have "\<not> x < thresholds ! i" by (simp only: position_None_iff) (use i in auto)
  with None i show ?thesis by (simp add: bucket_index_def bucket_count_def thresholds_def)
next
  case (Some j)
  assume i: "i < length thresholds"
  from Some have j: "j < length thresholds" "x < thresholds ! j" "\<forall>k < j. \<not> x < thresholds ! k"
    by (auto simp only: position_Some_iff)
  have "x < thresholds ! i" if "j \<le> i"
    using j(2) sorted_nth_mono [OF thresholds_sorted that i] by simp
  with j(3) show ?thesis using Some by (auto simp: bucket_index_def less_Suc_eq_le not_less)
qed

lemma in_first_Suc: "in_first xs (Suc k) = in_first xs k + length (filter (\<lambda>x. bucket_index x = k) xs)"
  by (induction xs) (auto simp: in_first_def less_Suc_eq)

lemma bucket_total: "sum_list (map (in_bucket j) xs) = of_nat (length (filter (\<lambda>x. bucket_index x = j) xs))"
  by (induction xs) (simp_all add: in_bucket_def)

lemma percentile_loop_find:
  assumes "length xs < 2 ^ 64" and "i \<le> bucket_count"
    and "bs = map (\<lambda>j. of_nat (length (filter (\<lambda>x. bucket_index x = j) xs))) [i..<bucket_count]"
  shows "percentile_loop target i (of_nat (in_first xs i)) bs =
    (case find (\<lambda>j. unat target \<le> in_first xs (Suc j)) [i..<bucket_count] of
       None \<Rightarrow> -1 | Some j \<Rightarrow> if j < length thresholds then thresholds ! j else -1)"
  using assms(2,3)
proof (induction "bucket_count - i" arbitrary: i bs)
  case 0
  then show ?case by simp
next
  case (Suc d)
  then have i: "i < bucket_count" by simp
  then have up: "[i..<bucket_count] = i # [Suc i..<bucket_count]" by (simp add: upt_conv_Cons)
  let ?n = "length (filter (\<lambda>x. bucket_index x = i) xs)"
  have bs: "bs = of_nat ?n # map (\<lambda>j. of_nat (length (filter (\<lambda>x. bucket_index x = j) xs))) [Suc i..<bucket_count]"
    using Suc.prems(2) by (simp add: up)
  have "in_first xs (Suc i) \<le> length xs" by (simp add: in_first_def)
  then have "unat (of_nat (in_first xs (Suc i)) :: u64) = in_first xs (Suc i)"
    using assms(1) by (intro unat_of_nat_u64) simp
  then have le: "target \<le> of_nat (in_first xs i) + of_nat ?n \<longleftrightarrow> unat target \<le> in_first xs (Suc i)"
    by (simp only: word_le_nat_alt in_first_Suc of_nat_add [symmetric])
  have cum: "of_nat (in_first xs i) + of_nat ?n = (of_nat (in_first xs (Suc i)) :: u64)"
    by (simp add: in_first_Suc)
  have ih: "percentile_loop target (Suc i) (of_nat (in_first xs (Suc i))) (map (\<lambda>j. of_nat (length (filter (\<lambda>x. bucket_index x = j) xs))) [Suc i..<bucket_count]) =
    (case find (\<lambda>j. unat target \<le> in_first xs (Suc j)) [Suc i..<bucket_count] of
       None \<Rightarrow> -1 | Some j \<Rightarrow> if j < length thresholds then thresholds ! j else -1)"
    using Suc.hyps(2) i by (intro Suc.hyps(1)) simp_all
  show ?case
    unfolding bs up by (simp add: le Let_def del: of_nat_add) (simp add: cum ih)
qed

lemma find_map: "find P (map f xs) = map_option f (find (\<lambda>x. P (f x)) xs)"
  by (induction xs) auto

lemma find_append: "find P (ys @ zs) = (case find P ys of None \<Rightarrow> find P zs | Some y \<Rightarrow> Some y)"
  by (induction ys) auto

lemma find_in_set: "find P ws = Some w \<Longrightarrow> w \<in> set ws"
  by (induction ws) (auto split: if_splits)

text \<open>A percentile of recorded samples is the least bucket bound below which at least the target number
  of samples lie, the target being the rounded-up share of all samples, and \<open>u64::MAX\<close> when
  only the unbounded last bucket reaches it.\<close>

theorem percentile_exact:
  assumes "xs \<noteq> []" and "length xs < 2 ^ 64"
  shows "percentile pct (fold histogram_record xs (histogram_new name)) =
    (case find (\<lambda>t. unat (percentile_target (of_nat (length xs)) pct) \<le> below xs t) thresholds of
       Some t \<Rightarrow> t | None \<Rightarrow> -1)"
proof -
  let ?h = "fold histogram_record xs (histogram_new name)"
  define tgt where "tgt = percentile_target (of_nat (length xs)) pct"
  have count: "lh_count ?h = of_nat (length xs)" by (simp add: records_fields histogram_new_def)
  have "unat (of_nat (length xs) :: u64) = length xs" using assms(2) by (rule unat_of_nat_u64)
  then have "lh_count ?h \<noteq> 0" using assms(1) count by (metis length_0_conv unat_0)
  moreover have buckets: "lh_buckets ?h = map (\<lambda>j. of_nat (length (filter (\<lambda>x. bucket_index x = j) xs))) [0..<bucket_count]"
    by (intro nth_equalityI) (simp_all add: records_fields records_bucket bucket_total histogram_new_def)
  ultimately have p: "percentile pct ?h = (case find (\<lambda>j. unat tgt \<le> in_first xs (Suc j)) [0..<bucket_count] of
       None \<Rightarrow> -1 | Some j \<Rightarrow> if j < length thresholds then thresholds ! j else -1)"
    using percentile_loop_find [OF assms(2), of 0 "lh_buckets ?h" tgt]
    by (simp add: percentile_def count tgt_def in_first_def)
  have th: "thresholds = map ((!) thresholds) [0..<length thresholds]" by (simp add: map_nth)
  have up: "[0..<bucket_count] = [0..<length thresholds] @ [length thresholds]"
    by (simp add: bucket_count_def thresholds_def upt_rec)
  have eq: "find (\<lambda>j. unat tgt \<le> in_first xs (Suc j)) [0..<length thresholds] =
      find (\<lambda>j. unat tgt \<le> below xs (thresholds ! j)) [0..<length thresholds]"
    by (intro find_cong refl) (simp add: in_first_def below_def bucket_index_below)
  let ?found = "find (\<lambda>j. unat tgt \<le> below xs (thresholds ! j)) [0..<length thresholds]"
  have "find (\<lambda>t. unat tgt \<le> below xs t) thresholds = map_option ((!) thresholds) ?found"
    by (subst th) (rule find_map)
  moreover have "percentile pct ?h = (case ?found of Some j \<Rightarrow> thresholds ! j | None \<Rightarrow> -1)"
    unfolding p up find_append eq by (cases ?found) (auto dest: find_in_set)
  ultimately show ?thesis by (cases ?found) (simp_all add: tgt_def)
qed

lemma percentile_exact_witness:
  "percentile 50 (fold histogram_record [50, 2000, 700] (histogram_new ''x'')) = 1000"
proof -
  have rnd: "f64_rnd 3 = 3" "f64_rnd 150 = 150" using f64_rnd_int [of 3] f64_rnd_int [of 150] by simp_all
  have half: "f64_rnd (3 / 2) = 3 / 2" using f64_rnd_dyadic [of 3 1] by (simp only: power_one_right) simp
  have "\<lceil>(3 / 2 :: rat)\<rceil> = 2" by (simp add: ceiling_eq_iff)
  then have "percentile_target 3 50 = 2"
    by (simp add: percentile_target_def f64_of_u64_def f64_mul_def f64_div_def saturate_u64_def rnd half)
  then show ?thesis
    using percentile_exact [of "[50, 2000, 700]" 50 "''x''"] by (simp add: thresholds_def below_def)
qed

end
