(* ===== verification/Transport.thy ===== *)
theory Transport
  imports Event_Log Core_Snapshot
begin

section \<open>atomic-transport: the mesh protocol (protocol.rs, mesh.rs)\<close>

text \<open>
  Messages between nodes, and how they travel: one QUIC stream for each message, a length prefix
  and the \<open>bincode\<close> bytes. QUIC and \<open>bincode\<close> are parameters: \<open>menc\<close> and \<open>mdec\<close> encode and
  decode, \<open>link\<close> says which peers can be written to. Each incoming stream is read by a task of its
  own, so that messages arrive in any order. Certificates and connection setup are left out.
\<close>

subsection \<open>Messages\<close>

datatype mesh_message =
    EventReplication event
  | EventBatch "event list"
  | MeshHeartbeat node_id u64 "u8 list" u64
  | SyncRequest u64 u64
  | SyncResponse "event list"
  | SnapshotBroadcast engine_snapshot
  | HashVerify u64 "u8 list"
  | ConsensusVote u64 node_id bool
  | NodeAnnounce node_id node_role string

definition encode_message :: "(mesh_message \<Rightarrow> string + u8 list) \<Rightarrow> mesh_message \<Rightarrow> (u8 list, string) result" where
  "encode_message menc msg = menc msg"

definition decode_message :: "(u8 list \<Rightarrow> string + mesh_message) \<Rightarrow> u8 list \<Rightarrow> (mesh_message, string) result" where
  "decode_message mdec data = mdec data"

fun type_name :: "mesh_message \<Rightarrow> string" where
  "type_name (EventReplication _) = ''event_replication''"
| "type_name (EventBatch _) = ''event_batch''"
| "type_name (MeshHeartbeat _ _ _ _) = ''heartbeat''"
| "type_name (SyncRequest _ _) = ''sync_request''"
| "type_name (SyncResponse _) = ''sync_response''"
| "type_name (SnapshotBroadcast _) = ''snapshot_broadcast''"
| "type_name (HashVerify _ _) = ''hash_verify''"
| "type_name (ConsensusVote _ _ _) = ''consensus_vote''"
| "type_name (NodeAnnounce _ _ _) = ''node_announce''"

subsection \<open>The wire\<close>

text \<open>What is written to one stream.\<close>

definition wire_bytes :: "u8 list \<Rightarrow> u8 list" where
  "wire_bytes data = le_bytes32 (of_nat (length data)) @ data"

definition max_message_size :: nat where
  "max_message_size = 16 * 1024 * 1024"

text \<open>What the reading task makes of a stream: a message for the queue, or nothing.\<close>

definition read_stream :: "(u8 list \<Rightarrow> string + mesh_message) \<Rightarrow> u8 list \<Rightarrow> mesh_message option" where
  "read_stream mdec bytes =
     (if length bytes < 4 then None
      else let len = from_le_bytes (take 4 bytes); rest = drop 4 bytes in
        if max_message_size < len then None
        else if length rest < len then None
        else (case decode_message mdec (take len rest) of Inl _ \<Rightarrow> None | Inr msg \<Rightarrow> Some msg))"

subsection \<open>The transport\<close>

record mesh_transport =
  mt_node_id :: node_id
  mt_bind_addr :: string
  mt_started :: bool
  mt_peers :: "(node_id, string) hashmap"
  mt_incoming :: "mesh_message list option"

definition mesh_new :: "node_id \<Rightarrow> string \<Rightarrow> mesh_transport" where
  "mesh_new nid addr = \<lparr>mt_node_id = nid, mt_bind_addr = addr, mt_started = False, mt_peers = [], mt_incoming = Some []\<rparr>"

datatype mesh_error = NotStarted | ConnectFailed string | PeerNotFound | EncodeFailed string | WriteFailed

text \<open>Binding the endpoint: \<open>listen\<close> is the error, if any.\<close>

definition mesh_start :: "(string \<Rightarrow> string option) \<Rightarrow> mesh_transport \<Rightarrow> (unit, mesh_error) result \<times> mesh_transport" where
  "mesh_start listen t = (case listen (mt_bind_addr t) of
     Some e \<Rightarrow> (Inl (ConnectFailed e), t)
   | None \<Rightarrow> (Inr (), t\<lparr>mt_started := True\<rparr>))"

definition connect_to_peer ::
  "(string \<Rightarrow> string option) \<Rightarrow> node_id \<Rightarrow> string \<Rightarrow> mesh_transport \<Rightarrow> (unit, mesh_error) result \<times> mesh_transport" where
  "connect_to_peer connect peer_id addr t =
     (if \<not> mt_started t then (Inl NotStarted, t)
      else case connect addr of
        Some e \<Rightarrow> (Inl (ConnectFailed e), t)
      | None \<Rightarrow> (Inr (), t\<lparr>mt_peers := hm_insert peer_id addr (mt_peers t)\<rparr>))"

text \<open>Streams that get through, with the peer they go to; \<open>link\<close> is whether a peer's stream opens and is written.\<close>

definition send_to ::
  "(mesh_message \<Rightarrow> string + u8 list) \<Rightarrow> (node_id \<Rightarrow> bool) \<Rightarrow> node_id \<Rightarrow> mesh_message \<Rightarrow> mesh_transport
    \<Rightarrow> (node_id \<times> u8 list, mesh_error) result" where
  "send_to menc link peer_id msg t = (case hm_get (mt_peers t) peer_id of
     None \<Rightarrow> Inl PeerNotFound
   | Some _ \<Rightarrow> (case encode_message menc msg of
       Inl e \<Rightarrow> Inl (EncodeFailed e)
     | Inr data \<Rightarrow> if link peer_id then Inr (peer_id, wire_bytes data) else Inl WriteFailed))"

definition broadcast ::
  "(mesh_message \<Rightarrow> string + u8 list) \<Rightarrow> (node_id \<Rightarrow> bool) \<Rightarrow> mesh_message \<Rightarrow> mesh_transport \<Rightarrow> (node_id \<times> u8 list) list" where
  "broadcast menc link msg t = (case encode_message menc msg of
     Inl _ \<Rightarrow> []
   | Inr data \<Rightarrow> map (\<lambda>e. (fst e, wire_bytes data)) (filter (\<lambda>e. link (fst e)) (mt_peers t)))"

definition take_receiver :: "mesh_transport \<Rightarrow> mesh_message list option \<times> mesh_transport" where
  "take_receiver t = (mt_incoming t, t\<lparr>mt_incoming := None\<rparr>)"

definition peer_count :: "mesh_transport \<Rightarrow> nat" where
  "peer_count t = length (mt_peers t)"

subsection \<open>Properties\<close>

lemma from_le_wire: "length data < 2 ^ 32 \<Longrightarrow> from_le_bytes (take 4 (wire_bytes data)) = length data"
  by (simp add: wire_bytes_def from_le_bytes32 unat_of_nat_u32)

text \<open>C40: A message survives the wire: when \<open>bincode\<close> decodes what it encoded and the encoding is shorter
  than 4 GB, the receiver gets the message exactly if the encoding is at most 16 MB, and any proper
  prefix of the stream (a connection lost on the way) delivers nothing.\<close>

theorem wire_roundtrip:
  assumes "menc msg = Inr data" and "mdec data = Inr msg" and "length data < 2 ^ 32"
  shows "read_stream mdec (wire_bytes data) = (if length data \<le> 16777216 then Some msg else None) \<and>
    (\<forall>n < length (wire_bytes data). read_stream mdec (take n (wire_bytes data)) = None)"
proof -
  have len: "length (wire_bytes data) = 4 + length data" by (simp add: wire_bytes_def)
  have rest: "drop 4 (wire_bytes data) = data" by (simp add: wire_bytes_def)
  have "read_stream mdec (take n (wire_bytes data)) = None" if "n < length (wire_bytes data)" for n
  proof (cases "n < 4")
    case True
    then have "length (take n (wire_bytes data)) < 4" by (auto simp only: length_take min_def split: if_splits)
    then show ?thesis by (simp only: read_stream_def if_True)
  next
    case False
    then have "take 4 (take n (wire_bytes data)) = take 4 (wire_bytes data)" by (simp add: min_def)
    moreover have "length (drop 4 (take n (wire_bytes data))) < length data" using that len False by simp
    ultimately show ?thesis
      using from_le_wire [OF assms(3)] by (simp add: read_stream_def Let_def)
  qed
  then show ?thesis
    using assms(2) from_le_wire [OF assms(3)] rest len
    by (simp add: read_stream_def Let_def decode_message_def max_message_size_def)
qed

lemma wire_roundtrip_witness:
  "read_stream (\<lambda>bs. if bs = [7, 8] then Inr (SyncRequest 7 8) else Inl ''bad'') (wire_bytes [7, 8]) = Some (SyncRequest 7 8) \<and>
   read_stream (\<lambda>bs. if bs = [7, 8] then Inr (SyncRequest 7 8) else Inl ''bad'') (take 5 (wire_bytes [7, 8])) = None"
proof -
  let ?dec = "\<lambda>bs. if bs = [7, 8] then Inr (SyncRequest 7 8) else Inl ''bad''"
  have len: "5 < length (wire_bytes [7, 8])" by (simp add: wire_bytes_def)
  have "read_stream ?dec (wire_bytes [7, 8]) = (if length [7, 8 :: u8] \<le> 16777216 then Some (SyncRequest 7 8) else None) \<and>
      (\<forall>n < length (wire_bytes [7, 8]). read_stream ?dec (take n (wire_bytes [7, 8])) = None)"
    by (rule wire_roundtrip [of "\<lambda>_. Inr [7, 8]"]) simp_all
  then show ?thesis using len by simp
qed

lemma broadcast_reaches:
  assumes "menc msg = Inr data" and "hm_wf (mt_peers t)"
  shows "set (broadcast menc link msg t) = {(p, wire_bytes data) | p. hm_get (mt_peers t) p \<noteq> None \<and> link p}"
proof -
  have "p \<in> fst ` set (mt_peers t) \<longleftrightarrow> hm_get (mt_peers t) p \<noteq> None" for p
    by (simp add: hm_get_def map_of_eq_None_iff)
  then show ?thesis
    using assms(1) by (auto simp: broadcast_def encode_message_def image_iff) force+
qed

end
