(* ===== verification/Dashboard.thy ===== *)
theory Dashboard
  imports Metrics Core_Types
begin

section \<open>atomic-node: the dashboard's state and its kill switch (dashboard.rs)\<close>

text \<open>
  The events pushed to browsers, the answers of the status and metrics requests as records, and
  the kill switch: a request stores an action, the main loop takes it. HTTP, WebSocket and JSON
  are left out.
\<close>

datatype dashboard_event =
    Dash_tick u64 u64 u64 u64 u64 u64 string f64 string string
  | Dash_order string string string string string string string string string u64
  | Dash_feed string string string string string string
  | Dash_event_stream u64 u64 string string string
  | Dash_book_update string "(string \<times> string) list" "(string \<times> string) list" string string string
  | Dash_node_status string string string u64 string u64
  | Dash_strategy string string bool u64 u64 u64 string
  | Dash_risk u64 u64 string string string string string string
  | Dash_pnl string string string string string
  | Dash_hash_check string u64 string bool
  | Dash_log string string u64

definition kill_none :: u8 where "kill_none = 0"
definition kill_stop_all :: u8 where "kill_stop_all = 1"
definition kill_cancel_all :: u8 where "kill_cancel_all = 2"
definition kill_disconnect :: u8 where "kill_disconnect = 3"

record dashboard_state =
  da_node_id :: string
  da_role :: string
  da_gateway_mode :: string
  da_peers :: "string list"
  da_symbols :: "string list"
  da_kill_action :: u8

definition pending_kill_action :: "dashboard_state \<Rightarrow> u8 \<times> dashboard_state" where
  "pending_kill_action d = (da_kill_action d, d\<lparr>da_kill_action := kill_none\<rparr>)"

record status_response =
  sr_node_id :: string
  sr_role :: string
  sr_uptime_secs :: u64
  sr_gateway_mode :: string
  sr_total_events :: u64
  sr_total_orders :: u64
  sr_total_fills :: u64
  sr_total_rejects :: u64
  sr_peers :: "string list"
  sr_symbols :: "string list"

definition api_status :: "u64 \<Rightarrow> pipeline_metrics \<Rightarrow> dashboard_state \<Rightarrow> status_response" where
  "api_status uptime m d = \<lparr>sr_node_id = da_node_id d, sr_role = da_role d, sr_uptime_secs = uptime,
     sr_gateway_mode = da_gateway_mode d, sr_total_events = pm_total_events m, sr_total_orders = pm_total_orders m,
     sr_total_fills = pm_total_fills m, sr_total_rejects = pm_total_rejects m, sr_peers = da_peers d,
     sr_symbols = da_symbols d\<rparr>"

record latency_info =
  li_name :: string
  li_count :: u64
  li_avg_ns :: u64
  li_min_ns :: u64
  li_max_ns :: u64
  li_p50_ns :: u64
  li_p99_ns :: u64

definition latency_info_of :: "string \<times> histogram_snapshot \<Rightarrow> latency_info" where
  "latency_info_of nh = (case nh of (name, h) \<Rightarrow>
     \<lparr>li_name = name, li_count = hs_count h, li_avg_ns = (if 0 < hs_count h then hs_sum_ns h div hs_count h else 0),
      li_min_ns = (if hs_min_ns h = -1 then 0 else hs_min_ns h), li_max_ns = hs_max_ns h, li_p50_ns = 0, li_p99_ns = 0\<rparr>)"

definition api_metrics :: "u64 \<Rightarrow> pipeline_metrics \<Rightarrow> dashboard_state \<Rightarrow> status_response \<times> latency_info list" where
  "api_metrics uptime m d =
     (let snaps = [(''feed_recv'', histogram_snap (pm_feed_recv m)), (''feed_normalize'', histogram_snap (pm_feed_normalize m)),
        (''strategy_compute'', histogram_snap (pm_strategy_compute m)), (''risk_check'', histogram_snap (pm_risk_check m)),
        (''order_submit'', histogram_snap (pm_order_submit m)), (''order_to_ack'', histogram_snap (pm_order_to_ack m)),
        (''order_to_fill'', histogram_snap (pm_order_to_fill m)), (''state_hash'', histogram_snap (pm_state_hash m))]
      in (api_status uptime m d, map latency_info_of snaps))"

text \<open>\<open>POST /api/kill\<close>: whether the action was known, the event it broadcasts, and the state after it.\<close>

definition api_kill :: "u64 \<Rightarrow> string \<Rightarrow> dashboard_state \<Rightarrow> dashboard_event option \<times> dashboard_state" where
  "api_kill now_ms action d =
     (let code = (if action = ''stop_all'' then Some kill_stop_all
        else if action = ''cancel_all'' then Some kill_cancel_all
        else if action = ''disconnect'' then Some kill_disconnect else None)
      in case code of
        None \<Rightarrow> (None, d)
      | Some c \<Rightarrow> (Some (Dash_log ''warn'' (''Kill switch: '' @ action) now_ms), d\<lparr>da_kill_action := c\<rparr>))"

text \<open>Requests that arrive between two polls, in order.\<close>

definition kill_requests :: "(u64 \<times> string) list \<Rightarrow> dashboard_state \<Rightarrow> dashboard_state" where
  "kill_requests = fold (\<lambda>(ms, action). snd \<circ> api_kill ms action)"

definition kill_code :: "string \<Rightarrow> u8 option" where
  "kill_code action = (if action = ''stop_all'' then Some kill_stop_all
     else if action = ''cancel_all'' then Some kill_cancel_all
     else if action = ''disconnect'' then Some kill_disconnect else None)"

lemma api_kill_state: "snd (api_kill ms action d) =
    (case kill_code action of None \<Rightarrow> d | Some c \<Rightarrow> d\<lparr>da_kill_action := c\<rparr>)"
  by (simp add: api_kill_def kill_code_def)

text \<open>The kill switch holds one action: the poll takes the last known request since the poll before it
  (and nothing of the earlier ones), unknown requests change nothing, and a second poll finds none.\<close>

theorem kill_switch_last:
  "pending_kill_action (kill_requests reqs d) =
     (let known = List.map_filter (\<lambda>r. kill_code (snd r)) reqs
      in ((if known = [] then da_kill_action d else last known), d\<lparr>da_kill_action := kill_none\<rparr>)) \<and>
   fst (pending_kill_action (snd (pending_kill_action (kill_requests reqs d)))) = kill_none"
proof -
  have act: "kill_requests reqs d = d\<lparr>da_kill_action := (let known = List.map_filter (\<lambda>r. kill_code (snd r)) reqs
      in if known = [] then da_kill_action d else last known)\<rparr>"
    by (induction reqs arbitrary: d)
      (auto simp: kill_requests_def api_kill_state List.map_filter_simps Let_def split: option.splits)
  then show ?thesis by (simp add: pending_kill_action_def Let_def)
qed

end
