(* ===== verification/Node_Pnl.thy ===== *)
theory Node_Pnl
  imports Risk Rust_Float Core_Event
begin

section \<open>atomic-node: profit and loss of the live node (main.rs, gateway events)\<close>

text \<open>
  The live loop books every fill with integer arithmetic: a signed position, its cost basis and
  the realized profit in the smallest price unit. Closing uses the average entry price as an
  \<open>f64\<close>. \<^term>\<open>None\<close> is the panic of a division by zero (\<open>10i64.pow\<close> wraps to 0 from 64 decimals
  on). The identity at the end relates the book to the cash the fills moved, and shows which
  branch breaks it.
\<close>

subsection \<open>The book\<close>

record pnl_book =
  pb_position_qty :: i64
  pb_cost_basis :: i64
  pb_realized_pnl :: i64
  pb_last_flat_pnl :: i64

definition pnl_new :: pnl_book where
  "pnl_new = \<lparr>pb_position_qty = 0, pb_cost_basis = 0, pb_realized_pnl = 0, pb_last_flat_pnl = 0\<rparr>"

text \<open>\<open>price * qty / qty_divisor\<close>, and the value of a closed part at the average entry price.\<close>

definition quote_value :: "i64 \<Rightarrow> price \<Rightarrow> i64 \<Rightarrow> i64 option" where
  "quote_value d p q = i64_div (i64_mul p q) d"

definition entry_value :: "i64 \<Rightarrow> i64 \<Rightarrow> i64 \<Rightarrow> i64" where
  "entry_value cost pos close_qty =
     saturate_i64 (f64_trunc (f64_mul (f64_div (f64_of_int cost) (f64_of_int pos)) (f64_of_int close_qty)))"

definition book_buy :: "i64 \<Rightarrow> price \<Rightarrow> i64 \<Rightarrow> pnl_book \<Rightarrow> pnl_book option" where
  "book_buy d p fq b = do {
     fill_value \<leftarrow> quote_value d p fq;
     if 0 \<le> pb_position_qty b
     then Some (b\<lparr>pb_position_qty := i64_add (pb_position_qty b) fq,
                  pb_cost_basis := i64_add (pb_cost_basis b) fill_value\<rparr>)
     else do {
       let close_qty = min fq (i64_sub 0 (pb_position_qty b));
       let close_value = entry_value (pb_cost_basis b) (pb_position_qty b) close_qty;
       exit_value \<leftarrow> quote_value d p close_qty;
       let open_qty = i64_sub fq close_qty;
       cost \<leftarrow> (if 0 < open_qty then quote_value d p open_qty
                 else Some (i64_add (pb_cost_basis b) exit_value));
       Some (b\<lparr>pb_realized_pnl := i64_add (pb_realized_pnl b) (i64_sub close_value exit_value),
               pb_position_qty := i64_add (pb_position_qty b) fq, pb_cost_basis := cost\<rparr>)
     }
   }"

definition book_sell :: "i64 \<Rightarrow> price \<Rightarrow> i64 \<Rightarrow> pnl_book \<Rightarrow> pnl_book option" where
  "book_sell d p fq b = do {
     fill_value \<leftarrow> quote_value d p fq;
     if pb_position_qty b \<le> 0
     then Some (b\<lparr>pb_position_qty := i64_sub (pb_position_qty b) fq,
                  pb_cost_basis := i64_sub (pb_cost_basis b) fill_value\<rparr>)
     else do {
       let close_qty = min fq (pb_position_qty b);
       let closed = entry_value (pb_cost_basis b) (pb_position_qty b) close_qty;
       exit_value \<leftarrow> quote_value d p close_qty;
       let open_qty = i64_sub fq close_qty;
       cost \<leftarrow> (if 0 < open_qty then map_option (i64_sub 0) (quote_value d p open_qty)
                 else Some (i64_sub (pb_cost_basis b) closed));
       Some (b\<lparr>pb_realized_pnl := i64_add (pb_realized_pnl b) (i64_sub exit_value closed),
               pb_position_qty := i64_sub (pb_position_qty b) fq, pb_cost_basis := cost\<rparr>)
     }
   }"

definition book_fill :: "i64 \<Rightarrow> order_fill_event \<Rightarrow> pnl_book \<Rightarrow> pnl_book option" where
  "book_fill d e b =
     map_option (\<lambda>b. b\<lparr>pb_realized_pnl := i64_sub (pb_realized_pnl b) (fe_fee e)\<rparr>)
       (case fe_side e of
          Buy \<Rightarrow> book_buy d (fe_price e) (u64_as_i64 (fe_qty e)) b
        | Sell \<Rightarrow> book_sell d (fe_price e) (u64_as_i64 (fe_qty e)) b)"

text \<open>The fill with what it tells the risk engine: the new profit, and the outcome of a round trip.\<close>

definition settle_flat :: "pnl_book \<Rightarrow> risk_engine \<Rightarrow> pnl_book \<times> risk_engine" where
  "settle_flat b r =
     (if pb_position_qty b = 0
      then (b\<lparr>pb_last_flat_pnl := pb_realized_pnl b\<rparr>,
            if 0 \<le> i64_sub (pb_realized_pnl b) (pb_last_flat_pnl b) then record_win r else record_loss r)
      else (b, r))"

definition book_and_report :: "i64 \<Rightarrow> order_fill_event \<Rightarrow> pnl_book \<Rightarrow> risk_engine \<Rightarrow> (pnl_book \<times> risk_engine) option" where
  "book_and_report d e b r =
     map_option (\<lambda>b. settle_flat b (update_pnl (i64_sub (pb_realized_pnl b) (rk_total_pnl r)) r)) (book_fill d e b)"

fun book_fills :: "i64 \<Rightarrow> order_fill_event list \<Rightarrow> pnl_book \<Rightarrow> pnl_book option" where
  "book_fills d [] b = Some b"
| "book_fills d (e # es) b = do { b \<leftarrow> book_fill d e b; book_fills d es b }"

subsection \<open>Position and profit\<close>

definition fill_signed :: "order_fill_event \<Rightarrow> int" where
  "fill_signed e = signed_qty (fe_side e) (fe_qty e)"

lemma book_fill_position:
  assumes "book_fill d e b = Some b'" and "pb_position_qty b = wrap_i64 x"
  shows "pb_position_qty b' = wrap_i64 (x + fill_signed e)"
proof -
  have "pb_position_qty b' = (case fe_side e of Buy \<Rightarrow> i64_add (pb_position_qty b) (u64_as_i64 (fe_qty e))
      | Sell \<Rightarrow> i64_sub (pb_position_qty b) (u64_as_i64 (fe_qty e)))"
    using assms(1)
    by (cases "fe_side e")
      (auto simp: book_fill_def book_buy_def book_sell_def Let_def option_bind_Some_iff split: if_splits)
  then show ?thesis
    unfolding i64_add_def i64_sub_def assms(2) fill_signed_def signed_qty_def
    by (cases "fe_side e") (auto intro!: wrap_i64_cong mod_add_cong mod_diff_cong simp: wrap_i64_mod [simplified] u64_as_i64_mod [simplified])
qed

lemma i64_add_sub_cancel: "in_i64 y \<Longrightarrow> i64_add x (i64_sub y x) = y"
proof -
  assume "in_i64 y"
  moreover have "i64_add x (i64_sub y x) = wrap_i64 y"
    unfolding i64_add_def i64_sub_def by (rule wrap_i64_cong) (metis add_diff_cancel_left' add_diff_eq mod_add_right_eq wrap_i64_mod)
  ultimately show ?thesis by simp
qed

lemma settle_flat_keeps:
  "rk_total_pnl (snd (settle_flat b r)) = rk_total_pnl r"
  "pb_realized_pnl (fst (settle_flat b r)) = pb_realized_pnl b"
  "pb_position_qty (fst (settle_flat b r)) = pb_position_qty b"
  by (simp_all add: settle_flat_def record_win_def record_loss_def Let_def)

lemma book_fill_in_i64: "book_fill d e b = Some b' \<Longrightarrow> in_i64 (pb_realized_pnl b')"
  by (auto simp: book_fill_def)

lemma report_syncs:
  assumes "book_and_report d e b r = Some (b', r')"
  shows "rk_total_pnl r' = pb_realized_pnl b'" and "\<exists>b1. book_fill d e b = Some b1 \<and>
    pb_position_qty b' = pb_position_qty b1 \<and> pb_realized_pnl b' = pb_realized_pnl b1"
proof -
  obtain b1 where b1: "book_fill d e b = Some b1"
    and eq: "settle_flat b1 (update_pnl (i64_sub (pb_realized_pnl b1) (rk_total_pnl r)) r) = (b', r')"
    using assms by (auto simp: book_and_report_def)
  have "rk_total_pnl (update_pnl (i64_sub (pb_realized_pnl b1) (rk_total_pnl r)) r) = pb_realized_pnl b1"
    using book_fill_in_i64 [OF b1] by (simp add: update_pnl_def Let_def i64_add_sub_cancel)
  with settle_flat_keeps [of b1 "update_pnl (i64_sub (pb_realized_pnl b1) (rk_total_pnl r)) r"] eq b1
  show "rk_total_pnl r' = pb_realized_pnl b'" and "\<exists>b1. book_fill d e b = Some b1 \<and>
    pb_position_qty b' = pb_position_qty b1 \<and> pb_realized_pnl b' = pb_realized_pnl b1" by simp_all
qed

subsection \<open>Profit and cash\<close>

text \<open>The cash the fills moved (fees apart), the fees, and the gains booked by buying back a short
  position.\<close>

definition value_of :: "i64 \<Rightarrow> order_fill_event \<Rightarrow> int" where
  "value_of d e = (case quote_value d (fe_price e) (u64_as_i64 (fe_qty e)) of None \<Rightarrow> 0 | Some v \<Rightarrow> v)"

fun fills_cash :: "i64 \<Rightarrow> order_fill_event list \<Rightarrow> int" where
  "fills_cash d [] = 0"
| "fills_cash d (e # es) = (case fe_side e of Buy \<Rightarrow> - value_of d e | Sell \<Rightarrow> value_of d e) + fills_cash d es"

definition fills_fees :: "order_fill_event list \<Rightarrow> int" where
  "fills_fees es = sum_list (map fe_fee es)"

definition short_gain1 :: "i64 \<Rightarrow> order_fill_event \<Rightarrow> pnl_book \<Rightarrow> int" where
  "short_gain1 d e b = (if fe_side e = Buy \<and> pb_position_qty b < 0
     then entry_value (pb_cost_basis b) (pb_position_qty b) (u64_as_i64 (fe_qty e)) - value_of d e else 0)"

definition flips :: "order_fill_event \<Rightarrow> pnl_book \<Rightarrow> bool" where
  "flips e b \<longleftrightarrow> (case fe_side e of
     Buy \<Rightarrow> pb_position_qty b < 0 \<and> i64_sub 0 (pb_position_qty b) < u64_as_i64 (fe_qty e)
   | Sell \<Rightarrow> 0 < pb_position_qty b \<and> pb_position_qty b < u64_as_i64 (fe_qty e))"

text \<open>The books before each fill of a run.\<close>

fun book_trace :: "i64 \<Rightarrow> order_fill_event list \<Rightarrow> pnl_book \<Rightarrow> (order_fill_event \<times> pnl_book) list" where
  "book_trace d [] b = []"
| "book_trace d (e # es) b = (e, b) # (case book_fill d e b of None \<Rightarrow> [] | Some b \<Rightarrow> book_trace d es b)"

definition short_gains :: "i64 \<Rightarrow> order_fill_event list \<Rightarrow> pnl_book \<Rightarrow> int" where
  "short_gains d es b = sum_list (map (\<lambda>(e, b). short_gain1 d e b) (book_trace d es b))"

lemma wrap_i64_0 [simp]: "wrap_i64 0 = 0"
  by (simp add: wrap_i64_def)

lemma wrap_i64_shift: "\<exists>k. wrap_i64 x = x + 2 ^ 64 * k"
  by (metis wrap_i64_mod mod_eqE)

lemma book_fill_identity:
  assumes fill: "book_fill d e b = Some b'" and "\<not> flips e b"
  shows "\<exists>k. pb_realized_pnl b' = pb_realized_pnl b + (pb_cost_basis b' - pb_cost_basis b) +
    (case fe_side e of Buy \<Rightarrow> - value_of d e | Sell \<Rightarrow> value_of d e) - fe_fee e + short_gain1 d e b + 2 ^ 64 * k"
proof -
  let ?q = "u64_as_i64 (fe_qty e)"
  obtain v where v: "quote_value d (fe_price e) ?q = Some v"
    using fill by (cases "fe_side e") (auto simp: book_fill_def book_buy_def book_sell_def option_bind_Some_iff)
  then have val: "value_of d e = v" by (simp add: value_of_def)
  note defs = book_fill_def book_buy_def book_sell_def short_gain1_def flips_def val i64_add_def i64_sub_def v Let_def
  show ?thesis
  proof (cases "fe_side e")
    case Buy
    show ?thesis
    proof (cases "0 \<le> pb_position_qty b")
      case True
      obtain k1 where "wrap_i64 (pb_cost_basis b + v) = pb_cost_basis b + v + 2 ^ 64 * k1" using wrap_i64_shift by blast
      moreover obtain k2 where "wrap_i64 (pb_realized_pnl b - fe_fee e) = pb_realized_pnl b - fe_fee e + 2 ^ 64 * k2"
        using wrap_i64_shift by blast
      ultimately show ?thesis using fill Buy True by (intro exI [of _ "k2 - k1"]) (auto simp: defs)
    next
      case False
      let ?c = "entry_value (pb_cost_basis b) (pb_position_qty b) ?q"
      have min: "min ?q (wrap_i64 (- pb_position_qty b)) = ?q"
        using assms(2) Buy False by (simp add: flips_def i64_sub_def)
      obtain k1 where k1: "wrap_i64 (pb_cost_basis b + v) = pb_cost_basis b + v + 2 ^ 64 * k1" using wrap_i64_shift by blast
      obtain k2 where k2: "wrap_i64 (?c - v) = ?c - v + 2 ^ 64 * k2" using wrap_i64_shift by blast
      obtain k3 where k3: "wrap_i64 (pb_realized_pnl b + wrap_i64 (?c - v)) = pb_realized_pnl b + wrap_i64 (?c - v) + 2 ^ 64 * k3"
        using wrap_i64_shift by blast
      obtain k4 where k4: "wrap_i64 (wrap_i64 (pb_realized_pnl b + wrap_i64 (?c - v)) - fe_fee e) =
          wrap_i64 (pb_realized_pnl b + wrap_i64 (?c - v)) - fe_fee e + 2 ^ 64 * k4" using wrap_i64_shift by blast
      have "pb_realized_pnl b' = wrap_i64 (wrap_i64 (pb_realized_pnl b + wrap_i64 (?c - v)) - fe_fee e)"
        "pb_cost_basis b' = wrap_i64 (pb_cost_basis b + v)" "wrap_i64 0 = 0"
        using fill Buy False min by (auto simp: defs)
      then show ?thesis
        using Buy False unfolding k4 unfolding k3 unfolding k2 unfolding k1 by (intro exI [of _ "k4 + k3 + k2 - k1"]) (simp add: defs)
    qed
  next
    case Sell
    show ?thesis
    proof (cases "pb_position_qty b \<le> 0")
      case True
      obtain k1 where "wrap_i64 (pb_cost_basis b - v) = pb_cost_basis b - v + 2 ^ 64 * k1" using wrap_i64_shift by blast
      moreover obtain k2 where "wrap_i64 (pb_realized_pnl b - fe_fee e) = pb_realized_pnl b - fe_fee e + 2 ^ 64 * k2"
        using wrap_i64_shift by blast
      ultimately show ?thesis using fill Sell True by (intro exI [of _ "k2 - k1"]) (auto simp: defs)
    next
      case False
      let ?c = "entry_value (pb_cost_basis b) (pb_position_qty b) ?q"
      have min: "min ?q (pb_position_qty b) = ?q" using assms(2) Sell False by (simp add: flips_def)
      obtain k1 where k1: "wrap_i64 (pb_cost_basis b - ?c) = pb_cost_basis b - ?c + 2 ^ 64 * k1" using wrap_i64_shift by blast
      obtain k2 where k2: "wrap_i64 (v - ?c) = v - ?c + 2 ^ 64 * k2" using wrap_i64_shift by blast
      obtain k3 where k3: "wrap_i64 (pb_realized_pnl b + wrap_i64 (v - ?c)) = pb_realized_pnl b + wrap_i64 (v - ?c) + 2 ^ 64 * k3"
        using wrap_i64_shift by blast
      obtain k4 where k4: "wrap_i64 (wrap_i64 (pb_realized_pnl b + wrap_i64 (v - ?c)) - fe_fee e) =
          wrap_i64 (pb_realized_pnl b + wrap_i64 (v - ?c)) - fe_fee e + 2 ^ 64 * k4" using wrap_i64_shift by blast
      have "pb_realized_pnl b' = wrap_i64 (wrap_i64 (pb_realized_pnl b + wrap_i64 (v - ?c)) - fe_fee e)"
        "pb_cost_basis b' = wrap_i64 (pb_cost_basis b - ?c)"
        using fill Sell False min by (auto simp: defs)
      then show ?thesis
        using Sell False unfolding k4 unfolding k3 unfolding k2 unfolding k1 by (intro exI [of _ "k4 + k3 + k2 - k1"]) (simp add: defs)
    qed
  qed
qed

lemma book_fills_identity:
  assumes "book_fills d es b = Some b'" and "\<forall>(e, b) \<in> set (book_trace d es b). \<not> flips e b"
  shows "\<exists>k. pb_realized_pnl b' = pb_realized_pnl b + (pb_cost_basis b' - pb_cost_basis b) +
    fills_cash d es - fills_fees es + short_gains d es b + 2 ^ 64 * k"
  using assms
proof (induction es arbitrary: b)
  case (Cons e es)
  then obtain b1 where b1: "book_fill d e b = Some b1" and run: "book_fills d es b1 = Some b'"
    by (auto simp: option_bind_Some_iff)
  obtain k where "pb_realized_pnl b' = pb_realized_pnl b1 + (pb_cost_basis b' - pb_cost_basis b1) +
      fills_cash d es - fills_fees es + short_gains d es b1 + 2 ^ 64 * k"
    using Cons.IH [OF run] Cons.prems(2) b1 by auto
  moreover obtain k' where "pb_realized_pnl b1 = pb_realized_pnl b + (pb_cost_basis b1 - pb_cost_basis b) +
      (case fe_side e of Buy \<Rightarrow> - value_of d e | Sell \<Rightarrow> value_of d e) - fe_fee e + short_gain1 d e b + 2 ^ 64 * k'"
    using book_fill_identity [OF b1] Cons.prems(2) by auto
  ultimately show ?case
    using b1 by (intro exI [of _ "k + k'"]) (simp add: fills_fees_def short_gains_def algebra_simps)
qed (simp add: fills_fees_def short_gains_def)

text \<open>A cost basis that is a multiple of the position has an exact average.\<close>

lemma entry_value_exact:
  assumes "pos \<noteq> 0" and "\<bar>a\<bar> < 2 ^ 53" "\<bar>pos\<bar> < 2 ^ 53" "\<bar>a * pos\<bar> < 2 ^ 53" "\<bar>q\<bar> < 2 ^ 53" "\<bar>a * q\<bar> < 2 ^ 53"
  shows "entry_value (a * pos) pos q = a * q"
proof -
  have "f64_div (f64_of_int (a * pos)) (f64_of_int pos) = f64_rnd (of_int a)"
    using assms by (simp add: f64_div_def f64_of_int_exact del: of_int_mult) simp
  moreover have "f64_rnd (of_int a * of_int q) = of_int (a * q)" using f64_rnd_int [OF assms(6)] by simp
  ultimately have "f64_mul (f64_div (f64_of_int (a * pos)) (f64_of_int pos)) (f64_of_int q) = of_int (a * q)"
    using assms f64_rnd_int [OF assms(2)] by (simp add: f64_mul_def f64_of_int_exact del: of_int_mult)
  moreover have "in_i64 (a * q)" using assms(6) by (intro in_i64_absI) simp
  ultimately show ?thesis by (simp add: entry_value_def f64_trunc_def del: of_int_mult)
qed

text \<open>C32: The live profit is the cash: as long as no fill crosses from long to short or back, the realized profit
  is the cash of the fills less the fees, plus the cost basis still held, plus the gains of every buy-back
  of a short position once more; these are 0 if the position is never short.\<close>

theorem live_pnl_identity:
  assumes "book_fills d es pnl_new = Some b" and "\<forall>(e, b) \<in> set (book_trace d es pnl_new). \<not> flips e b"
  shows "pb_realized_pnl b = wrap_i64 (fills_cash d es - fills_fees es + pb_cost_basis b + short_gains d es pnl_new) \<and>
    ((\<forall>(e, b) \<in> set (book_trace d es pnl_new). 0 \<le> pb_position_qty b) \<longrightarrow> short_gains d es pnl_new = 0)"
proof
  obtain k where k: "pb_realized_pnl b = pb_cost_basis b + fills_cash d es - fills_fees es + short_gains d es pnl_new + 2 ^ 64 * k"
    using book_fills_identity [OF assms] by (auto simp: pnl_new_def)
  have k': "pb_realized_pnl b = (fills_cash d es - fills_fees es + pb_cost_basis b + short_gains d es pnl_new) + 2 ^ 64 * k"
    unfolding k by linarith
  have "in_i64 (pb_realized_pnl b)"
  proof (cases es rule: rev_cases)
    case Nil
    then show ?thesis using assms(1) by (auto simp: pnl_new_def in_i64_def)
  next
    case (snoc es' e)
    have "book_fills d (es' @ [e]) b0 = Some b \<Longrightarrow> \<exists>b1. book_fill d e b1 = Some b" for b0
      by (induction es' arbitrary: b0) (auto simp: option_bind_Some_iff)
    with snoc assms(1) book_fill_in_i64 show ?thesis by blast
  qed
  then have "pb_realized_pnl b = wrap_i64 (pb_realized_pnl b)" by simp
  also have "\<dots> = wrap_i64 (fills_cash d es - fills_fees es + pb_cost_basis b + short_gains d es pnl_new)"
    by (rule wrap_i64_cong) (simp only: k' mod_mult_self2)
  finally show "pb_realized_pnl b = wrap_i64 (fills_cash d es - fills_fees es + pb_cost_basis b + short_gains d es pnl_new)" .
  have "sum_list (map (\<lambda>(e, b). short_gain1 d e b) tr) = 0" if "\<forall>(e, b) \<in> set tr. 0 \<le> pb_position_qty b" for tr
    using that by (induction tr) (auto simp: short_gain1_def)
  then show "(\<forall>(e, b) \<in> set (book_trace d es pnl_new). 0 \<le> pb_position_qty b) \<longrightarrow> short_gains d es pnl_new = 0"
    by (simp add: short_gains_def)
qed

definition ex_trade :: "side \<Rightarrow> price \<Rightarrow> qty \<Rightarrow> order_fill_event" where
  "ex_trade s p q = \<lparr>fe_order_id = ''o'', fe_symbol = ex_sym, fe_side = s, fe_price = p, fe_qty = q,
     fe_remaining = 0, fe_fee = 1, fe_is_maker = False, fe_venue = Simulated\<rparr>"

lemma live_pnl_identity_witness:
  "\<exists>b. book_fills 1 [ex_trade Buy 100 10, ex_trade Sell 110 5] pnl_new = Some b \<and>
    pb_realized_pnl b = wrap_i64 (- 450 - 2 + pb_cost_basis b)"
proof -
  have "(500 :: int) = 100 * 5" "(1000 :: int) = 100 * 10" by simp_all
  then have e: "entry_value 1000 10 5 = 500" using entry_value_exact [of 10 100 5] by simp
  note defs = ex_trade_def book_fill_def book_buy_def book_sell_def quote_value_def i64_div_def i64_mul_exact
    i64_add_exact i64_sub_exact in_i64_def u64_as_i64_def pnl_new_def e signed_divide_int_def
  have run: "book_fills 1 [ex_trade Buy 100 10, ex_trade Sell 110 5] pnl_new = Some
      \<lparr>pb_position_qty = 5, pb_cost_basis = 500, pb_realized_pnl = 48, pb_last_flat_pnl = 0\<rparr>"
    by (simp add: defs)
  have tr: "book_trace 1 [ex_trade Buy 100 10, ex_trade Sell 110 5] pnl_new =
      [(ex_trade Buy 100 10, pnl_new), (ex_trade Sell 110 5, pnl_new\<lparr>pb_position_qty := 10, pb_cost_basis := 1000, pb_realized_pnl := - 1\<rparr>)]"
    by (simp add: defs)
  have "value_of 1 (ex_trade Buy 100 10) = 1000" "value_of 1 (ex_trade Sell 110 5) = 550"
    by (simp_all add: value_of_def defs)
  then have cash: "fills_cash 1 [ex_trade Buy 100 10, ex_trade Sell 110 5] = - 450"
    "fills_fees [ex_trade Buy 100 10, ex_trade Sell 110 5] = 2"
    by (simp_all add: fills_fees_def) (simp_all add: ex_trade_def)
  have "\<forall>(e, b) \<in> set (book_trace 1 [ex_trade Buy 100 10, ex_trade Sell 110 5] pnl_new). \<not> flips e b \<and> 0 \<le> pb_position_qty b"
    unfolding tr by (simp add: flips_def) (simp add: defs)
  with live_pnl_identity [OF run] cash run show ?thesis by (auto simp: case_prod_unfold)
qed

text \<open> Selling 10 at 100 and buying them back in two halves at 90 earns 100, but the live node reports 150:
  the buy-back of a short position adds the price paid to the cost basis instead of the average entry,
  so that the first half's gain is counted again with the second.\<close>

theorem short_gain_counted_twice:
  "let es = map (\<lambda>e. e\<lparr>fe_fee := 0\<rparr>) [ex_trade Sell 100 10, ex_trade Buy 90 5, ex_trade Buy 90 5] in
   \<exists>b. book_fills 1 es pnl_new = Some b \<and> pb_position_qty b = 0 \<and> fills_cash 1 es = 100 \<and> pb_realized_pnl b = 150"
proof -
  have e1: "entry_value (- 1000) (- 10) 5 = 500" using entry_value_exact [of "- 10" 100 5] by simp
  have e2: "entry_value (- 550) (- 5) 5 = 550" using entry_value_exact [of "- 5" 110 5] by simp
  note defs = ex_trade_def book_fill_def book_buy_def book_sell_def quote_value_def i64_div_def i64_mul_exact
    i64_add_exact i64_sub_exact in_i64_def u64_as_i64_def pnl_new_def e1 e2 signed_divide_int_def value_of_def
  show ?thesis by (simp add: defs)
qed

end
