(* ===== verification/Node_Live.thy ===== *)
theory Node_Live
  imports Node_Pnl Node_Config Market_Maker Execution Router Recovery Hotpath Transport Dashboard
begin

section \<open>atomic-node: the live event loop (main.rs)\<close>

text \<open>
  The variables of \<open>main\<close> after start-up are the fields of \<open>node\<close>, its constants and the
  parameters (quoting engine, \<open>bincode\<close>, hash, wall clock) those of \<open>node_env\<close>. Every branch of
  the \<open>select!\<close> is a function on the state: a feed event, a gateway event, a mesh message, the
  heartbeat. Requests to the exchange run as tasks of their own; the model lists them in the order
  in which they are started, and what they answer arrives as gateway events. \<^term>\<open>None\<close> is a
  panic. Left out is what only feeds the display: dashboard pushes, latencies, rates, the session
  volume and log output.
\<close>

subsection \<open>State and environment\<close>

datatype gateway_call =
    is_Gw_Submit: Gw_Submit (gc_order_id: order_id) symbol side order_type price qty time_in_force u64 u64
  | Gw_Cancel order_id symbol u64 u64
  | Gw_CancelAll string

record 'h node =
  nd_execution :: execution_engine
  nd_strategy :: "market_maker strategy_engine"
  nd_risk :: risk_engine
  nd_verifier :: state_verifier
  nd_event_log :: event_log
  nd_files :: files
  nd_router :: router
  nd_hotpath :: 'h
  nd_metrics :: pipeline_metrics
  nd_books :: "(string, order_book) hashmap"
  nd_pnl :: pnl_book
  nd_last_seq :: u64
  nd_last_mid_price :: i64
  nd_last_reset_day :: u64
  nd_dashboard :: dashboard_state
  nd_clock_reads :: nat
  nd_gateway_calls :: "gateway_call list"
  nd_mesh_sent :: "mesh_message list"

record 'h node_env =
  nv_config :: node_config
  nv_gateway :: bool
  nv_source :: node_id
  nv_clock :: "nat \<Rightarrow> u64"
  nv_enc :: "event \<Rightarrow> string + u8 list"
  nv_dec :: "u8 list \<Rightarrow> string + event"
  nv_senc :: "engine_snapshot \<Rightarrow> string + u8 list"
  nv_ser :: "engine_state \<Rightarrow> u8 list option"
  nv_xxh3 :: "u8 list \<Rightarrow> u64"
  nv_hp :: "'h hp_engine"
  nv_recovery :: recovery_coordinator

definition live_symbol :: "'h node_env \<Rightarrow> symbol" where
  "live_symbol env = primary_symbol Binance (nv_config env)"

definition live_symbol_code :: "'h node_env \<Rightarrow> string" where
  "live_symbol_code env = sym_base (live_symbol env) @ sym_quote (live_symbol env)"

definition qty_divisor :: "'h node_env \<Rightarrow> i64" where
  "qty_divisor env = wrap_i64 (10 ^ unat (case nc_feeds (nv_config env) of [] \<Rightarrow> 8 | f # _ \<Rightarrow> fc_qty_decimals f))"

text \<open>Successive readings of the wall clock.\<close>

definition read_clock :: "'h node_env \<Rightarrow> 'h node \<Rightarrow> u64 \<times> 'h node" where
  "read_clock env n = (nv_clock env (nd_clock_reads n), n\<lparr>nd_clock_reads := nd_clock_reads n + 1\<rparr>)"

definition flush_node :: "'h node \<Rightarrow> 'h node" where
  "flush_node n = (let (l, fs) = log_flush (nd_event_log n) (nd_files n) in n\<lparr>nd_event_log := l, nd_files := fs\<rparr>)"

definition append_node :: "'h node_env \<Rightarrow> event \<Rightarrow> 'h node \<Rightarrow> (unit, io_error) result \<times> 'h node" where
  "append_node env ev n = (let (r, l) = log_append (nv_enc env) ev (nd_event_log n) in (r, n\<lparr>nd_event_log := l\<rparr>))"

definition call_gateway :: "gateway_call \<Rightarrow> 'h node \<Rightarrow> 'h node" where
  "call_gateway c n = n\<lparr>nd_gateway_calls := nd_gateway_calls n @ [c]\<rparr>"

definition send_mesh :: "mesh_message \<Rightarrow> 'h node \<Rightarrow> 'h node" where
  "send_mesh m n = n\<lparr>nd_mesh_sent := nd_mesh_sent n @ [m]\<rparr>"

text \<open>\<open>for _ in &open_ids { risk.on_order_closed(); }\<close>\<close>

definition close_orders :: "nat \<Rightarrow> risk_engine \<Rightarrow> risk_engine" where
  "close_orders k r = (on_order_closed ^^ k) r"

subsection \<open>A feed event: stamp, log, books\<close>

definition live_stamp :: "'h node_env \<Rightarrow> event \<Rightarrow> 'h node \<Rightarrow> event \<times> 'h node" where
  "live_stamp env ev n =
     (let seq = nd_last_seq n + 1;
          (ts, n) = read_clock env (n\<lparr>nd_last_seq := seq\<rparr>)
      in (ev\<lparr>ev_seq := seq, ev_timestamp := ts, ev_source := nv_source env\<rparr>, n))"

definition live_log :: "'h node_env \<Rightarrow> event \<Rightarrow> 'h node \<Rightarrow> 'h node" where
  "live_log env ev n = (case append_node env ev n of
     (Inl _, n) \<Rightarrow> n
   | (Inr _, n) \<Rightarrow> if nd_last_seq n mod 100 = 0 then flush_node n else n)"

definition updated_book :: "event \<Rightarrow> order_book_update_event \<Rightarrow> 'h node \<Rightarrow> order_book" where
  "updated_book ev obu n =
     (let book = (case hm_get (nd_books n) (pair (obu_symbol obu)) of
            None \<Rightarrow> book_new (obu_symbol obu) | Some b \<Rightarrow> b)
      in if obu_is_snapshot obu
         then apply_snapshot (obu_bids obu) (obu_asks obu) (ev_seq ev) (ev_timestamp ev) book
         else apply_delta (obu_bids obu) (obu_asks obu) (ev_seq ev) (ev_timestamp ev) book)"

definition live_book :: "event \<Rightarrow> 'h node \<Rightarrow> 'h node" where
  "live_book ev n = (case ev_payload ev of
     OrderBookUpdate obu \<Rightarrow>
       let key = pair (obu_symbol obu); book = updated_book ev obu n
       in n\<lparr>nd_books := hm_insert key book (nd_books n),
            nd_strategy := update_book key book (nd_strategy n),
            nd_router := router_update_book key (sym_venue (obu_symbol obu)) book (nd_router n),
            nd_risk := (case spread book of None \<Rightarrow> nd_risk n | Some s \<Rightarrow> update_spread s (nd_risk n)),
            nd_last_mid_price := (case mid_price book of None \<Rightarrow> nd_last_mid_price n | Some m \<Rightarrow> m)\<rparr>
   | _ \<Rightarrow> n)"

definition live_execute :: "event \<Rightarrow> 'h node \<Rightarrow> 'h node" where
  "live_execute ev n = n\<lparr>nd_execution := snd (process_event ev (nd_execution n))\<rparr>"

subsection \<open>The kill switch\<close>

definition cancel_everything :: "'h node_env \<Rightarrow> string \<Rightarrow> 'h node \<Rightarrow> 'h node" where
  "cancel_everything env code n =
     (if nv_gateway env then call_gateway (Gw_CancelAll code) n
      else n\<lparr>nd_risk := close_orders (length (open_order_ids (nd_execution n))) (nd_risk n)\<rparr>)"

definition live_kill :: "'h node_env \<Rightarrow> 'h node \<Rightarrow> 'h node" where
  "live_kill env n =
     (let (action, d) = pending_kill_action (nd_dashboard n);
          n = n\<lparr>nd_dashboard := d\<rparr>
      in if action = kill_stop_all
         then cancel_everything env (live_symbol_code env) (n\<lparr>nd_risk := activate_kill_switch (nd_risk n)\<rparr>)
         else if action = kill_cancel_all then cancel_everything env (live_symbol_code env) n
         else if action = kill_disconnect then cancel_everything env (live_symbol_code env) n
         else n)"

subsection \<open>Quotes\<close>

definition live_quote :: "'h node_env \<Rightarrow> event \<Rightarrow> 'h node \<Rightarrow> hp_result \<times> 'h node" where
  "live_quote env ev n = (case ev_payload ev of
     OrderBookUpdate obu \<Rightarrow>
       let (r, h) = hp_on_book_update (nv_hp env) (obu_bids obu) (obu_asks obu) (obu_is_snapshot obu) (nd_hotpath n)
       in (r, n\<lparr>nd_hotpath := h\<rparr>)
   | Trade t \<Rightarrow>
       let (r, h) = hp_on_trade (nv_hp env) (te_side t) (te_price t) (te_qty t) (nd_hotpath n)
       in (r, n\<lparr>nd_hotpath := h\<rparr>)
   | OrderFill e \<Rightarrow>
       (hp_result_default, n\<lparr>nd_hotpath := hp_on_fill (nv_hp env) (fe_side e) (fe_qty e) (fe_price e) (nd_hotpath n)\<rparr>)
   | _ \<Rightarrow> (hp_result_default, n))"

text \<open>The strategies see every event; the commands they return are dropped.\<close>

definition live_strategy :: "event \<Rightarrow> 'h node \<Rightarrow> 'h node option" where
  "live_strategy ev n =
     map_option (\<lambda>(_, sy). n\<lparr>nd_strategy := sy\<rparr>) (engine_process mm_on_event ev (nd_strategy n))"

definition command_symbol :: "symbol \<Rightarrow> event \<Rightarrow> symbol" where
  "command_symbol fallback ev = (case ev_payload ev of
     OrderBookUpdate obu \<Rightarrow> obu_symbol obu | Trade t \<Rightarrow> te_symbol t
   | OrderFill e \<Rightarrow> fe_symbol e | OrderPartialFill e \<Rightarrow> fe_symbol e | _ \<Rightarrow> fallback)"

definition hp_strategy_command :: "symbol \<Rightarrow> hp_command \<Rightarrow> strategy_command option" where
  "hp_strategy_command smb c =
     (if hc_tag c = 1 then Some (PlaceOrder smb Buy Limit (hc_price c) (hc_qty c) GoodTilCancel (sym_venue smb))
      else if hc_tag c = 2 then Some (PlaceOrder smb Sell Limit (hc_price c) (hc_qty c) GoodTilCancel (sym_venue smb))
      else if hc_tag c = 3 then Some (CancelAll (Some smb))
      else None)"

subsection \<open>Commands\<close>

definition held_position :: "symbol \<Rightarrow> pnl_book \<Rightarrow> position option option" where
  "held_position smb b =
     (if pb_position_qty b \<noteq> 0
      then map_option (\<lambda>avg. Some \<lparr>pos_symbol = smb,
               pos_side = (if 0 < pb_position_qty b then Buy else Sell),
               pos_qty = i64_unsigned_abs (pb_position_qty b), pos_avg_entry = avg,
               pos_unrealized_pnl = 0, pos_realized_pnl = pb_realized_pnl b\<rparr>)
             (i64_div (pb_cost_basis b) (pb_position_qty b))
      else Some None)"

definition place_accepted ::
  "'h node_env \<Rightarrow> event \<Rightarrow> symbol \<Rightarrow> side \<Rightarrow> order_type \<Rightarrow> price \<Rightarrow> qty \<Rightarrow> time_in_force \<Rightarrow> venue \<Rightarrow> 'h node \<Rightarrow> 'h node" where
  "place_accepted env ev smb sd ty p q tif v n =
     (let (oid, en) = next_order_id v (nd_execution n);
          (_, en) = register_order (live_order_new oid smb sd ty p q tif v (ev_timestamp ev)) en;
          seq = nd_last_seq n + 1;
          (ts, n) = read_clock env (n\<lparr>nd_execution := en, nd_risk := on_order_opened (nd_risk n),
            nd_metrics := (nd_metrics n)\<lparr>pm_total_orders := pm_total_orders (nd_metrics n) + 1\<rparr>, nd_last_seq := seq\<rparr>);
          order_event = event_new seq ts (nv_source env) (OrderNew \<lparr>ne_order_id = oid, ne_symbol = smb, ne_side = sd,
            ne_order_type = ty, ne_price = p, ne_qty = q, ne_time_in_force = tif, ne_venue = v\<rparr>);
          (_, n) = append_node env order_event n
      in if nv_gateway env
         then (let (ts, n) = read_clock env n in call_gateway (Gw_Submit oid smb sd ty p q tif seq ts) n)
         else n)"

definition place_order ::
  "'h node_env \<Rightarrow> event \<Rightarrow> symbol \<Rightarrow> side \<Rightarrow> order_type \<Rightarrow> price \<Rightarrow> qty \<Rightarrow> time_in_force \<Rightarrow> venue \<Rightarrow> 'h node \<Rightarrow> 'h node option" where
  "place_order env ev smb sd ty p q tif v n = do {
     mpos \<leftarrow> held_position smb (nd_pnl n);
     let (res, rk) = check_order sd q p mpos (ev_timestamp ev) (nd_risk n);
     let n = n\<lparr>nd_risk := rk\<rparr>;
     Some (case res of
       Inl _ \<Rightarrow> n\<lparr>nd_metrics := (nd_metrics n)\<lparr>pm_total_rejects := pm_total_rejects (nd_metrics n) + 1\<rparr>\<rparr>
     | Inr _ \<Rightarrow> place_accepted env ev smb sd ty p q tif v n)
   }"

definition cancel_one :: "'h node_env \<Rightarrow> order_id \<Rightarrow> 'h node \<Rightarrow> 'h node" where
  "cancel_one env oid n =
     (let smb = (case get_order oid (nd_execution n) of None \<Rightarrow> live_symbol env | Some ord \<Rightarrow> lo_symbol ord);
          (ts, n) = read_clock env n
      in call_gateway (Gw_Cancel oid smb (nd_last_seq n) ts) n)"

definition exec_command :: "'h node_env \<Rightarrow> event \<Rightarrow> strategy_command \<Rightarrow> 'h node \<Rightarrow> 'h node option" where
  "exec_command env ev cmd n = (case cmd of
     PlaceOrder smb sd ty p q tif v \<Rightarrow> place_order env ev smb sd ty p q tif v n
   | CancelOrder oid \<Rightarrow> Some (if nv_gateway env then cancel_one env oid n else n)
   | CancelAll msmb \<Rightarrow> Some (cancel_everything env
       (case msmb of None \<Rightarrow> live_symbol_code env | Some s \<Rightarrow> sym_base s @ sym_quote s) n))"

fun exec_commands :: "'h node_env \<Rightarrow> event \<Rightarrow> strategy_command list \<Rightarrow> 'h node \<Rightarrow> 'h node option" where
  "exec_commands env ev [] n = Some n"
| "exec_commands env ev (c # cs) n = do { n \<leftarrow> exec_command env ev c n; exec_commands env ev cs n }"

definition count_event :: "'h node \<Rightarrow> 'h node" where
  "count_event n = n\<lparr>nd_metrics := (nd_metrics n)\<lparr>pm_total_events := pm_total_events (nd_metrics n) + 1\<rparr>\<rparr>"

definition live_verify :: "'h node_env \<Rightarrow> event \<Rightarrow> 'h node \<Rightarrow> 'h node" where
  "live_verify env ev n =
     (let (due, v) = verifier_tick (nd_verifier n);
          n = n\<lparr>nd_verifier := v\<rparr>;
          n = (if due
               then (let hash = state_hash (nv_ser env) (nv_xxh3 env) (nd_execution n)
                     in send_mesh (HashVerify (ev_seq ev) hash) (n\<lparr>nd_verifier := on_verified (ev_seq ev) hash v\<rparr>))
               else n)
      in if nd_last_seq n mod 1000 = 0 then flush_node n else n)"

definition live_prepare :: "'h node_env \<Rightarrow> event \<Rightarrow> 'h node \<Rightarrow> event \<times> 'h node" where
  "live_prepare env ev n =
     (let (ev, n) = live_stamp env ev n
      in (ev, live_kill env (live_execute ev (live_book ev (live_log env ev n)))))"

definition live_feed :: "'h node_env \<Rightarrow> event \<Rightarrow> 'h node \<Rightarrow> 'h node option" where
  "live_feed env ev n =
     (let (ev, n) = live_prepare env ev n;
          (r, n) = live_quote env ev n
      in do {
        n \<leftarrow> live_strategy ev n;
        cs \<leftarrow> hp_commands r;
        n \<leftarrow> exec_commands env ev (List.map_filter (hp_strategy_command (command_symbol (live_symbol env) ev)) cs) n;
        Some (live_verify env ev (count_event n))
      })"

subsection \<open>A gateway event\<close>

definition hotpath_fill :: "'h node_env \<Rightarrow> event \<Rightarrow> 'h node \<Rightarrow> 'h node" where
  "hotpath_fill env ev n = (case fill_of ev of
     None \<Rightarrow> n
   | Some e \<Rightarrow> n\<lparr>nd_hotpath := hp_on_fill (nv_hp env) (fe_side e) (fe_qty e) (fe_price e) (nd_hotpath n)\<rparr>)"

text \<open>On the testnet an empty position is refilled by a market order, past the risk engine.\<close>

definition reseed :: "'h node_env \<Rightarrow> 'h node \<Rightarrow> 'h node" where
  "reseed env n =
     (if pb_position_qty (nd_pnl n) = 0 \<and> is_testnet (nc_gateway (nv_config env)) \<and> nv_gateway env
      then call_gateway (Gw_Submit (''reseed-'' @ show_u64 (nd_last_seq n)) (live_symbol env) Buy Market 0 100000
             GoodTilCancel 0 0) n
      else n)"

definition live_fill :: "'h node_env \<Rightarrow> order_fill_event \<Rightarrow> 'h node \<Rightarrow> 'h node option" where
  "live_fill env e n =
     map_option (\<lambda>(b, r). reseed env (n\<lparr>nd_pnl := b, nd_risk := r,
         nd_metrics := (nd_metrics n)\<lparr>pm_total_fills := pm_total_fills (nd_metrics n) + 1\<rparr>\<rparr>))
       (book_and_report (qty_divisor env) e (nd_pnl n) (on_order_closed (nd_risk n)))"

definition live_answer :: "'h node_env \<Rightarrow> event \<Rightarrow> 'h node \<Rightarrow> 'h node option" where
  "live_answer env ev n = (case ev_payload ev of
     OrderFill e \<Rightarrow> live_fill env e n
   | OrderPartialFill e \<Rightarrow> live_fill env e n
   | OrderReject _ \<Rightarrow> Some (n\<lparr>nd_risk := on_order_closed (nd_risk n),
       nd_metrics := (nd_metrics n)\<lparr>pm_total_rejects := pm_total_rejects (nd_metrics n) + 1\<rparr>\<rparr>)
   | OrderCancel _ \<Rightarrow> Some (n\<lparr>nd_risk := on_order_closed (nd_risk n)\<rparr>)
   | _ \<Rightarrow> Some n)"

definition live_gateway :: "'h node_env \<Rightarrow> event \<Rightarrow> 'h node \<Rightarrow> 'h node option" where
  "live_gateway env ev n = do {
     n \<leftarrow> live_strategy ev (snd (append_node env ev (live_execute ev n)));
     live_answer env ev (hotpath_fill env ev n)
   }"

subsection \<open>A mesh message\<close>

definition replicate_event :: "'h node_env \<Rightarrow> event \<Rightarrow> 'h node \<Rightarrow> 'h node" where
  "replicate_event env ev n = snd (append_node env ev (live_execute ev n))"

text \<open>\<open>handle_mesh_message\<close>. The divergence checks only report; a vote and an announcement only log.\<close>

definition handle_mesh_message :: "'h node_env \<Rightarrow> mesh_message \<Rightarrow> 'h node \<Rightarrow> 'h node" where
  "handle_mesh_message env msg n = (case msg of
     EventReplication ev \<Rightarrow> replicate_event env ev n
   | EventBatch evs \<Rightarrow> fold (replicate_event env) evs n
   | MeshHeartbeat _ _ _ _ \<Rightarrow> n
   | SyncRequest from_seq to_seq \<Rightarrow>
       (case log_read_range (nv_dec env) (nd_files n) from_seq to_seq (log_read_only (rc_event_log_path (nv_recovery env))) of
          Inl _ \<Rightarrow> n
        | Inr evs \<Rightarrow> send_mesh (SyncResponse evs) n)
   | SyncResponse evs \<Rightarrow> fold (replicate_event env) evs n
   | SnapshotBroadcast snap \<Rightarrow> n\<lparr>nd_files := snd (save_snapshot (nv_senc env) (nv_recovery env) snap (nd_files n))\<rparr>
   | HashVerify _ _ \<Rightarrow> n
   | ConsensusVote _ _ _ \<Rightarrow> n
   | NodeAnnounce _ _ _ \<Rightarrow> n)"

text \<open>What it reports of a peer's hash: whether it matches.\<close>

definition mesh_hash_check :: "mesh_message \<Rightarrow> 'h node \<Rightarrow> bool option" where
  "mesh_hash_check msg n = (case msg of
     MeshHeartbeat _ seq hash _ \<Rightarrow> Some (verify_peer seq hash (nd_verifier n))
   | HashVerify seq hash \<Rightarrow> Some (verify_peer seq hash (nd_verifier n))
   | _ \<Rightarrow> None)"

subsection \<open>The heartbeat\<close>

definition daily_rollover :: "'h node_env \<Rightarrow> 'h node \<Rightarrow> 'h node" where
  "daily_rollover env n =
     (let (now, n) = read_clock env n; current_day = now div 86400000000000
      in if nd_last_reset_day n < current_day
         then n\<lparr>nd_last_reset_day := current_day, nd_risk := daily_reset (nd_risk n), nd_pnl := pnl_new\<rparr>
         else n)"

definition cancel_stale :: "'h node_env \<Rightarrow> 'h node \<Rightarrow> 'h node" where
  "cancel_stale env n =
     (let timeout_ns = stc_stale_order_timeout_secs (nc_strategy (nv_config env)) * 1000000000;
          (now, n) = read_clock env n
      in fold (\<lambda>oid n. if nv_gateway env then cancel_one env oid n
               else n\<lparr>nd_risk := on_order_closed (nd_risk n)\<rparr>)
           (stale_order_ids now timeout_ns (nd_execution n)) n)"

text \<open>\<open>last_seq % snapshot_interval\<close> panics when the interval is 0.\<close>

definition snapshot_due :: "'h node_env \<Rightarrow> 'h node \<Rightarrow> bool option" where
  "snapshot_due env n =
     (if nd_last_seq n = 0 then Some False
      else if nc_snapshot_interval (nv_config env) = 0 then None
      else Some (nd_last_seq n mod nc_snapshot_interval (nv_config env) = 0))"

definition save_node :: "'h node_env \<Rightarrow> 'h node \<Rightarrow> 'h node" where
  "save_node env n =
     (let (ts, n) = read_clock env n;
          snap = engine_snapshot (nv_ser env) (nv_xxh3 env) (nd_last_seq n) ts (nd_execution n)
      in n\<lparr>nd_files := snd (save_snapshot (nv_senc env) (nv_recovery env) snap (nd_files n))\<rparr>)"

definition live_heartbeat :: "'h node_env \<Rightarrow> 'h node \<Rightarrow> 'h node option" where
  "live_heartbeat env n =
     (let (now, n) = read_clock env n;
          n = send_mesh (MeshHeartbeat (nv_source env) (nd_last_seq n) (sv_last_hash (nd_verifier n)) (now div 1000000000)) n;
          n = cancel_stale env (daily_rollover env n)
      in map_option (\<lambda>due. if due then save_node env n else n) (snapshot_due env n))"

subsection \<open>Shutdown, and the loop\<close>

text \<open>Cancelling is awaited; the strategies' \<open>on_stop\<close> does nothing.\<close>

definition shutdown_node :: "'h node_env \<Rightarrow> 'h node \<Rightarrow> 'h node" where
  "shutdown_node env n =
     (let n = (if nv_gateway env then fold (cancel_one env) (open_order_ids (nd_execution n)) n else n)
      in save_node env (flush_node n))"

datatype node_input = FeedEvent event | GatewayEvent event | MeshIn mesh_message | HeartbeatTick | KillRequest u64 string

definition node_step :: "'h node_env \<Rightarrow> node_input \<Rightarrow> 'h node \<Rightarrow> 'h node option" where
  "node_step env inp n = (case inp of
     FeedEvent ev \<Rightarrow> live_feed env ev n
   | GatewayEvent ev \<Rightarrow> live_gateway env ev n
   | MeshIn msg \<Rightarrow> Some (handle_mesh_message env msg n)
   | HeartbeatTick \<Rightarrow> live_heartbeat env n
   | KillRequest ms action \<Rightarrow> Some (n\<lparr>nd_dashboard := snd (api_kill ms action (nd_dashboard n))\<rparr>))"

fun node_run :: "'h node_env \<Rightarrow> node_input list \<Rightarrow> 'h node \<Rightarrow> 'h node option" where
  "node_run env [] n = Some n"
| "node_run env (i # is) n = do { n \<leftarrow> node_step env i n; node_run env is n }"

end
