(* ===== verification/Node_Safety.thy ===== *)
theory Node_Safety
  imports Node_Live
begin

section \<open>atomic-node: safety of the live loop\<close>

text \<open>
  What holds along every run of the live loop: a killed node places nothing, an order is placed
  exactly when the risk engine admits it, the risk engine's profit is the node's. The steps of a
  handler are shown to satisfy a relation between the states before and after; its
  transitivity carries it through handlers and runs.
\<close>

lemma option_Some_E: "map_option f x = Some y \<Longrightarrow> (\<And>a. x = Some a \<Longrightarrow> y = f a \<Longrightarrow> P) \<Longrightarrow> P"
  by (cases x) auto

subsection \<open>Relations kept by every step\<close>

text \<open>A relation that every elementary step of the loop keeps holds along every run. The elementary
  steps are those that touch orders, risk, profit or requests; the rest change none of the
  fields that \<open>core\<close> names.\<close>

definition node_core :: "'h node \<Rightarrow> execution_engine \<times> risk_engine \<times> pnl_book \<times> gateway_call list \<times> u64" where
  "node_core n = (nd_execution n, nd_risk n, nd_pnl n, nd_gateway_calls n, pm_total_orders (nd_metrics n))"

lemma core_read [simp]: "read_clock env n = (t, n') \<Longrightarrow> node_core n' = node_core n"
  by (auto simp: read_clock_def node_core_def)

lemma core_flush [simp]: "node_core (flush_node n) = node_core n"
  by (simp add: flush_node_def node_core_def split: prod.split)

lemma core_append [simp]: "append_node env ev n = (r, n') \<Longrightarrow> node_core n' = node_core n"
  by (auto simp: append_node_def node_core_def split: prod.splits)

lemma core_append_snd [simp]: "node_core (snd (append_node env ev n)) = node_core n"
  by (auto simp: append_node_def node_core_def split: prod.splits)

lemma core_log [simp]: "node_core (live_log env ev n) = node_core n"
  by (auto simp: live_log_def split: prod.split sum.split)

lemma core_quote [simp]: "live_quote env ev n = (r, n') \<Longrightarrow> node_core n' = node_core n"
  by (cases "ev_payload ev") (auto simp: live_quote_def node_core_def split: prod.splits)

lemma core_strategy [simp]: "live_strategy ev n = Some n' \<Longrightarrow> node_core n' = node_core n"
  by (auto simp: live_strategy_def node_core_def)

lemma core_hotpath_fill [simp]: "node_core (hotpath_fill env ev n) = node_core n"
  by (simp add: hotpath_fill_def node_core_def split: option.split)

lemma core_send [simp]: "node_core (send_mesh m n) = node_core n"
  by (simp add: send_mesh_def node_core_def)

lemma core_count [simp]: "node_core (count_event n) = node_core n"
  by (simp add: count_event_def node_core_def)

lemma core_verify [simp]: "node_core (live_verify env ev n) = node_core n"
  by (simp add: live_verify_def Let_def send_mesh_def flush_node_def node_core_def split: prod.split)

lemma core_save [simp]: "node_core (save_node env n) = node_core n"
  by (simp add: save_node_def Let_def node_core_def read_clock_def)

lemma core_stamp [simp]: "live_stamp env ev n = (ev', n') \<Longrightarrow> node_core n' = node_core n"
  by (auto simp: live_stamp_def Let_def node_core_def read_clock_def)

text \<open>The risk operations that any part of the loop may call.\<close>

definition plain_risk_op :: "risk_op \<Rightarrow> bool" where
  "plain_risk_op op = (case op of OrderClosed \<Rightarrow> True | UpdateSpread _ \<Rightarrow> True | ActivateKill \<Rightarrow> True | _ \<Rightarrow> False)"

locale node_relation =
  fixes env :: "'h node_env"
    and rel :: "'h node \<Rightarrow> 'h node \<Rightarrow> bool"
  assumes refl: "node_core n' = node_core n \<Longrightarrow> rel n n'"
    and trans: "rel n n1 \<Longrightarrow> rel n1 n2 \<Longrightarrow> rel n n2"
    and executes: "rel n (live_execute ev n)"
    and risks: "plain_risk_op op \<Longrightarrow> rel n (n\<lparr>nd_risk := snd (risk_step (nd_risk n) op)\<rparr>)"
    and requests: "\<not> is_Gw_Submit c \<Longrightarrow> rel n (call_gateway c n)"
    and reseeds: "rel n (reseed env n)"
    and places: "place_order env ev smb sd ty p q tif v n = Some n' \<Longrightarrow> rel n n'"
    and books: "book_and_report (qty_divisor env) e (nd_pnl n) (nd_risk n) = Some (b, r) \<Longrightarrow>
      rel n (n\<lparr>nd_pnl := b, nd_risk := r\<rparr>)"
    and resets: "rel n (n\<lparr>nd_risk := daily_reset (nd_risk n), nd_pnl := pnl_new\<rparr>)"
begin

lemmas rel_trans [trans] = trans

lemma then_core: "rel n n1 \<Longrightarrow> node_core n2 = node_core n1 \<Longrightarrow> rel n n2"
  using refl trans by metis

lemma rel_risk:
  "rel n (n\<lparr>nd_risk := on_order_closed (nd_risk n)\<rparr>)"
  "rel n (n\<lparr>nd_risk := activate_kill_switch (nd_risk n)\<rparr>)"
  "rel n (n\<lparr>nd_risk := update_spread s (nd_risk n)\<rparr>)"
  using risks [of OrderClosed n] risks [of ActivateKill n] risks [of "UpdateSpread s" n]
  by (simp_all add: plain_risk_op_def)

lemma rel_close: "rel n (n\<lparr>nd_risk := close_orders k (nd_risk n)\<rparr>)"
proof (induction k)
  case (Suc k)
  show ?case
    using trans [OF Suc.IH rel_risk(1)] by (simp add: close_orders_def)
qed (simp add: close_orders_def refl)

lemma rel_cancel_everything: "rel n (cancel_everything env code n)"
  by (simp add: cancel_everything_def rel_close requests)

lemma rel_kill: "rel n (live_kill env n)"
proof -
  obtain a d where act: "pending_kill_action (nd_dashboard n) = (a, d)" by fastforce
  let ?n = "n\<lparr>nd_dashboard := d\<rparr>"
  have "rel n ?n" by (rule refl) (simp add: node_core_def)
  moreover have "rel ?n (cancel_everything env code (?n\<lparr>nd_risk := activate_kill_switch (nd_risk n)\<rparr>))" for code
    using trans [OF rel_risk(2) [of ?n] rel_cancel_everything] by simp
  ultimately have "rel n (cancel_everything env code (?n\<lparr>nd_risk := activate_kill_switch (nd_risk n)\<rparr>))"
    "rel n (cancel_everything env code ?n)" "rel n ?n" for code
    by (blast intro: trans rel_cancel_everything)+
  then show ?thesis by (simp add: live_kill_def act Let_def)
qed

lemma rel_book: "rel n (live_book ev n)"
proof (cases "ev_payload ev")
  case (OrderBookUpdate obu)
  have "rel n (n\<lparr>nd_risk := (case spread (updated_book ev obu n) of None \<Rightarrow> nd_risk n | Some s \<Rightarrow> update_spread s (nd_risk n))\<rparr>)"
    by (cases "spread (updated_book ev obu n)") (simp_all add: rel_risk refl)
  then show ?thesis
    by (rule then_core) (simp add: live_book_def OrderBookUpdate Let_def node_core_def)
qed (simp_all add: live_book_def refl)

lemma rel_prepare: "live_prepare env ev n = (ev', n') \<Longrightarrow> rel n n'"
proof -
  assume p: "live_prepare env ev n = (ev', n')"
  obtain n1 where st: "live_stamp env ev n = (ev', n1)" and n': "n' = live_kill env (live_execute ev' (live_book ev' (live_log env ev' n1)))"
    using p by (auto simp: live_prepare_def split: prod.splits)
  have "rel n (live_log env ev' n1)" using st by (intro refl) simp
  also have "rel (live_log env ev' n1) (live_book ev' (live_log env ev' n1))" by (rule rel_book)
  also have "rel (live_book ev' (live_log env ev' n1)) (live_execute ev' (live_book ev' (live_log env ev' n1)))"
    by (rule executes)
  also have "rel (live_execute ev' (live_book ev' (live_log env ev' n1))) n'" unfolding n' by (rule rel_kill)
  finally show "rel n n'" .
qed

lemma rel_cancel_one: "rel n (cancel_one env oid n)"
proof -
  have "rel n (n\<lparr>nd_clock_reads := nd_clock_reads n + 1\<rparr>)" by (rule refl) (simp add: node_core_def)
  from trans [OF this requests] show ?thesis
    by (simp add: cancel_one_def read_clock_def Let_def)
qed

lemma rel_commands: "exec_commands env ev cs n = Some n' \<Longrightarrow> rel n n'"
proof (induction cs arbitrary: n)
  case (Cons c cs)
  then obtain n1 where n1: "exec_command env ev c n = Some n1" and "rel n1 n'"
    by (auto simp: option_bind_Some_iff)
  moreover have "rel n n1"
    using n1 by (cases c) (auto simp: exec_command_def rel_cancel_everything rel_cancel_one refl intro: places)
  ultimately show ?case using trans by blast
qed (simp add: refl)

lemma rel_feed: "live_feed env ev n = Some n' \<Longrightarrow> rel n n'"
proof -
  assume f: "live_feed env ev n = Some n'"
  obtain ev' n1 where p: "live_prepare env ev n = (ev', n1)" by fastforce
  obtain r n2 where q: "live_quote env ev' n1 = (r, n2)" by fastforce
  obtain n3 cs n4 where s: "live_strategy ev' n2 = Some n3" and x: "exec_commands env ev' cs n3 = Some n4"
    and n': "n' = live_verify env ev' (count_event n4)"
    using f p q by (auto simp: live_feed_def option_bind_Some_iff)
  have "node_core n3 = node_core n1" using q s by simp
  then have "rel n n3" using then_core [OF rel_prepare [OF p]] by simp
  from trans [OF this rel_commands [OF x]] show "rel n n'" by (rule then_core) (simp add: n')
qed

lemma rel_fill: "live_fill env e n = Some n' \<Longrightarrow> rel n n'"
proof -
  assume f: "live_fill env e n = Some n'"
  obtain b r where br: "book_and_report (qty_divisor env) e (nd_pnl n) (on_order_closed (nd_risk n)) = Some (b, r)"
    and n': "n' = reseed env (n\<lparr>nd_pnl := b, nd_risk := r,
      nd_metrics := (nd_metrics n)\<lparr>pm_total_fills := pm_total_fills (nd_metrics n) + 1\<rparr>\<rparr>)"
    using f by (auto simp: live_fill_def elim!: option_Some_E)
  have "rel (n\<lparr>nd_risk := on_order_closed (nd_risk n)\<rparr>) (n\<lparr>nd_pnl := b, nd_risk := r\<rparr>)"
    using books [of e "n\<lparr>nd_risk := on_order_closed (nd_risk n)\<rparr>" b r] br by simp
  from trans [OF rel_risk(1) this] have "rel n (n\<lparr>nd_pnl := b, nd_risk := r,
      nd_metrics := (nd_metrics n)\<lparr>pm_total_fills := pm_total_fills (nd_metrics n) + 1\<rparr>\<rparr>)"
    by (rule then_core) (simp add: node_core_def)
  from trans [OF this reseeds] show "rel n n'" by (simp add: n')
qed

lemma rel_answer: "live_answer env ev n = Some n' \<Longrightarrow> rel n n'"
proof -
  assume a: "live_answer env ev n = Some n'"
  have rej: "rel n (n\<lparr>nd_risk := on_order_closed (nd_risk n), nd_metrics := (nd_metrics n)\<lparr>pm_total_rejects := k\<rparr>\<rparr>)" for k
    by (rule then_core [OF rel_risk(1)]) (simp add: node_core_def)
  show "rel n n'"
  proof (cases "ev_payload ev")
    case (OrderFill e)
    with a show ?thesis by (intro rel_fill) (simp add: live_answer_def)
  next
    case (OrderPartialFill e)
    with a show ?thesis by (intro rel_fill) (simp add: live_answer_def)
  next
    case (OrderReject e)
    then have "n' = n\<lparr>nd_risk := on_order_closed (nd_risk n),
        nd_metrics := (nd_metrics n)\<lparr>pm_total_rejects := pm_total_rejects (nd_metrics n) + 1\<rparr>\<rparr>"
      using a by (simp add: live_answer_def)
    with rej show ?thesis by (simp only:)
  next
    case (OrderCancel e)
    then have "n' = n\<lparr>nd_risk := on_order_closed (nd_risk n)\<rparr>" using a by (simp add: live_answer_def)
    with rel_risk(1) show ?thesis by (simp only:)
  qed (use a in \<open>simp_all add: live_answer_def refl\<close>)
qed

lemma rel_gateway: "live_gateway env ev n = Some n' \<Longrightarrow> rel n n'"
proof -
  assume g: "live_gateway env ev n = Some n'"
  then obtain n1 where s: "live_strategy ev (snd (append_node env ev (live_execute ev n))) = Some n1"
    and a: "live_answer env ev (hotpath_fill env ev n1) = Some n'"
    by (auto simp: live_gateway_def option_bind_Some_iff)
  have "rel n (hotpath_fill env ev n1)" using s by (intro then_core [OF executes [of n ev]]) simp
  from trans [OF this rel_answer [OF a]] show "rel n n'" .
qed

lemma rel_replicate: "rel n (replicate_event env ev n)"
  unfolding replicate_event_def by (rule then_core [OF executes]) simp

lemma rel_fold: "(\<And>x n. rel n (f x n)) \<Longrightarrow> rel n (fold f xs n)"
  by (induction xs arbitrary: n) (auto simp: refl intro: trans)

lemma rel_mesh: "rel n (handle_mesh_message env msg n)"
  by (cases msg)
    (auto simp: handle_mesh_message_def rel_replicate rel_fold node_core_def send_mesh_def intro: refl split: sum.split)

lemma rel_rollover: "rel n (daily_rollover env n)"
proof -
  have "rel n (n\<lparr>nd_clock_reads := nd_clock_reads n + 1, nd_last_reset_day := day,
      nd_risk := daily_reset (nd_risk n), nd_pnl := pnl_new\<rparr>)" for day
    by (rule then_core [OF resets]) (simp add: node_core_def)
  moreover have "rel n (n\<lparr>nd_clock_reads := nd_clock_reads n + 1\<rparr>)" by (rule refl) (simp add: node_core_def)
  ultimately show ?thesis by (simp add: daily_rollover_def read_clock_def Let_def)
qed

lemma rel_heartbeat: "live_heartbeat env n = Some n' \<Longrightarrow> rel n n'"
proof -
  assume h: "live_heartbeat env n = Some n'"
  obtain t n1 where r: "read_clock env n = (t, n1)" by fastforce
  let ?n1 = "send_mesh (MeshHeartbeat (nv_source env) (nd_last_seq n1) (sv_last_hash (nd_verifier n1)) (t div 1000000000)) n1"
  have "rel n ?n1" using r by (intro refl) simp
  also have "rel ?n1 (daily_rollover env ?n1)" by (rule rel_rollover)
  also have "rel (daily_rollover env ?n1) (cancel_stale env (daily_rollover env ?n1))"
  proof -
    obtain t2 n2 where r2: "read_clock env (daily_rollover env ?n1) = (t2, n2)" by fastforce
    have "rel (daily_rollover env ?n1) n2" using r2 by (intro refl) simp
    also have "rel n2 (cancel_stale env (daily_rollover env ?n1))"
      by (simp add: cancel_stale_def r2 Let_def) (intro rel_fold, simp add: rel_cancel_one rel_risk)
    finally show ?thesis .
  qed
  finally have "rel n (cancel_stale env (daily_rollover env ?n1))" .
  moreover have "node_core n' = node_core (cancel_stale env (daily_rollover env ?n1))"
    using h r by (auto simp: live_heartbeat_def Let_def elim!: option_Some_E)
  ultimately show "rel n n'" by (rule then_core)
qed

lemma rel_step: "node_step env i n = Some n' \<Longrightarrow> rel n n'"
  by (cases i) (auto simp: node_step_def rel_feed rel_gateway rel_mesh rel_heartbeat node_core_def intro: refl)

lemma rel_run: "node_run env is n = Some n' \<Longrightarrow> rel n n'"
  by (induction "is" arbitrary: n) (auto simp: option_bind_Some_iff refl intro: trans rel_step)

end

subsection \<open>Placing an order\<close>

text \<open>What an accepted order changes.\<close>

lemma place_accepted_core:
  assumes "next_order_id v (nd_execution n) = (oid, en)"
  shows "nd_execution (place_accepted env ev smb sd ty p q tif v n) =
      snd (register_order (live_order_new oid smb sd ty p q tif v (ev_timestamp ev)) en)"
    and "nd_risk (place_accepted env ev smb sd ty p q tif v n) = on_order_opened (nd_risk n)"
    and "nd_pnl (place_accepted env ev smb sd ty p q tif v n) = nd_pnl n"
    and "pm_total_orders (nd_metrics (place_accepted env ev smb sd ty p q tif v n)) = pm_total_orders (nd_metrics n) + 1"
    and "\<exists>seq ts. nd_gateway_calls (place_accepted env ev smb sd ty p q tif v n) = nd_gateway_calls n @
      (if nv_gateway env then [Gw_Submit oid smb sd ty p q tif seq ts] else [])"
  by (auto simp: place_accepted_def assms Let_def read_clock_def append_node_def call_gateway_def split: prod.split)

lemma place_order_cases:
  assumes "place_order env ev smb sd ty p q tif v n = Some n'"
  obtains (refused) mpos where "held_position smb (nd_pnl n) = Some mpos"
      "\<not> admissible sd q p mpos (ev_timestamp ev) (nd_risk n)"
      "node_core n' = node_core (n\<lparr>nd_risk := snd (check_order sd q p mpos (ev_timestamp ev) (nd_risk n))\<rparr>)"
  | (placed) mpos where "held_position smb (nd_pnl n) = Some mpos"
      "admissible sd q p mpos (ev_timestamp ev) (nd_risk n)"
      "n' = place_accepted env ev smb sd ty p q tif v
        (n\<lparr>nd_risk := snd (check_order sd q p mpos (ev_timestamp ev) (nd_risk n))\<rparr>)"
proof -
  obtain mpos where pos: "held_position smb (nd_pnl n) = Some mpos"
    using assms by (auto simp: place_order_def option_bind_Some_iff)
  obtain res rk where chk: "check_order sd q p mpos (ev_timestamp ev) (nd_risk n) = (res, rk)" by fastforce
  have ok: "is_ok res \<longleftrightarrow> admissible sd q p mpos (ev_timestamp ev) (nd_risk n)"
    using check_order_ok [of sd q p mpos "ev_timestamp ev" "nd_risk n"] chk by simp
  show ?thesis
  proof (cases res)
    case (Inl e)
    with assms pos chk ok show ?thesis
      by (intro refused [OF pos]) (auto simp: place_order_def node_core_def)
  next
    case (Inr u)
    with assms pos chk ok show ?thesis
      by (intro placed [OF pos]) (auto simp: place_order_def)
  qed
qed

lemma order_kept:
  "hm_get (ee_orders en) k \<noteq> None \<Longrightarrow> hm_get (ee_orders (snd (process_event ev en))) k \<noteq> None"
proof -
  obtain r en' where "process_event ev en = (r, en')" by fastforce
  from process_event_cases [OF this] this
  show "hm_get (ee_orders en) k \<noteq> None \<Longrightarrow> hm_get (ee_orders (snd (process_event ev en))) k \<noteq> None"
    by (auto simp: hm_get_insert)
qed

lemma register_kept:
  "hm_get (ee_orders (snd (register_order lo en))) (lo_order_id lo) \<noteq> None"
  "hm_get (ee_orders en) k \<noteq> None \<Longrightarrow> hm_get (ee_orders (snd (register_order lo en))) k \<noteq> None"
  "ee_next_local_id (snd (register_order lo en)) = ee_next_local_id en"
  by (auto simp: register_order_def hm_get_insert)

subsection \<open>A killed node\<close>

text \<open>The orders that buy the first holdings on the testnet, at the start and when the position is empty.\<close>

definition is_seed :: "'h node_env \<Rightarrow> gateway_call \<Rightarrow> bool" where
  "is_seed env c \<longleftrightarrow> is_testnet (nc_gateway (nv_config env)) \<and> (case c of
     Gw_Submit oid smb sd ty p q tif seq ts \<Rightarrow> (prefix ''reseed-'' oid \<or> oid = ''seed-buy-1'') \<and> smb = live_symbol env \<and> sd = Buy \<and> ty = Market \<and> q = 100000
   | _ \<Rightarrow> False)"

definition silent :: "'h node_env \<Rightarrow> 'h node \<Rightarrow> 'h node \<Rightarrow> bool" where
  "silent env n n' \<longleftrightarrow> (is_killed (nd_risk n) \<longrightarrow> is_killed (nd_risk n') \<and>
     ee_next_local_id (nd_execution n') = ee_next_local_id (nd_execution n) \<and>
     pm_total_orders (nd_metrics n') = pm_total_orders (nd_metrics n) \<and>
     (\<exists>calls. nd_gateway_calls n' = nd_gateway_calls n @ calls \<and>
       (\<forall>c \<in> set calls. is_Gw_Submit c \<longrightarrow> is_seed env c)))"

lemma reseed_calls: "\<exists>calls. nd_gateway_calls (reseed env n) = nd_gateway_calls n @ calls \<and>
    (\<forall>c \<in> set calls. is_seed env c) \<and> nd_execution (reseed env n) = nd_execution n \<and>
    nd_risk (reseed env n) = nd_risk n \<and> nd_pnl (reseed env n) = nd_pnl n \<and> nd_metrics (reseed env n) = nd_metrics n"
  by (auto simp: reseed_def call_gateway_def is_seed_def)

lemma settle_flat_risk:
  "rk_kill_switch (snd (settle_flat b r)) = rk_kill_switch r"
  "rk_open_order_count (snd (settle_flat b r)) = rk_open_order_count r"
  "rk_limits (snd (settle_flat b r)) = rk_limits r"
  by (simp_all add: settle_flat_def record_win_def record_loss_def Let_def)

lemma update_pnl_risk:
  "rk_kill_switch (update_pnl x r) = rk_kill_switch r"
  "rk_open_order_count (update_pnl x r) = rk_open_order_count r"
  "rk_limits (update_pnl x r) = rk_limits r"
  by (simp_all add: update_pnl_def Let_def)

lemma book_report_risk:
  assumes "book_and_report d e b r = Some (b', r')"
  shows "rk_kill_switch r' = rk_kill_switch r" "rk_open_order_count r' = rk_open_order_count r" "rk_limits r' = rk_limits r"
proof -
  obtain b1 x where "settle_flat b1 (update_pnl x r) = (b', r')"
    using assms by (auto simp: book_and_report_def)
  then have "r' = snd (settle_flat b1 (update_pnl x r))" by simp
  then show "rk_kill_switch r' = rk_kill_switch r" "rk_open_order_count r' = rk_open_order_count r" "rk_limits r' = rk_limits r"
    by (simp_all add: settle_flat_risk update_pnl_risk)
qed

lemma killed_not_admissible: "is_killed r \<Longrightarrow> \<not> admissible s q p mpos ts r"
  by (simp add: admissible_def is_killed_def Let_def)

lemma plain_op_frame:
  "plain_risk_op op \<Longrightarrow> is_killed r \<Longrightarrow> is_killed (snd (risk_step r op))"
  "plain_risk_op op \<Longrightarrow> rk_total_pnl (snd (risk_step r op)) = rk_total_pnl r"
  "plain_risk_op op \<Longrightarrow> rk_limits (snd (risk_step r op)) = rk_limits r"
  "plain_risk_op op \<Longrightarrow> rk_open_order_count (snd (risk_step r op)) \<le> rk_open_order_count r"
  by (cases op; auto simp: plain_risk_op_def is_killed_def on_order_closed_def update_spread_def activate_kill_switch_def
      u64_saturating_sub_def word_le_nat_alt unat_sub)+

interpretation silence: node_relation env "silent env" for env :: "'h node_env"
proof unfold_locales
  fix n n' n1 n2 :: "'h node" and ev smb sd ty p q tif v e b r op c
  show "silent env n n'" if "node_core n' = node_core n"
    using that by (simp add: node_core_def silent_def)
  show "silent env n n2" if "silent env n n1" "silent env n1 n2"
    using that unfolding silent_def by (metis Un_iff append.assoc set_append)
  show "silent env n (live_execute ev n)" by (simp add: silent_def live_execute_def next_id_process)
  show "silent env n (n\<lparr>nd_risk := snd (risk_step (nd_risk n) op)\<rparr>)" if "plain_risk_op op"
    using plain_op_frame(1) [OF that] by (simp add: silent_def)
  show "silent env n (call_gateway c n)" if "\<not> is_Gw_Submit c"
    using that by (simp add: silent_def call_gateway_def)
  show "silent env n (reseed env n)" using reseed_calls [of env n] by (auto simp: silent_def)
  show "silent env n (n\<lparr>nd_pnl := b, nd_risk := r\<rparr>)" if "book_and_report (qty_divisor env) e (nd_pnl n) (nd_risk n) = Some (b, r)"
    using book_report_risk(1) [OF that] by (simp add: silent_def is_killed_def)
  show "silent env n (n\<lparr>nd_risk := daily_reset (nd_risk n), nd_pnl := pnl_new\<rparr>)"
    by (simp add: silent_def is_killed_def daily_reset_def)
  show "silent env n n'" if "place_order env ev smb sd ty p q tif v n = Some n'"
    using that
  proof (cases rule: place_order_cases)
    case (refused mpos)
    then show ?thesis
      using check_order_frame_snd(3) [of "nd_risk n"] by (simp add: silent_def node_core_def is_killed_def)
  next
    case (placed mpos)
    then show ?thesis using killed_not_admissible by (auto simp: silent_def)
  qed
qed

subsection \<open>A worked node\<close>

text \<open>A quoting engine that bids 5 at 100 on every trade, and a fresh node around it.\<close>

definition ex_hp :: "unit hp_engine" where
  "ex_hp = \<lparr>hp_book_update = \<lambda>_ _ _ h. (hp_result_default, h),
     hp_trade = \<lambda>_ _ _ h. (hp_result_default\<lparr>hr_commands := [\<lparr>hc_tag = 1, hc_price = 100, hc_qty = 5\<rparr>], hr_count := 1\<rparr>, h),
     hp_fill = \<lambda>_ _ _ h. h\<rparr>"

definition ex_env :: "bool \<Rightarrow> unit node_env" where
  "ex_env gateway = \<lparr>nv_config = node_config_default, nv_gateway = gateway, nv_source = [], nv_clock = of_nat,
     nv_enc = \<lambda>_. Inl ''none'', nv_dec = \<lambda>_. Inl ''none'', nv_senc = \<lambda>_. Inl ''none'', nv_ser = \<lambda>_. None, nv_xxh3 = \<lambda>_. 7,
     nv_hp = ex_hp, nv_recovery = coordinator_new ''snap'' ''log''\<rparr>"

definition ex_node :: "unit node" where
  "ex_node = \<lparr>nd_execution = engine_new, nd_strategy = strategy_engine_new, nd_risk = risk_new limits_default,
     nd_verifier = verifier_new 10, nd_event_log = fst (log_open ''log'' (\<lambda>_. None)), nd_files = \<lambda>_. None,
     nd_router = router_new, nd_hotpath = (), nd_metrics = pipeline_metrics_new, nd_books = [], nd_pnl = pnl_new,
     nd_last_seq = 1, nd_last_mid_price = 0, nd_last_reset_day = 0,
     nd_dashboard = \<lparr>da_node_id = [], da_role = [], da_gateway_mode = [], da_peers = [], da_symbols = [], da_kill_action = 0\<rparr>,
     nd_clock_reads = 0, nd_gateway_calls = [], nd_mesh_sent = []\<rparr>"

definition ex_print :: event where
  "ex_print = ex_event 0 (Trade \<lparr>te_symbol = ex_sym, te_price = 100, te_qty = 1, te_side = Buy, te_exchange_ts = 0\<rparr>)"

lemma ex_run_places:
  "map_option (\<lambda>n. (map fst (ee_orders (nd_execution n)), length (nd_gateway_calls n), pm_total_orders (nd_metrics n)))
     (node_run (ex_env True) [FeedEvent ex_print, FeedEvent ex_print] ex_node) =
   Some ([''simulated-1'', ''simulated-2''], 2, 2)"
  by code_simp

lemma ex_killed_runs:
  "node_run (ex_env True) [FeedEvent ex_print] (ex_node\<lparr>nd_risk := activate_kill_switch (risk_new limits_default)\<rparr>) \<noteq> None"
  by code_simp

subsection \<open>Properties\<close>

text \<open>C29: A killed node stays killed and places no order, whatever feed events, gateway events, mesh messages,
  heartbeats and requests arrive: no id is taken, no order is counted, and nothing is sent to the exchange
  but cancellations and, on the testnet, the reseeding market order, which bypasses the risk engine.\<close>

theorem killed_node_places_nothing:
  assumes "node_run env is n = Some n'" and "is_killed (nd_risk n)"
  shows "is_killed (nd_risk n') \<and> ee_next_local_id (nd_execution n') = ee_next_local_id (nd_execution n) \<and>
    pm_total_orders (nd_metrics n') = pm_total_orders (nd_metrics n) \<and>
    (\<exists>calls. nd_gateway_calls n' = nd_gateway_calls n @ calls \<and>
      (\<forall>c \<in> set calls. is_Gw_Submit c \<longrightarrow> is_seed env c))"
  using silence.rel_run [OF assms(1)] assms(2) by (simp add: silent_def)

lemma killed_node_places_nothing_witness:
  "\<exists>n'. node_run (ex_env True) [FeedEvent ex_print] (ex_node\<lparr>nd_risk := activate_kill_switch (risk_new limits_default)\<rparr>) = Some n' \<and>
    is_killed (nd_risk n') \<and> pm_total_orders (nd_metrics n') = 0"
proof -
  let ?n = "ex_node\<lparr>nd_risk := activate_kill_switch (risk_new limits_default)\<rparr>"
  obtain n' where run: "node_run (ex_env True) [FeedEvent ex_print] ?n = Some n'" using ex_killed_runs by blast
  have "is_killed (nd_risk ?n)" "pm_total_orders (nd_metrics ?n) = 0"
    by (simp_all add: is_killed_def activate_kill_switch_def ex_node_def pipeline_metrics_new_def)
  with killed_node_places_nothing [OF run] run show ?thesis by simp
qed

text \<open>The invariant of a live node: the risk engine's profit is the book's, the open-order count is within its
  limit, and every order sent is registered.\<close>

definition node_ok :: "'h node_env \<Rightarrow> 'h node \<Rightarrow> bool" where
  "node_ok env n \<longleftrightarrow> rk_total_pnl (nd_risk n) = pb_realized_pnl (nd_pnl n) \<and>
     rk_open_order_count (nd_risk n) \<le> rl_max_open_orders (rk_limits (nd_risk n)) \<and>
     (\<forall>c \<in> set (nd_gateway_calls n). is_Gw_Submit c \<longrightarrow>
        is_seed env c \<or> hm_get (ee_orders (nd_execution n)) (gc_order_id c) \<noteq> None)"

definition keeps_ok :: "'h node_env \<Rightarrow> 'h node \<Rightarrow> 'h node \<Rightarrow> bool" where
  "keeps_ok env n n' \<longleftrightarrow> rk_limits (nd_risk n') = rk_limits (nd_risk n) \<and> (node_ok env n \<longrightarrow> node_ok env n')"

lemma ok_place:
  assumes ok: "node_ok env n" and adm: "admissible sd q p mpos ts (nd_risk n)"
  defines "r \<equiv> snd (check_order sd q p mpos ts (nd_risk n))"
  shows "node_ok env (place_accepted env ev smb sd ty p q tif v (n\<lparr>nd_risk := r\<rparr>))"
proof -
  let ?n = "place_accepted env ev smb sd ty p q tif v (n\<lparr>nd_risk := r\<rparr>)"
  obtain oid en where id: "next_order_id v (nd_execution n) = (oid, en)" by fastforce
  then have id': "next_order_id v (nd_execution (n\<lparr>nd_risk := r\<rparr>)) = (oid, en)" and en: "ee_orders en = ee_orders (nd_execution n)"
    by (auto simp: next_order_id_def)
  note core = place_accepted_core [OF id', of env ev smb sd ty p q tif]
  have "check_order sd q p mpos ts (nd_risk n) = (fst (check_order sd q p mpos ts (nd_risk n)), r)" by (simp add: r_def)
  note frame = check_order_frame [OF this]
  have room: "rk_open_order_count (nd_risk n) < rl_max_open_orders (rk_limits (nd_risk n))"
    using adm by (simp add: admissible_def Let_def)
  then have "rk_open_order_count (nd_risk n) + 1 \<le> rl_max_open_orders (rk_limits (nd_risk n))"
    by (rule inc_le)
  moreover have "hm_get (ee_orders (nd_execution ?n)) oid \<noteq> None"
    using register_kept(1) [of "live_order_new oid smb sd ty p q tif v (ev_timestamp ev)" en]
    by (simp add: core(1) live_order_new_def)
  moreover have "hm_get (ee_orders (nd_execution n)) k \<noteq> None \<Longrightarrow> hm_get (ee_orders (nd_execution ?n)) k \<noteq> None" for k
    using register_kept(2) [of en k] en by (simp add: core(1))
  ultimately show ?thesis
    using ok core(2,3) frame core(5) unfolding node_ok_def
    by (auto simp: on_order_opened_def split: if_splits)
qed

interpretation soundness: node_relation env "keeps_ok env" for env :: "'h node_env"
proof unfold_locales
  fix n n' n1 n2 :: "'h node" and ev smb sd ty p q tif v e b r op c
  show "keeps_ok env n n'" if "node_core n' = node_core n"
    using that by (simp add: node_core_def keeps_ok_def node_ok_def)
  show "keeps_ok env n n2" if "keeps_ok env n n1" "keeps_ok env n1 n2"
    using that by (simp add: keeps_ok_def)
  show "keeps_ok env n (live_execute ev n)"
    using order_kept by (fastforce simp: keeps_ok_def node_ok_def live_execute_def)
  show "keeps_ok env n (n\<lparr>nd_risk := snd (risk_step (nd_risk n) op)\<rparr>)" if "plain_risk_op op"
    using plain_op_frame(2-4) [OF that, of "nd_risk n"] by (auto simp: keeps_ok_def node_ok_def)
  show "keeps_ok env n (call_gateway c n)" if "\<not> is_Gw_Submit c"
    using that by (auto simp: keeps_ok_def node_ok_def call_gateway_def)
  show "keeps_ok env n (reseed env n)"
    using reseed_calls [of env n] by (auto simp: keeps_ok_def node_ok_def)
  show "keeps_ok env n (n\<lparr>nd_pnl := b, nd_risk := r\<rparr>)"
    if "book_and_report (qty_divisor env) e (nd_pnl n) (nd_risk n) = Some (b, r)"
    using book_report_risk [OF that] report_syncs(1) [OF that] by (simp add: keeps_ok_def node_ok_def)
  show "keeps_ok env n (n\<lparr>nd_risk := daily_reset (nd_risk n), nd_pnl := pnl_new\<rparr>)"
    by (simp add: keeps_ok_def node_ok_def daily_reset_def pnl_new_def)
  show "keeps_ok env n n'" if "place_order env ev smb sd ty p q tif v n = Some n'"
    using that
  proof (cases rule: place_order_cases)
    case (refused mpos)
    have "check_order sd q p mpos (ev_timestamp ev) (nd_risk n) =
      (fst (check_order sd q p mpos (ev_timestamp ev) (nd_risk n)), snd (check_order sd q p mpos (ev_timestamp ev) (nd_risk n)))"
      by simp
    note frame = check_order_frame [OF this]
    from refused(3) frame show ?thesis by (simp add: node_core_def keeps_ok_def node_ok_def)
  next
    case (placed mpos)
    have "rk_limits (nd_risk n') = rk_limits (nd_risk n)"
      unfolding placed(3) by (cases "next_order_id v (nd_execution n)")
        (simp add: place_accepted_core(2) [of v _ ] on_order_opened_def check_order_frame_snd(1))
    with ok_place [OF _ placed(2)] show ?thesis unfolding keeps_ok_def placed(3) by blast
  qed
qed



text \<open>C33: The live loop trusts every fill the gateway reports: a fill that the execution engine refuses (for instance
  the second report of a trade, once in the order response and once on the user stream, of an order that is
  already filled) leaves the engine's orders as they are but moves the node's position by its whole quantity.\<close>

theorem refused_fill_is_booked:
  assumes "fill_of ev = Some e" and "\<not> is_ok (fst (process_event ev (nd_execution n)))"
    and "live_gateway env ev n = Some n'" and "in_i64 (pb_position_qty (nd_pnl n))"
  shows "nd_execution n' = nd_execution n \<and>
    pb_position_qty (nd_pnl n') = wrap_i64 (pb_position_qty (nd_pnl n) + fill_signed e)"
proof -
  have same: "live_execute ev n = n"
  proof -
    obtain r en where pe: "process_event ev (nd_execution n) = (r, en)" by fastforce
    with process_event_cases [OF pe] assms(2) show ?thesis by (auto simp: live_execute_def)
  qed
  obtain n1 where st: "live_strategy ev (snd (append_node env ev n)) = Some n1"
    and ans: "live_answer env ev (hotpath_fill env ev n1) = Some n'"
    using assms(3) by (auto simp: live_gateway_def option_bind_Some_iff same)
  have core: "node_core (hotpath_fill env ev n1) = node_core n" using st by simp
  have "live_fill env e (hotpath_fill env ev n1) = Some n'"
    using ans assms(1) by (cases "ev_payload ev") (auto simp: live_answer_def fill_of_def)
  then obtain b r where br: "book_and_report (qty_divisor env) e (nd_pnl n) (on_order_closed (nd_risk n)) = Some (b, r)"
    and eq: "\<exists>n2. n' = reseed env n2 \<and> nd_pnl n2 = b \<and> nd_execution n2 = nd_execution n"
    using core by (fastforce simp: live_fill_def node_core_def elim!: option_Some_E)
  then have n': "nd_pnl n' = b" "nd_execution n' = nd_execution n" using reseed_calls by metis+
  from report_syncs(2) [OF br] obtain b1 where "book_fill (qty_divisor env) e (nd_pnl n) = Some b1"
    "pb_position_qty b = pb_position_qty b1" by blast
  with book_fill_position assms(4) n' show ?thesis by (metis wrap_i64_id)
qed

definition ex_filled :: live_order where
  "ex_filled = (live_order_new ''a'' ex_sym Buy Limit 100 5 GoodTilCancel Simulated 0)\<lparr>lo_state := Filled,
     lo_filled_qty := 5, lo_remaining_qty := 0\<rparr>"

lemma refused_fill_is_booked_witness:
  "\<exists>n'. live_gateway (ex_env True) (ex_event 3 (ex_fill ''a'' 5))
      (ex_node\<lparr>nd_execution := engine_new\<lparr>ee_orders := [(''a'', ex_filled)]\<rparr>,
               nd_pnl := pnl_new\<lparr>pb_position_qty := 5\<rparr>\<rparr>) = Some n' \<and>
    ee_orders (nd_execution n') = [(''a'', ex_filled)] \<and> pb_position_qty (nd_pnl n') = 10"
proof -
  let ?ev = "ex_event 3 (ex_fill ''a'' 5)"
  let ?n = "ex_node\<lparr>nd_execution := engine_new\<lparr>ee_orders := [(''a'', ex_filled)]\<rparr>,
    nd_pnl := pnl_new\<lparr>pb_position_qty := 5\<rparr>\<rparr>"
  obtain e where e: "fill_of ?ev = Some e" "fe_side e = Buy" "fe_qty e = 5" "fe_price e = 100"
    by (simp add: fill_of_def ex_event_def ex_fill_def)
  have no: "process_event ?ev (nd_execution ?n) = (Inl ''invalid transition: Filled -> Filled'', nd_execution ?n)"
    by (simp add: process_event_def ex_event_def ex_fill_def and_ok_def on_fill_def hm_get_def ex_filled_def
        live_order_new_def Let_def)
  have "quote_value 100000000 100 5 = Some 0"
    by (simp add: quote_value_def i64_div_def i64_mul_exact in_i64_def signed_divide_int_def)
  moreover have "qty_divisor (ex_env True) = 100000000"
    by (simp add: qty_divisor_def ex_env_def node_config_default_def in_i64_def)
  moreover have "u64_as_i64 5 = 5" by (simp add: u64_as_i64_def)
  ultimately have "book_fill (qty_divisor (ex_env True)) e (nd_pnl ?n) \<noteq> None"
    using e by (simp add: book_fill_def book_buy_def pnl_new_def)
  then have "book_and_report (qty_divisor (ex_env True)) e (nd_pnl ?n) r \<noteq> None" for r
    by (simp add: book_and_report_def)
  then have "live_fill (ex_env True) e m \<noteq> None" if "nd_pnl m = nd_pnl ?n" for m
    using that by (simp add: live_fill_def)
  moreover have "live_execute ?ev ?n = ?n" using no by (simp add: live_execute_def)
  moreover have "live_strategy ?ev m = Some m" if "nd_strategy m = strategy_engine_new" for m :: "unit node"
    using that by (simp add: live_strategy_def engine_process_def strategy_engine_new_def)
  moreover have "nd_strategy (snd (append_node (ex_env True) ?ev ?n)) = strategy_engine_new"
    "nd_pnl (hotpath_fill (ex_env True) ?ev (snd (append_node (ex_env True) ?ev ?n))) = nd_pnl ?n"
    by (simp_all add: append_node_def hotpath_fill_def e(1) ex_node_def split: prod.split)
  moreover have "live_answer (ex_env True) ?ev m = live_fill (ex_env True) e m" for m
    using e(1) by (auto simp: live_answer_def fill_of_def ex_event_def ex_fill_def)
  ultimately obtain n' where run: "live_gateway (ex_env True) ?ev ?n = Some n'"
    by (fastforce simp: live_gateway_def)
  have "in_i64 (pb_position_qty (nd_pnl ?n))" by (simp add: in_i64_def)
  from refused_fill_is_booked [OF e(1) _ run this] run no e show ?thesis
    by (simp add: fill_signed_def signed_qty_def in_i64_def)
qed

end
