(* ===== verification/Node_Start.thy ===== *)
theory Node_Start
  imports Node_Live Event_Log
begin

section \<open>atomic-node: start-up, recovery and replay (main.rs)\<close>

text \<open>
  What \<open>main\<close> does before the live loop: plan the recovery, restore the snapshot, replay the
  log through the deduplicator, register the market makers, clear and seed the exchange; and the
  replay mode. Connecting to peers, feeds and the dashboard is left out.
\<close>

subsection \<open>Recovery\<close>

text \<open>Without a readable snapshot or log the node starts cold.\<close>

definition cold_plan :: recovery_plan where
  "cold_plan = \<lparr>pl_snapshot = None, pl_events_to_replay = [], pl_need_peer_sync = False,
     pl_sync_from_seq = 0, pl_expected_next_seq = 1\<rparr>"

definition startup_plan ::
  "(u8 list \<Rightarrow> string + engine_snapshot) \<Rightarrow> 'h node_env \<Rightarrow> files \<Rightarrow> recovery_plan" where
  "startup_plan sdec env fs = (case plan_recovery sdec (nv_dec env) (nv_xxh3 env) (nv_recovery env) fs of
     Inl _ \<Rightarrow> cold_plan | Inr p \<Rightarrow> p)"

text \<open>The engine, the strategies (none is registered yet), the verifier and the event counter.\<close>

record recovered =
  rv_execution :: execution_engine
  rv_strategy :: "market_maker strategy_engine"
  rv_verifier :: state_verifier
  rv_total_events :: u64

definition recovered_new :: "u64 \<Rightarrow> recovered" where
  "recovered_new interval = \<lparr>rv_execution = engine_new, rv_strategy = strategy_engine_new,
     rv_verifier = verifier_new interval, rv_total_events = 0\<rparr>"

definition restore_snapshot ::
  "(u8 list \<Rightarrow> string + engine_state) \<Rightarrow> (u8 list \<Rightarrow> u64) \<Rightarrow> engine_snapshot option \<Rightarrow> recovered \<Rightarrow> (recovered, string) result" where
  "restore_snapshot deser xxh3 snapshot r = (case snapshot of
     None \<Rightarrow> Inr r
   | Some snap \<Rightarrow> (case restore deser xxh3 snap (rv_execution r) of
       (Inl e, _) \<Rightarrow> Inl e
     | (Inr _, en) \<Rightarrow> Inr (r\<lparr>rv_execution := en,
         rv_verifier := on_verified (sn_seq snap) (sn_state_hash snap) (rv_verifier r)\<rparr>)))"

definition process_recovered :: "(execution_engine \<Rightarrow> u8 list) \<Rightarrow> event \<Rightarrow> recovered \<Rightarrow> recovered option" where
  "process_recovered hash ev r =
     (let en = snd (process_event ev (rv_execution r)); (due, v) = verifier_tick (rv_verifier r)
      in map_option (\<lambda>(_, sy). r\<lparr>rv_execution := en, rv_strategy := sy, rv_total_events := rv_total_events r + 1,
           rv_verifier := (if due then on_verified (ev_seq ev) (hash en) v else v)\<rparr>)
         (engine_process mm_on_event ev (rv_strategy r)))"

fun replay_recovered ::
  "(execution_engine \<Rightarrow> u8 list) \<Rightarrow> event list \<Rightarrow> event_deduplicator \<Rightarrow> recovered \<Rightarrow> recovered option" where
  "replay_recovered hash [] d r = Some r"
| "replay_recovered hash (ev # evs) d r =
     (let (fresh, d) = dedup_check d (ev_seq ev)
      in if fresh then do { r \<leftarrow> process_recovered hash ev r; replay_recovered hash evs d r }
         else replay_recovered hash evs d r)"

text \<open>\<^term>\<open>Some (Inl e)\<close>: the snapshot does not restore and the process exits.\<close>

definition recover ::
  "(u8 list \<Rightarrow> string + engine_state) \<Rightarrow> (u8 list \<Rightarrow> u64) \<Rightarrow> (execution_engine \<Rightarrow> u8 list) \<Rightarrow> u64 \<Rightarrow> recovery_plan
    \<Rightarrow> (recovered, string) result option" where
  "recover deser xxh3 hash interval plan = (case restore_snapshot deser xxh3 (pl_snapshot plan) (recovered_new interval) of
     Inl e \<Rightarrow> Some (Inl e)
   | Inr r \<Rightarrow> map_option Inr (replay_recovered hash (pl_events_to_replay plan)
       (dedup_from_seq (case pl_snapshot plan of None \<Rightarrow> 0 | Some s \<Rightarrow> sn_seq s)) r))"

subsection \<open>Replay mode\<close>

definition replay_one :: "(execution_engine \<Rightarrow> u8 list) \<Rightarrow> event \<Rightarrow> recovered \<times> pipeline_metrics \<Rightarrow> (recovered \<times> pipeline_metrics) option" where
  "replay_one hash ev rm = (case rm of (r, m) \<Rightarrow>
     map_option (\<lambda>r. (r, let m = m\<lparr>pm_total_events := pm_total_events m + 1\<rparr> in
         case ev_payload ev of
           OrderNew _ \<Rightarrow> m\<lparr>pm_total_orders := pm_total_orders m + 1\<rparr>
         | OrderFill _ \<Rightarrow> m\<lparr>pm_total_fills := pm_total_fills m + 1\<rparr>
         | OrderPartialFill _ \<Rightarrow> m\<lparr>pm_total_fills := pm_total_fills m + 1\<rparr>
         | OrderReject _ \<Rightarrow> m\<lparr>pm_total_rejects := pm_total_rejects m + 1\<rparr>
         | _ \<Rightarrow> m))
       (process_recovered hash ev r))"

text \<open>The loop over the player ends because every call of \<open>next\<close> advances it; the fuel is the number of
  its events and one for the last call.\<close>

fun replay_loop ::
  "(execution_engine \<Rightarrow> u8 list) \<Rightarrow> nat \<Rightarrow> replay_player \<Rightarrow> recovered \<times> pipeline_metrics \<Rightarrow> (recovered \<times> pipeline_metrics) option" where
  "replay_loop hash 0 p rm = None"
| "replay_loop hash (Suc fuel) p rm = (case player_next p of
     (None, _) \<Rightarrow> Some rm
   | (Some ev, p) \<Rightarrow> do { rm \<leftarrow> replay_one hash ev rm; replay_loop hash fuel p rm })"

definition run_replay ::
  "(u8 list \<Rightarrow> string + event) \<Rightarrow> (execution_engine \<Rightarrow> u8 list) \<Rightarrow> files \<Rightarrow> string \<Rightarrow> recovered \<times> pipeline_metrics
    \<Rightarrow> (recovered \<times> pipeline_metrics, io_error) result option" where
  "run_replay dec hash fs path rm = (case player_from_file dec fs path of
     Inl e \<Rightarrow> Some (Inl e)
   | Inr p \<Rightarrow> map_option Inr (replay_loop hash (Suc (length (rp_events p))) p rm))"

subsection \<open>The live node at its start\<close>

definition maker_id :: "venue \<Rightarrow> string \<Rightarrow> string" where
  "maker_id v s = ''mm_'' @ show_venue v @ ''_'' @ s"

definition register_makers :: "node_config \<Rightarrow> market_maker strategy_engine \<Rightarrow> market_maker strategy_engine" where
  "register_makers c = fold (\<lambda>f. fold (\<lambda>s. register
     (market_maker_new (maker_id (fc_venue f) s) (registered_symbol s (fc_venue f)) (fc_venue f)
       (stc_order_qty (nc_strategy c)) (u64_as_i64 (stc_max_inventory (nc_strategy c)))
       (stc_half_spread_pipettes (nc_strategy c)) (stc_gamma (nc_strategy c)))) (fc_symbols f)) (nc_feeds c)"

definition node_id_bytes :: "string \<Rightarrow> node_id" where
  "node_id_bytes s = (let bytes = take 32 s in map of_char bytes @ replicate (32 - length bytes) 0)"

definition clear_exchange :: "'h node_env \<Rightarrow> 'h node \<Rightarrow> 'h node" where
  "clear_exchange env n =
     (if nv_gateway env
      then (let n = fold (\<lambda>f. fold (\<lambda>s. call_gateway (Gw_CancelAll s)) (fc_symbols f)) (nc_feeds (nv_config env)) n
        in if is_testnet (nc_gateway (nv_config env))
           then call_gateway (Gw_Submit ''seed-buy-1'' (live_symbol env) Buy Market 0 100000 GoodTilCancel 0 0) n
           else n)
      else n)"

definition request_sync :: "recovery_plan \<Rightarrow> 'h node \<Rightarrow> 'h node" where
  "request_sync plan n =
     (if pl_need_peer_sync plan then send_mesh (SyncRequest (pl_sync_from_seq plan) (pl_expected_next_seq plan)) n else n)"

definition start_node :: "'h node_env \<Rightarrow> 'h \<Rightarrow> files \<Rightarrow> recovery_plan \<Rightarrow> recovered \<Rightarrow> dashboard_state \<Rightarrow> 'h node" where
  "start_node env h fs plan r d =
     (let (l, fs) = log_open (nc_event_log_path (nv_config env)) fs;
          n = \<lparr>nd_execution = rv_execution r, nd_strategy = register_makers (nv_config env) (rv_strategy r),
            nd_risk = risk_new (nc_risk (nv_config env)), nd_verifier = rv_verifier r, nd_event_log = l, nd_files = fs,
            nd_router = router_new, nd_hotpath = h,
            nd_metrics = pipeline_metrics_new\<lparr>pm_total_events := rv_total_events r\<rparr>, nd_books = [],
            nd_pnl = pnl_new, nd_last_seq = pl_expected_next_seq plan, nd_last_mid_price = 0, nd_last_reset_day = 0,
            nd_dashboard = d, nd_clock_reads = 0, nd_gateway_calls = [], nd_mesh_sent = []\<rparr>;
          n = request_sync plan (clear_exchange env n);
          (now, n) = read_clock env n
      in n\<lparr>nd_last_reset_day := now div 86400000000000\<rparr>)"

subsection \<open>What recovery and replay run\<close>

lemma no_strategies: "sy_strategies sy = [] \<Longrightarrow> engine_process mm_on_event ev sy = Some ([], sy)"
  by (simp add: engine_process_def)

lemma process_recovered_runs:
  assumes "sy_strategies (rv_strategy r) = []"
  shows "\<exists>r'. process_recovered hash ev r = Some r' \<and> rv_strategy r' = rv_strategy r \<and>
    rv_execution r' = snd (process_event ev (rv_execution r)) \<and> rv_total_events r' = rv_total_events r + 1"
  by (simp add: process_recovered_def no_strategies [OF assms] Let_def split: prod.split)

text \<open>The first event of every sequence number.\<close>

fun firsts :: "u64 set \<Rightarrow> event list \<Rightarrow> event list" where
  "firsts seen [] = []"
| "firsts seen (ev # evs) = (if ev_seq ev \<in> seen then firsts seen evs else ev # firsts (insert (ev_seq ev) seen) evs)"

lemma replay_recovered_firsts:
  assumes "dedup_inv prior k d" and "k + length evs \<le> 100000" and "sy_strategies (rv_strategy r) = []"
  shows "\<exists>r'. replay_recovered hash evs d r = Some r' \<and> sy_strategies (rv_strategy r') = [] \<and>
    rv_execution r' = run_events (firsts prior evs) (rv_execution r) \<and>
    rv_total_events r' = rv_total_events r + of_nat (length (firsts prior evs))"
  using assms
proof (induction evs arbitrary: prior k d r)
  case (Cons ev evs)
  obtain fresh d' where chk: "dedup_check d (ev_seq ev) = (fresh, d')" by fastforce
  note step = dedup_check_inv [OF Cons.prems(1) chk]
  have fresh: "fresh \<longleftrightarrow> ev_seq ev \<notin> prior" using step Cons.prems(2) by auto
  have inv: "dedup_inv (insert (ev_seq ev) prior) (Suc k) d'" using step by blast
  show ?case
  proof (cases fresh)
    case True
    obtain r1 where r1: "process_recovered hash ev r = Some r1" "rv_strategy r1 = rv_strategy r"
        "rv_execution r1 = snd (process_event ev (rv_execution r))" "rv_total_events r1 = rv_total_events r + 1"
      using process_recovered_runs [OF Cons.prems(3)] by blast
    with Cons.IH [OF inv, of r1] Cons.prems(2,3) chk True fresh show ?thesis
      by (auto simp: snd_run_ops_Cons simp del: run_ops.simps(2))
  next
    case False
    then have "insert (ev_seq ev) prior = prior" using fresh by auto
    with Cons.IH [OF inv, of r] Cons.prems(2,3) chk False fresh show ?thesis by auto
  qed
qed simp

lemma replay_one_runs:
  assumes "sy_strategies (rv_strategy r) = []"
  shows "\<exists>r' m'. replay_one hash ev (r, m) = Some (r', m') \<and> rv_strategy r' = rv_strategy r \<and>
    rv_execution r' = snd (process_event ev (rv_execution r)) \<and> pm_total_events m' = pm_total_events m + 1"
proof -
  obtain r1 where "process_recovered hash ev r = Some r1" "rv_strategy r1 = rv_strategy r"
    "rv_execution r1 = snd (process_event ev (rv_execution r))"
    using process_recovered_runs [OF assms] by blast
  then show ?thesis by (cases "ev_payload ev") (simp_all add: replay_one_def Let_def)
qed

lemma replay_loop_runs:
  assumes "length (rp_events p) < 2 ^ 64" and "unat (rp_index p) \<le> length (rp_events p)"
    and "length (rp_events p) - unat (rp_index p) < n" and "sy_strategies (rv_strategy r) = []"
  shows "\<exists>r' m'. replay_loop hash n p (r, m) = Some (r', m') \<and>
    rv_execution r' = run_events (drop (unat (rp_index p)) (rp_events p)) (rv_execution r) \<and>
    pm_total_events m' = pm_total_events m + of_nat (length (rp_events p) - unat (rp_index p))"
  using assms
proof (induction n arbitrary: p r m)
  case (Suc n)
  show ?case
  proof (cases "unat (rp_index p) < length (rp_events p)")
    case True
    let ?ev = "rp_events p ! unat (rp_index p)" and ?p = "p\<lparr>rp_index := rp_index p + 1\<rparr>"
    have i: "unat (rp_index p + 1) = Suc (unat (rp_index p))"
      using True Suc.prems(1) by (simp add: unat_word_ariths)
    obtain r1 m1 where one: "replay_one hash ?ev (r, m) = Some (r1, m1)" "rv_strategy r1 = rv_strategy r"
      "rv_execution r1 = snd (process_event ?ev (rv_execution r))" "pm_total_events m1 = pm_total_events m + 1"
      using replay_one_runs [OF Suc.prems(4)] by blast
    have d: "drop (unat (rp_index p)) (rp_events p) = ?ev # drop (Suc (unat (rp_index p))) (rp_events p)"
      using True by (simp add: Cons_nth_drop_Suc)
    have l: "length (rp_events p) - unat (rp_index p) = Suc (length (rp_events p) - Suc (unat (rp_index p)))"
      using True by simp
    from Suc.IH [of ?p r1 m1] Suc.prems True one i show ?thesis
      by (auto simp: player_next_def d l snd_run_ops_Cons simp del: run_ops.simps(2))
  qed (use Suc.prems in \<open>auto simp: player_next_def\<close>)
qed simp

lemma run_replay_runs:
  assumes "codec_for enc dec evs" and "fs path = Some (frames enc evs)" and "length evs < 2 ^ 64"
    and "sy_strategies (rv_strategy r) = []"
  shows "\<exists>r' m'. run_replay dec hash fs path (r, m) = Some (Inr (r', m')) \<and>
    rv_execution r' = run_events evs (rv_execution r) \<and>
    pm_total_events m' = pm_total_events m + of_nat (length evs)"
proof -
  have "read_frames dec (frames enc evs) = Inr evs"
    using read_frames_all [OF assms(1), of "[]"] read_frames_short [of "[]"] by simp
  then have p: "player_from_file dec fs path = Inr \<lparr>rp_log = log_read_only path, rp_index = 0, rp_events = evs, rp_speed = Maximum\<rparr>"
    using assms(2) by (simp add: player_from_file_def log_read_all_def log_read_only_def)
  from replay_loop_runs [of "\<lparr>rp_log = log_read_only path, rp_index = 0, rp_events = evs, rp_speed = Maximum\<rparr>" "Suc (length evs)" r hash m]
    assms(3,4) show ?thesis by (auto simp: run_replay_def p)
qed

subsection \<open>Properties\<close>

text \<open>C38: Recovery is total and replays, on top of the restored snapshot, the first logged event of every sequence
  number, in order, and drops every later event that repeats a number.\<close>

theorem recovery_replays_firsts:
  assumes "restore_snapshot deser xxh3 (pl_snapshot plan) (recovered_new interval) = Inr r0"
    and "length (pl_events_to_replay plan) \<le> 100000"
  shows "\<exists>r. recover deser xxh3 hash interval plan = Some (Inr r) \<and>
    rv_execution r = run_events (firsts {} (pl_events_to_replay plan)) (rv_execution r0) \<and>
    rv_total_events r = of_nat (length (firsts {} (pl_events_to_replay plan)))"
proof -
  have "sy_strategies (rv_strategy r0) = []" "rv_total_events r0 = 0"
    using assms(1) by (auto simp: restore_snapshot_def recovered_new_def strategy_engine_new_def
        split: option.splits prod.splits sum.splits)
  moreover have "dedup_inv {} 0 (dedup_from_seq s)" for s by (simp add: dedup_inv_def dedup_from_seq_def)
  ultimately show ?thesis
    using replay_recovered_firsts [of "{}" 0 _ "pl_events_to_replay plan" r0 hash] assms
    by (fastforce simp: recover_def)
qed

lemma recovery_replays_firsts_witness:
  "\<exists>r. recover (\<lambda>_. Inl ''none'') (\<lambda>_. 7) (\<lambda>_. []) 10
      (cold_plan\<lparr>pl_events_to_replay := [ex_event 5 (ex_new ''a'' 5), ex_event 5 (ex_ack ''a'')]\<rparr>) = Some (Inr r) \<and>
    map_option lo_state (get_order ''a'' (rv_execution r)) = Some New"
proof -
  let ?plan = "cold_plan\<lparr>pl_events_to_replay := [ex_event 5 (ex_new ''a'' 5), ex_event 5 (ex_ack ''a'')]\<rparr>"
  have "restore_snapshot (\<lambda>_. Inl ''none'') (\<lambda>_. 7) (pl_snapshot ?plan) (recovered_new 10) = Inr (recovered_new 10)"
    by (simp add: restore_snapshot_def cold_plan_def)
  from recovery_replays_firsts [OF this] show ?thesis
    by (fastforce simp: ex_event_def ex_new_def recovered_new_def process_event_def and_ok_def register_order_def
        engine_new_def hm_get_def hm_insert_def get_order_def live_order_new_def)
qed

text \<open>C39: Replay terminates: on a log of fewer than \<open>2^64\<close> encoded events the loop reaches the end with the fuel
  given, has run exactly the logged events through the engine, and has counted each of them.\<close>

theorem run_replay_terminates:
  assumes "codec_for enc dec evs" and "fs path = Some (frames enc evs)" and "length evs < 2 ^ 64"
    and "sy_strategies (rv_strategy r) = []"
  shows "\<exists>r' m'. run_replay dec hash fs path (r, m) = Some (Inr (r', m')) \<and>
    rv_execution r' = run_events evs (rv_execution r) \<and>
    pm_total_events m' = pm_total_events m + of_nat (length evs)"
  using assms by (rule run_replay_runs)

lemma run_replay_terminates_witness:
  "\<exists>r' m'. run_replay ex_dec (\<lambda>_. []) (\<lambda>_. Some (frames ex_enc [ex_event 1 (ex_ack ''a'')])) ''log''
      (recovered_new 10, pipeline_metrics_new) = Some (Inr (r', m')) \<and> pm_total_events m' = 1"
proof -
  have "codec_for ex_enc ex_dec [ex_event 1 (ex_ack ''a'')]"
    by (simp add: codec_for_def ex_enc_def ex_dec_def ex_event_def)
  from run_replay_terminates [OF this, of "\<lambda>_. Some (frames ex_enc [ex_event 1 (ex_ack ''a'')])" "''log''" "recovered_new 10"
      "\<lambda>_. []" pipeline_metrics_new]
  show ?thesis by (auto simp: recovered_new_def strategy_engine_new_def pipeline_metrics_new_def)
qed

end
