(* ===== verification/Rust_Text.thy ===== *)
theory Rust_Text
  imports Rust_Float Core_Types "HOL-Library.Sublist"
begin

section \<open>Numbers as text: \<open>{:.prec$}\<close> and \<open>str::parse::<f64>\<close>\<close>

text \<open>
  What the standard library does with the texts the exchange sends and receives.
  \<open>fixed_text x d\<close> is \<open>format!("{:.d$}", x)\<close>: the exact value of the float, rounded to
  \<open>d\<close> decimals. \<open>parse_f64\<close> reads the decimal grammar of \<open>f64::from_str\<close> (sign, digits
  with an optional point, exponent) and rounds the exact value. The words \<open>inf\<close>,
  \<open>infinity\<close> and \<open>nan\<close>, which the grammar also has, denote no value of the model's
  \<open>f64\<close> and are read as errors; a JSON price is never one of them.
\<close>

definition is_digit :: "char \<Rightarrow> bool" where
  "is_digit c \<longleftrightarrow> CHR ''0'' \<le> c \<and> c \<le> CHR ''9''"

subsection \<open>Printing\<close>

definition fixed_digits :: "nat \<Rightarrow> nat \<Rightarrow> string" where
  "fixed_digits n d =
     (let ds = show_nat n;
          padded = replicate (Suc d - length ds) (CHR ''0'') @ ds;
          whole = length padded - d
      in take whole padded @ (if d = 0 then [] else CHR ''.'' # drop whole padded))"

definition fixed_text :: "f64 \<Rightarrow> nat \<Rightarrow> string" where
  "fixed_text x d = (if x < 0 then ''-'' else []) @ fixed_digits (nat (round_half_even (\<bar>x\<bar> * 10 ^ d))) d"

subsection \<open>Parsing\<close>

definition read_sign :: "string \<Rightarrow> bool \<times> string" where
  "read_sign s = (case s of c # r \<Rightarrow>
     if c = CHR ''-'' then (True, r) else if c = CHR ''+'' then (False, r) else (False, s) | [] \<Rightarrow> (False, s))"

definition read_exponent :: "string \<Rightarrow> int option" where
  "read_exponent s = (let (neg, ds) = read_sign s in
     if ds = [] \<or> \<not> list_all is_digit ds then None
     else Some (if neg then - int (read_nat ds) else int (read_nat ds)))"

definition read_decimal :: "string \<Rightarrow> rat option" where
  "read_decimal s =
     (let ip = takeWhile is_digit s;
          r = dropWhile is_digit s;
          (fp, rest) = (case r of
              c # r' \<Rightarrow> if c = CHR ''.'' then (takeWhile is_digit r', dropWhile is_digit r') else ([], r)
            | [] \<Rightarrow> ([], r));
          m = of_nat (read_nat (ip @ fp)) / 10 ^ length fp
      in if ip @ fp = [] then None
         else (case rest of
             [] \<Rightarrow> Some m
           | c # e \<Rightarrow> if c = CHR ''e'' \<or> c = CHR ''E'' then map_option (\<lambda>k. m * 10 powi k) (read_exponent e)
               else None))"

definition decimal_value :: "string \<Rightarrow> rat option" where
  "decimal_value s = (let (neg, r) = read_sign s in
     map_option (\<lambda>m. if neg then - m else m) (read_decimal r))"

definition parse_f64 :: "string \<Rightarrow> f64 option" where
  "parse_f64 s = map_option f64_rnd (decimal_value s)"

lemma parse_examples:
  "decimal_value ''43250.10'' = Some (4325010 / 100)"
  "decimal_value ''-.5'' = Some (- (5 / 10))"
  "decimal_value ''2e3'' = Some 2000"
  "decimal_value '''' = None" "decimal_value ''.'' = None" "decimal_value ''1e'' = None" "decimal_value ''1x'' = None"
  by (simp_all add: decimal_value_def read_decimal_def read_exponent_def read_sign_def read_nat_def digit_val_def
      is_digit_def less_eq_char_def)

subsection \<open>Reading back what was printed\<close>

lemma is_digit_digit [simp]: "n < 10 \<Longrightarrow> is_digit (digit n)"
proof -
  assume "n < 10"
  then have "n \<in> {0, 1, 2, 3, 4, 5, 6, 7, 8, 9}" by auto
  then show ?thesis by (auto simp: is_digit_def digit_def less_eq_char_def)
qed

lemma digit_0 [simp]: "is_digit (CHR ''0'')"
  by (simp add: is_digit_def less_eq_char_def)

lemma show_nat_digits: "list_all is_digit (show_nat n) \<and> show_nat n \<noteq> []"
proof (induction n rule: show_nat.induct)
  case (1 n)
  then show ?case by (subst (1 2) show_nat.simps) auto
qed

lemma read_nat_zeros [simp]: "read_nat (replicate k (CHR ''0'') @ s) = read_nat s"
  by (induction k) (simp_all add: read_nat_def digit_val_def)

lemma takeWhile_digits: "list_all is_digit s \<Longrightarrow> takeWhile is_digit (s @ r) = s @ takeWhile is_digit r"
  and dropWhile_digits: "list_all is_digit s \<Longrightarrow> dropWhile is_digit (s @ r) = dropWhile is_digit r"
  by (induction s) auto

lemma read_fixed_digits: "read_decimal (fixed_digits n d) = Some (of_nat n / 10 ^ d)"
proof -
  define ds where "ds = replicate (Suc d - length (show_nat n)) (CHR ''0'') @ show_nat n"
  define w where "w = length ds - d"
  have dig: "list_all is_digit ds"
    using show_nat_digits [of n] digit_0 by (auto simp: ds_def list_all_iff)
  then have parts: "list_all is_digit (take w ds)" "list_all is_digit (drop w ds)"
    unfolding list_all_iff using set_take_subset [of w ds] set_drop_subset [of w ds] by blast+
  have len: "length (drop w ds) = d" "take w ds \<noteq> []"
    by (auto simp: w_def ds_def)
  have val: "read_nat (take w ds @ drop w ds) = n"
    unfolding append_take_drop_id by (simp add: ds_def)
  have point: "\<not> is_digit (CHR ''.'')" by (simp add: is_digit_def less_eq_char_def)
  have eq: "fixed_digits n d = take w ds @ (if d = 0 then [] else CHR ''.'' # drop w ds)"
    by (simp add: fixed_digits_def Let_def ds_def w_def)
  have tw: "takeWhile is_digit (drop w ds) = drop w ds" "dropWhile is_digit (drop w ds) = []"
    using parts(2) by (simp_all only: takeWhile_eq_all_conv dropWhile_eq_Nil_conv list_all_iff)
  have nil: "d = 0 \<Longrightarrow> drop w ds = []" using len(1) by simp
  have lead: "takeWhile is_digit (take w ds @ r) = take w ds @ takeWhile is_digit r"
    "dropWhile is_digit (take w ds @ r) = dropWhile is_digit r" for r
    by (rule takeWhile_digits [OF parts(1)] dropWhile_digits [OF parts(1)])+
  show ?thesis
  proof (cases "d = 0")
    case True
    have "take w ds = ds" using nil [OF True] append_take_drop_id [of w ds] by (metis append_Nil2)
    then have "fixed_digits n d = ds" "takeWhile is_digit ds = ds" "dropWhile is_digit ds = []" "read_nat ds = n"
      using eq True lead [of "[]"] val by simp_all
    then show ?thesis using True len(2)
      by (simp add: read_decimal_def Let_def del: takeWhile_eq_all_conv dropWhile_eq_Nil_conv)
  next
    case False
    then show ?thesis using lead val len(1) tw point len(2)
      by (simp add: eq read_decimal_def Let_def del: append_take_drop_id length_drop takeWhile_eq_all_conv dropWhile_eq_Nil_conv)
  qed
qed

lemma read_sign_fixed: "read_sign (fixed_digits n d) = (False, fixed_digits n d)"
proof -
  obtain c r where cr: "fixed_digits n d = c # r" "is_digit c"
  proof -
    define ds where "ds = replicate (Suc d - length (show_nat n)) (CHR ''0'') @ show_nat n"
    have "ds \<noteq> []" "list_all is_digit ds" "0 < length ds - d"
      using show_nat_digits [of n] by (auto simp: ds_def list_all_iff)
    moreover have "fixed_digits n d = take (length ds - d) ds @ (if d = 0 then [] else CHR ''.'' # drop (length ds - d) ds)"
      by (simp only: fixed_digits_def Let_def ds_def)
    ultimately show thesis using that by (cases ds) (auto simp: take_Cons')
  qed
  then have "c \<noteq> CHR ''-''" "c \<noteq> CHR ''+''" by (auto simp: is_digit_def less_eq_char_def)
  then show ?thesis using cr by (simp add: read_sign_def)
qed

text \<open>A float within half a unit of a decimal prints as that decimal.\<close>

lemma round_half_even_eq:
  assumes "\<bar>x - of_int n\<bar> < 1 / 2"
  shows "round_half_even x = n"
proof -
  have "\<bar>of_int (round_half_even x) - (of_int n :: rat)\<bar> < 1"
    using round_half_even_error [of x] assms by linarith
  then have "\<bar>of_int (round_half_even x - n) :: rat\<bar> < of_int 1" by simp
  then show ?thesis unfolding of_int_abs [symmetric] of_int_less_iff by simp
qed

lemma decimal_value_fixed:
  assumes "\<bar>x * 10 ^ d - of_int n\<bar> < 1 / 2" and "(x < 0) = (n < 0)"
  shows "decimal_value (fixed_text x d) = Some (of_int n / 10 ^ d)"
proof -
  have "\<bar>\<bar>x\<bar> * 10 ^ d - of_int \<bar>n\<bar>\<bar> < 1 / 2"
    using assms by (cases "n < 0") (simp_all add: abs_minus_commute)
  then have "round_half_even (\<bar>x\<bar> * 10 ^ d) = \<bar>n\<bar>" by (rule round_half_even_eq)
  moreover have "of_nat (nat \<bar>n\<bar>) = (of_int \<bar>n\<bar> :: rat)" by simp
  ultimately show ?thesis
    using assms(2) read_fixed_digits [of "nat \<bar>n\<bar>" d] read_sign_fixed [of "nat \<bar>n\<bar>" d]
    by (cases "n < 0") (simp_all add: decimal_value_def fixed_text_def read_sign_def)
qed

end
