(* ===== verification/Json.thy ===== *)
theory Json
  imports Rust_Text Rust_Int
begin

section \<open>JSON values of the exchange messages\<close>

text \<open>
  The type of \<open>serde_json::Value\<close> with its constructors as documented (a number is a \<open>u64\<close>, a
  negative \<open>i64\<close> or a float; an object has one value per key) and the accessors the code uses:
  \<open>get\<close> with a key or an index, \<open>as_str\<close>, \<open>as_u64\<close>, \<open>as_bool\<close>,
  \<open>as_array\<close>. Each is \<^term>\<open>None\<close> on a value of another kind. The parser itself,
  \<open>serde_json::from_str\<close>, is the library's: the operations that call it take it as an argument.
\<close>

datatype json_number = Pos_Int u64 | Neg_Int i64 | Json_Float f64

datatype json =
    J_Null
  | J_Bool bool
  | J_Number json_number
  | J_String string
  | J_Array "json list"
  | J_Object "(string \<times> json) list"

definition j_get :: "string \<Rightarrow> json \<Rightarrow> json option" where
  "j_get k v = (case v of J_Object kvs \<Rightarrow> map_of kvs k | _ \<Rightarrow> None)"

definition j_index :: "nat \<Rightarrow> json \<Rightarrow> json option" where
  "j_index i v = (case v of J_Array vs \<Rightarrow> if i < length vs then Some (vs ! i) else None | _ \<Rightarrow> None)"

definition as_str :: "json \<Rightarrow> string option" where
  "as_str v = (case v of J_String s \<Rightarrow> Some s | _ \<Rightarrow> None)"

definition as_u64 :: "json \<Rightarrow> u64 option" where
  "as_u64 v = (case v of J_Number (Pos_Int n) \<Rightarrow> Some n | _ \<Rightarrow> None)"

definition as_bool :: "json \<Rightarrow> bool option" where
  "as_bool v = (case v of J_Bool b \<Rightarrow> Some b | _ \<Rightarrow> None)"

definition as_array :: "json \<Rightarrow> json list option" where
  "as_array v = (case v of J_Array vs \<Rightarrow> Some vs | _ \<Rightarrow> None)"

lemmas json_defs = j_get_def j_index_def as_str_def as_u64_def as_bool_def as_array_def

text \<open>\<open>v.get(k)?.as_str()?\<close>, and the same followed by \<open>.parse().ok()?\<close>.\<close>

definition str_at :: "string \<Rightarrow> json \<Rightarrow> string option" where
  "str_at k v = Option.bind (j_get k v) as_str"

definition f64_at :: "string \<Rightarrow> json \<Rightarrow> f64 option" where
  "f64_at k v = Option.bind (str_at k v) parse_f64"

text \<open>\<open>unwrap_or(d)\<close>\<close>

definition unwrap_or :: "'a \<Rightarrow> 'a option \<Rightarrow> 'a" where
  "unwrap_or d x = (case x of None \<Rightarrow> d | Some y \<Rightarrow> y)"

lemma unwrap_or_simps [simp]: "unwrap_or d None = d" "unwrap_or d (Some x) = x"
  by (simp_all add: unwrap_or_def)

text \<open>\<open>s.contains(pat)\<close>\<close>

definition str_contains :: "string \<Rightarrow> string \<Rightarrow> bool" where
  "str_contains s pat \<longleftrightarrow> list_ex (prefix pat) (suffixes s)"

lemma str_contains_iff: "str_contains s pat \<longleftrightarrow> (\<exists>a b. s = a @ pat @ b)"
proof -
  have "str_contains s pat \<longleftrightarrow> (\<exists>x. suffix x s \<and> prefix pat x)" by (auto simp: str_contains_def list_ex_iff)
  then show ?thesis by (auto simp: prefix_def suffix_def)
qed

end
