(* ===== verification/Ws_Task.thy ===== *)
theory Ws_Task
  imports Rust_Int
begin

section \<open>A task that reads a WebSocket and reconnects\<close>

text \<open>
  The feed connector (binance.rs) and the user data stream of the gateway (gateway.rs) are spawned
  tasks of the same shape: connect, read texts and forward what they parse to, and after a failure
  sleep for a backoff that doubles up to 30 seconds. The inputs are what the awaited calls return;
  the task's record has its two local variables, the messages it forwarded and the sleeps it took.
  The two step functions are in the theories of their files; what they have in common is the locale
  \<open>reconnecting\<close>.
\<close>

datatype ws_input =
    Ws_Connected               \<comment> \<open>\<open>connect_async\<close> returns \<open>Ok\<close>\<close>
  | Ws_Refused                 \<comment> \<open>\<open>connect_async\<close> returns \<open>Err\<close>\<close>
  | Ws_Text string bool        \<comment> \<open>a text frame, and whether the receiver of the channel is alive\<close>
  | Ws_Other                   \<comment> \<open>a ping, pong or binary frame\<close>
  | Ws_Lost                    \<comment> \<open>a read error or the end of the stream\<close>
  | Ws_Shutdown                \<comment> \<open>the shutdown signal\<close>

datatype ws_phase = Ws_Connecting | Ws_Reading | Ws_Stopped

record ('m, 's) ws_task =
  wt_phase :: ws_phase
  wt_backoff :: u64
  wt_local :: 's
  wt_sent :: "'m list"
  wt_slept :: "u64 list"

definition ws_start :: "u64 \<Rightarrow> 's \<Rightarrow> ('m, 's) ws_task" where
  "ws_start b s = \<lparr>wt_phase = Ws_Connecting, wt_backoff = b, wt_local = s, wt_sent = [], wt_slept = []\<rparr>"

text \<open>\<open>sleep(backoff_ms); backoff_ms = (backoff_ms * 2).min(MAX)\<close>\<close>

definition back_off :: "u64 \<Rightarrow> ('m, 's) ws_task \<Rightarrow> ('m, 's) ws_task" where
  "back_off cap t = t\<lparr>wt_slept := wt_slept t @ [wt_backoff t], wt_backoff := min (wt_backoff t * 2) cap\<rparr>"

lemma back_off_simps [simp]:
  "wt_phase (back_off cap t) = wt_phase t" "wt_local (back_off cap t) = wt_local t" "wt_sent (back_off cap t) = wt_sent t"
  "wt_slept (back_off cap t) = wt_slept t @ [wt_backoff t]" "wt_backoff (back_off cap t) = min (wt_backoff t * 2) cap"
  by (simp_all add: back_off_def)

lemma double_capped:
  fixes b cap base :: u64
  assumes "base \<le> b" "b \<le> cap" "base \<le> cap" "unat cap < 2 ^ 63"
  shows "base \<le> min (b * 2) cap \<and> min (b * 2) cap \<le> cap \<and> unat (min (b * 2) cap) = min (2 * unat b) (unat cap)"
proof -
  have "unat b \<le> unat cap" using assms(2) by (simp add: word_le_nat_alt)
  then have "unat b * unat (2 :: u64) < 2 ^ LENGTH(64)" using assms(4) by simp
  then have "unat (b * 2) = 2 * unat b" by (subst unat_mult_lem [THEN iffD1]) simp_all
  then show ?thesis using assms(1,3) by (auto simp: min_def word_le_nat_alt)
qed

text \<open>
  What the two tasks promise: outside of \<open>Ws_Stopped\<close> a failure backs off and connects again, a
  new connection resets the backoff, and a text is read by \<open>read\<close>, whose message is forwarded.
\<close>

locale reconnecting =
  fixes stp :: "ws_input \<Rightarrow> ('m, 's) ws_task \<Rightarrow> ('m, 's) ws_task"
    and read :: "string \<Rightarrow> 's \<Rightarrow> 'm option \<times> 's"
    and base :: u64 and cap :: u64
  assumes base_le: "base \<le> cap" and cap_small: "unat cap < 2 ^ 63"
    and refused: "wt_phase t = Ws_Connecting \<Longrightarrow> stp Ws_Refused t = back_off cap t"
    and connected: "wt_phase t = Ws_Connecting \<Longrightarrow> stp Ws_Connected t = t\<lparr>wt_backoff := base, wt_phase := Ws_Reading\<rparr>"
    and connecting_waits: "wt_phase t = Ws_Connecting \<Longrightarrow> i \<noteq> Ws_Refused \<Longrightarrow> i \<noteq> Ws_Connected \<Longrightarrow> stp i t = t"
    and lost: "wt_phase t = Ws_Reading \<Longrightarrow> stp Ws_Lost t = (back_off cap t)\<lparr>wt_phase := Ws_Connecting\<rparr>"
    and received: "wt_phase t = Ws_Reading \<Longrightarrow> stp (Ws_Text s True) t =
      t\<lparr>wt_local := snd (read s (wt_local t)),
        wt_sent := wt_sent t @ (case fst (read s (wt_local t)) of None \<Rightarrow> [] | Some m \<Rightarrow> [m])\<rparr>"
    and otherwise: "i \<noteq> Ws_Lost \<Longrightarrow> \<not> (\<exists>s. i = Ws_Text s True) \<Longrightarrow> wt_phase t \<noteq> Ws_Connecting \<Longrightarrow>
      wt_backoff (stp i t) = wt_backoff t \<and> wt_slept (stp i t) = wt_slept t \<and> wt_sent (stp i t) = wt_sent t \<and>
      (wt_local (stp i t) = wt_local t \<or> (\<exists>s. wt_local (stp i t) = snd (read s (wt_local t))))"
    and stopped: "wt_phase t = Ws_Stopped \<Longrightarrow> stp i t = t"
begin

definition run :: "ws_input list \<Rightarrow> ('m, 's) ws_task \<Rightarrow> ('m, 's) ws_task" where
  "run is t = fold stp is t"

definition bounded :: "('m, 's) ws_task \<Rightarrow> bool" where
  "bounded t \<longleftrightarrow> base \<le> wt_backoff t \<and> wt_backoff t \<le> cap \<and> (\<forall>b \<in> set (wt_slept t). base \<le> b \<and> b \<le> cap)"

lemma bounded_back_off: "bounded t \<Longrightarrow> bounded (back_off cap t)"
  using double_capped [of base "wt_backoff t" cap] base_le cap_small by (auto simp: bounded_def)

lemma bounded_cong: "wt_backoff t' = wt_backoff t \<Longrightarrow> wt_slept t' = wt_slept t \<Longrightarrow> bounded t' = bounded t"
  by (simp add: bounded_def)

lemma bounded_step:
  assumes "bounded t"
  shows "bounded (stp i t)"
proof (cases "wt_phase t")
  case Ws_Connecting
  consider "i = Ws_Refused" | "i = Ws_Connected" | "i \<noteq> Ws_Refused" "i \<noteq> Ws_Connected" by blast
  then show ?thesis
  proof cases
    case 1
    then show ?thesis using bounded_back_off [OF assms] by (simp add: refused [OF Ws_Connecting])
  next
    case 2
    then show ?thesis using assms base_le by (simp add: connected [OF Ws_Connecting] bounded_def)
  next
    case 3
    then show ?thesis using assms by (simp add: connecting_waits [OF Ws_Connecting])
  qed
next
  case Ws_Reading
  consider "i = Ws_Lost" | s where "i = Ws_Text s True" | "i \<noteq> Ws_Lost" "\<not> (\<exists>s. i = Ws_Text s True)" by blast
  then show ?thesis
  proof cases
    case 1
    then show ?thesis using bounded_back_off [OF assms] by (simp add: lost [OF Ws_Reading] bounded_def)
  next
    case 2
    then show ?thesis using assms by (simp add: received [OF Ws_Reading] bounded_def)
  next
    case 3
    then show ?thesis using otherwise [OF 3] Ws_Reading assms by (simp add: bounded_def)
  qed
qed (simp add: stopped assms)

lemma sleeps_bounded: "bounded (run is (ws_start base s))"
proof -
  have "bounded (run is t)" if "bounded t" for t
    using that by (induction "is" arbitrary: t) (simp_all add: run_def bounded_step)
  moreover have "bounded (ws_start base s)" using base_le by (simp add: bounded_def ws_start_def)
  ultimately show ?thesis by blast
qed

text \<open>Texts arriving on one connection are forwarded in order, each at most once.\<close>

fun reads :: "string list \<Rightarrow> 's \<Rightarrow> 'm list \<times> 's" where
  "reads [] s = ([], s)"
| "reads (x # xs) s = (case read x s of (m, s') \<Rightarrow> let (ms, s'') = reads xs s' in ((case m of None \<Rightarrow> [] | Some m \<Rightarrow> [m]) @ ms, s''))"

lemma forwards:
  assumes "wt_phase t = Ws_Reading"
  shows "run (map (\<lambda>x. Ws_Text x True) xs) t =
    t\<lparr>wt_local := snd (reads xs (wt_local t)), wt_sent := wt_sent t @ fst (reads xs (wt_local t))\<rparr>"
  using assms
proof (induction xs arbitrary: t)
  case (Cons x xs)
  then show ?case
    using Cons.IH [of "stp (Ws_Text x True) t"]
    by (simp add: run_def received Let_def split: prod.splits)
qed (simp add: run_def)

text \<open>While the exchange refuses, the pauses double up to the cap, and nothing but a connection ends them.\<close>

lemma refusals:
  assumes "wt_phase t = Ws_Connecting" and "base \<le> wt_backoff t" and "wt_backoff t \<le> cap"
  shows "map unat (drop (length (wt_slept t)) (wt_slept (run (replicate n Ws_Refused) t))) =
      map (\<lambda>k. min (2 ^ k * unat (wt_backoff t)) (unat cap)) [0 ..< n] \<and>
    wt_phase (run (replicate n Ws_Refused) t) = Ws_Connecting \<and>
    (\<exists>l. wt_slept (run (replicate n Ws_Refused) t) = wt_slept t @ l)"
  using assms
proof (induction n arbitrary: t)
  case (Suc n)
  let ?t = "back_off cap t"
  note d = double_capped [OF Suc.prems(2,3) base_le cap_small]
  have IH: "map unat (drop (length (wt_slept ?t)) (wt_slept (run (replicate n Ws_Refused) ?t))) =
      map (\<lambda>k. min (2 ^ k * unat (wt_backoff ?t)) (unat cap)) [0 ..< n]"
    "wt_phase (run (replicate n Ws_Refused) ?t) = Ws_Connecting"
    "\<exists>l. wt_slept (run (replicate n Ws_Refused) ?t) = wt_slept ?t @ l"
    using Suc.IH [of ?t] Suc.prems(1) d by simp_all
  then obtain l where l: "wt_slept (run (replicate n Ws_Refused) ?t) = wt_slept t @ wt_backoff t # l" by auto
  have cap_b: "unat (wt_backoff t) \<le> unat cap" using Suc.prems(3) by (simp add: word_le_nat_alt)
  have cap_assoc: "min (p * min x c) c = min (p * x) c" if "1 \<le> p" for p x c :: nat
  proof (cases "x \<le> c")
    case False
    then have "c \<le> p * c" "c \<le> p * x" "c \<le> x" using that by (auto intro: order_trans [OF _ mult_le_mono1 [OF that]] simp del: mult_le_cancel2)
    then show ?thesis using False by (simp add: min.absorb2)
  qed (simp add: min_def)
  have shift: "min (2 ^ k * min (2 * unat (wt_backoff t)) (unat cap)) (unat cap) = min (2 ^ Suc k * unat (wt_backoff t)) (unat cap)" for k
    using cap_assoc [of "2 ^ k" "2 * unat (wt_backoff t)" "unat cap"] by (simp add: mult.assoc [symmetric] mult.commute [of _ 2])
  have "run (replicate (Suc n) Ws_Refused) t = run (replicate n Ws_Refused) ?t"
    by (simp add: run_def refused [OF Suc.prems(1)])
  moreover have "map unat l = map (\<lambda>k. min (2 ^ Suc k * unat (wt_backoff t)) (unat cap)) [0 ..< n]"
    using IH(1) d by (simp add: l shift)
  ultimately show ?case
    using IH(2) l cap_b by (simp add: upt_conv_Cons map_Suc_upt [symmetric] del: upt_Suc map_Suc_upt)
qed (simp add: run_def)

end

text \<open>A task whose messages are numbered by a counter in its local state.\<close>

locale numbered_task = reconnecting stp read base cap
  for stp :: "ws_input \<Rightarrow> ('m, 's) ws_task \<Rightarrow> ('m, 's) ws_task"
    and read :: "string \<Rightarrow> 's \<Rightarrow> 'm option \<times> 's" and base cap :: u64 +
  fixes num :: "'m \<Rightarrow> u64" and pos :: "'s \<Rightarrow> u64"
  assumes counts: "pos (snd (read x s)) = pos s \<and> fst (read x s) = None \<or> pos (snd (read x s)) = pos s + 1"
    and numbers: "fst (read x s) = Some m \<Longrightarrow> num m = pos (snd (read x s))"
begin

definition numbered :: "u64 \<Rightarrow> nat \<Rightarrow> ('m, 's) ws_task \<Rightarrow> bool" where
  "numbered start n t \<longleftrightarrow> unat start \<le> unat (pos (wt_local t)) \<and> unat (pos (wt_local t)) \<le> unat start + n \<and>
     (\<forall>m \<in> set (wt_sent t). unat start < unat (num m) \<and> unat (num m) \<le> unat (pos (wt_local t))) \<and>
     sorted_wrt (<) (map (\<lambda>m. unat (num m)) (wt_sent t))"

lemma counter_moves:
  assumes "unat (pos s) + 1 < 2 ^ 64"
  shows "(unat (pos (snd (read x s))) = unat (pos s) \<and> fst (read x s) = None) \<or> unat (pos (snd (read x s))) = unat (pos s) + 1"
proof -
  have "unat (pos s + 1) = unat (pos s) + 1" using assms by (subst unat_add_lem [THEN iffD1]) simp_all
  then show ?thesis using counts [of x s] by auto
qed

lemma numbered_cong: "wt_local t' = wt_local t \<Longrightarrow> wt_sent t' = wt_sent t \<Longrightarrow> numbered start n t \<Longrightarrow> numbered start (Suc n) t'"
  by (simp add: numbered_def)

lemma numbered_skip:
  assumes "numbered start n t" and "unat start + n + 1 < 2 ^ 64"
    and "wt_local t' = snd (read x (wt_local t))" and "wt_sent t' = wt_sent t"
  shows "numbered start (Suc n) t'"
proof -
  have "unat (pos (wt_local t)) + 1 < 2 ^ 64" using assms(1,2) by (simp add: numbered_def)
  from counter_moves [OF this, of x] show ?thesis using assms by (fastforce simp: numbered_def)
qed

lemma numbered_step:
  assumes "numbered start n t" and "unat start + n + 1 < 2 ^ 64"
  shows "numbered start (Suc n) (stp i t)"
proof (cases "wt_phase t")
  case Ws_Connecting
  consider "i = Ws_Refused" | "i = Ws_Connected" | "i \<noteq> Ws_Refused" "i \<noteq> Ws_Connected" by blast
  then show ?thesis
    by cases (rule numbered_cong [OF _ _ assms(1)];
        simp add: refused [OF Ws_Connecting] connected [OF Ws_Connecting] connecting_waits [OF Ws_Connecting])+
next
  case Ws_Reading
  consider "i = Ws_Lost" | x where "i = Ws_Text x True" | "i \<noteq> Ws_Lost" "\<not> (\<exists>s. i = Ws_Text s True)" by blast
  then show ?thesis
  proof cases
    case 1
    then show ?thesis by (intro numbered_cong [OF _ _ assms(1)]) (simp_all add: lost [OF Ws_Reading])
  next
    case 2
    let ?s = "wt_local t"
    have bound: "unat (pos ?s) + 1 < 2 ^ 64" using assms by (simp add: numbered_def)
    show ?thesis
    proof (cases "fst (read x ?s)")
      case None
      then show ?thesis using numbered_skip [OF assms, of _ x] 2 by (simp add: received [OF Ws_Reading])
    next
      case (Some m)
      have "unat (pos (snd (read x ?s))) = unat (pos ?s) + 1" using counter_moves [OF bound, of x] Some by auto
      moreover have "num m = pos (snd (read x ?s))" using numbers [OF Some] .
      ultimately show ?thesis
        using assms(1) 2 Some by (auto simp: received [OF Ws_Reading] numbered_def sorted_wrt_append)
    qed
  next
    case 3
    have "wt_phase t \<noteq> Ws_Connecting" using Ws_Reading by simp
    from otherwise [OF 3 this] numbered_cong [OF _ _ assms(1), of "stp i t"] numbered_skip [OF assms, of "stp i t"]
    show ?thesis by blast
  qed
next
  case Ws_Stopped
  show ?thesis by (rule numbered_cong [OF _ _ assms(1)]) (simp_all add: stopped [OF Ws_Stopped])
qed

lemma numbered_run:
  assumes "unat (pos s) + length is < 2 ^ 64"
  shows "numbered (pos s) (length is) (run is (ws_start b s))"
  using assms
proof (induction "is" rule: rev_induct)
  case (snoc i "is")
  then show ?case using numbered_step [of "pos s" "length is"] by (simp add: run_def)
qed (simp add: run_def numbered_def ws_start_def)

end

end
