(* ===== verification/Binance_Feed.thy ===== *)
theory Binance_Feed
  imports Feed Json Ws_Task
begin

section \<open>atomic-feed: the Binance connector (binance.rs)\<close>

text \<open>
  The subscription URL, the reading of the exchange's messages and the connection task. The two
  deserializers of the JSON library, to \<open>Value\<close> and to the derived struct
  \<open>BinanceCombined\<close>, are the arguments \<open>value_of\<close> and \<open>combined_of\<close>, and the
  wall clock in milliseconds, which stands in for a missing event time, is \<open>now_ms\<close>.
\<close>

subsection \<open>Subscription\<close>

definition to_lowercase :: "string \<Rightarrow> string" where
  "to_lowercase s = map (\<lambda>c. if CHR ''A'' \<le> c \<and> c \<le> CHR ''Z'' then char_of (of_char c + (32 :: nat)) else c) s"

fun join :: "string \<Rightarrow> string list \<Rightarrow> string" where
  "join sep [] = []"
| "join sep [s] = s"
| "join sep (s # ss) = s @ sep @ join sep ss"

definition stream_names :: "bool \<Rightarrow> string list \<Rightarrow> string list" where
  "stream_names testnet symbols = concat (map (\<lambda>s. let lower = to_lowercase s in
     if testnet then [lower @ ''@depth20'', lower @ ''@trade'']
     else [lower @ ''@depth20@100ms'', lower @ ''@trade'']) symbols)"

definition stream_url :: "bool \<Rightarrow> string list \<Rightarrow> string" where
  "stream_url testnet symbols =
     (if testnet then ''wss://stream.testnet.binance.vision/stream'' else ''wss://stream.binance.com:9443/stream'')
     @ ''?streams='' @ join ''/'' (stream_names testnet symbols)"

subsection \<open>Messages\<close>

record binance_combined =
  bc_stream :: "string option"
  bc_data :: json

definition symbol_from_stream :: "string \<Rightarrow> string option" where
  "symbol_from_stream stream = Some (to_uppercase (takeWhile (\<lambda>c. c \<noteq> CHR ''@'') stream))"

definition parse_level :: "json \<Rightarrow> (f64 \<times> f64) option" where
  "parse_level level = do {
     price \<leftarrow> Option.bind (Option.bind (j_index 0 level) as_str) parse_f64;
     qty \<leftarrow> Option.bind (Option.bind (j_index 1 level) as_str) parse_f64;
     Some (price, qty)}"

definition parse_levels :: "string \<Rightarrow> json \<Rightarrow> (f64 \<times> f64) list" where
  "parse_levels key data = (case Option.bind (j_get key data) as_array of
     None \<Rightarrow> [] | Some arr \<Rightarrow> List.map_filter parse_level arr)"

definition parse_depth :: "u64 \<Rightarrow> json \<Rightarrow> string \<Rightarrow> raw_feed_message option" where
  "parse_depth now_ms data smb =
     (let timestamp = unwrap_or now_ms (Option.bind (j_get ''E'' data) as_u64);
          bids = parse_levels ''bids'' data;
          asks = parse_levels ''asks'' data;
          is_snapshot = j_get ''lastUpdateId'' data \<noteq> None \<and> j_get ''e'' data = None
      in Some (if is_snapshot then RawBookSnapshot smb bids asks timestamp else RawBookDelta smb bids asks timestamp))"

definition parse_trade :: "json \<Rightarrow> raw_feed_message option" where
  "parse_trade data = do {
     smb \<leftarrow> str_at ''s'' data;
     timestamp \<leftarrow> Option.bind (j_get ''E'' data) as_u64;
     price \<leftarrow> f64_at ''p'' data;
     qty \<leftarrow> f64_at ''q'' data;
     is_buyer_maker \<leftarrow> Option.bind (j_get ''m'' data) as_bool;
     Some (RawTrade smb price qty (\<not> is_buyer_maker) timestamp)}"

definition parse_direct :: "u64 \<Rightarrow> json option \<Rightarrow> raw_feed_message option" where
  "parse_direct now_ms parsed = (case parsed of
     None \<Rightarrow> None
   | Some v \<Rightarrow>
       if j_get ''lastUpdateId'' v \<noteq> None \<and> j_get ''bids'' v \<noteq> None then parse_depth now_ms v ''UNKNOWN''
       else (case str_at ''e'' v of
           None \<Rightarrow> None
         | Some event_type \<Rightarrow>
             if event_type = ''depthUpdate'' then Option.bind (str_at ''s'' v) (parse_depth now_ms v)
             else if event_type = ''trade'' then parse_trade v
             else None))"

definition parse_binance_message ::
  "(string \<Rightarrow> json option) \<Rightarrow> (string \<Rightarrow> binance_combined option) \<Rightarrow> u64 \<Rightarrow> string \<Rightarrow> raw_feed_message option" where
  "parse_binance_message value_of combined_of now_ms txt = (case combined_of txt of
     Some combined \<Rightarrow>
       (case bc_stream combined of
          None \<Rightarrow> None
        | Some stream \<Rightarrow>
            if str_contains stream ''@depth''
            then Option.bind (symbol_from_stream stream) (parse_depth now_ms (bc_data combined))
            else if str_contains stream ''@trade'' then parse_trade (bc_data combined)
            else parse_direct now_ms (value_of txt))
   | None \<Rightarrow> parse_direct now_ms (value_of txt))"

subsection \<open>The connection task\<close>

definition max_backoff_ms :: u64 where "max_backoff_ms = 30000"

text \<open>\<open>select!\<close> listens to the shutdown signal only while a connection is being read.\<close>

definition feed_step :: "(string \<Rightarrow> raw_feed_message option) \<Rightarrow> ws_input \<Rightarrow>
    (raw_feed_message, unit) ws_task \<Rightarrow> (raw_feed_message, unit) ws_task" where
  "feed_step parse i t = (case wt_phase t of
     Ws_Connecting \<Rightarrow> (case i of
         Ws_Connected \<Rightarrow> t\<lparr>wt_backoff := 500, wt_phase := Ws_Reading\<rparr>
       | Ws_Refused \<Rightarrow> back_off max_backoff_ms t
       | _ \<Rightarrow> t)
   | Ws_Reading \<Rightarrow> (case i of
         Ws_Text txt alive \<Rightarrow> (case parse txt of
             None \<Rightarrow> t
           | Some feed_msg \<Rightarrow> if alive then t\<lparr>wt_sent := wt_sent t @ [feed_msg]\<rparr> else t\<lparr>wt_phase := Ws_Stopped\<rparr>)
       | Ws_Lost \<Rightarrow> (back_off max_backoff_ms t)\<lparr>wt_phase := Ws_Connecting\<rparr>
       | Ws_Shutdown \<Rightarrow> t\<lparr>wt_phase := Ws_Stopped\<rparr>
       | _ \<Rightarrow> t)
   | Ws_Stopped \<Rightarrow> t)"

definition connector_new :: "(raw_feed_message, unit) ws_task" where
  "connector_new = ws_start 500 ()"

interpretation feed: reconnecting "feed_step parse" "\<lambda>txt s. (parse txt, s)" 500 max_backoff_ms
  for parse
  by unfold_locales
    (auto simp: feed_step_def max_backoff_ms_def split: ws_input.splits option.splits ws_phase.splits)

text \<open>
  Whatever happens on the network, the connector sleeps between half a second and 30 seconds; texts
  that arrive on a connection are forwarded in the order they came, unparsable ones left out.
\<close>

lemma connector_sleeps:
  "b \<in> set (wt_slept (fold (feed_step parse) is connector_new)) \<Longrightarrow> 500 \<le> b \<and> b \<le> 30000"
  using feed.sleeps_bounded [where ?is = "is" and parse = parse and ?s = "()"]
  unfolding feed.bounded_def feed.run_def connector_new_def by (simp add: max_backoff_ms_def)

lemma connector_forwards:
  assumes "wt_phase t = Ws_Reading"
  shows "wt_sent (fold (feed_step parse) (map (\<lambda>x. Ws_Text x True) txts) t) = wt_sent t @ List.map_filter parse txts"
proof -
  have "fst (feed.reads parse txts s) = List.map_filter parse txts" for s
    by (induction txts arbitrary: s) (auto simp: Let_def List.map_filter_simps split: prod.splits option.splits)
  then show ?thesis using feed.forwards [OF assms, of parse txts] by (simp add: feed.run_def)
qed

text \<open>A refused connection is not the end, but while they are refused the shutdown signal is not heard.\<close>

lemma connector_deaf_while_refused:
  assumes "set is \<subseteq> {Ws_Refused, Ws_Shutdown}"
  shows "wt_phase (fold (feed_step parse) is connector_new) = Ws_Connecting"
proof -
  have "wt_phase (fold (feed_step parse) is t) = Ws_Connecting" if "wt_phase t = Ws_Connecting" for t
    using that assms by (induction "is" arbitrary: t) (auto simp: feed_step_def)
  then show ?thesis by (simp add: connector_new_def ws_start_def)
qed

subsection \<open>What is subscribed is what is delivered\<close>

lemma takeWhile_no_at: "CHR ''@'' \<notin> set s \<Longrightarrow> takeWhile (\<lambda>c. c \<noteq> CHR ''@'') (s @ CHR ''@'' # r) = s"
  by (induction s) auto

lemma lowercase_byte:
  assumes "CHR ''A'' \<le> c" "c \<le> CHR ''Z''"
  shows "char_of (of_char c + (32 :: nat)) \<noteq> CHR ''@''"
    and "CHR ''a'' \<le> char_of (of_char c + (32 :: nat)) \<and> char_of (of_char c + (32 :: nat)) \<le> CHR ''z''"
    and "char_of (of_char (char_of (of_char c + (32 :: nat))) - (32 :: nat)) = c"
proof -
  have b: "65 \<le> (of_char c :: nat)" "(of_char c :: nat) \<le> 90" using assms by (simp_all add: less_eq_char_def)
  then have v: "of_char (char_of (of_char c + (32 :: nat))) = (of_char c + 32 :: nat)"
    by (simp add: of_char_mod_256 take_bit_nat_eq_self)
  show "CHR ''a'' \<le> char_of (of_char c + (32 :: nat)) \<and> char_of (of_char c + (32 :: nat)) \<le> CHR ''z''"
    using b by (simp add: less_eq_char_def v)
  show "char_of (of_char (char_of (of_char c + (32 :: nat))) - (32 :: nat)) = c" unfolding v by simp
  show "char_of (of_char c + (32 :: nat)) \<noteq> CHR ''@''"
  proof
    assume "char_of (of_char c + (32 :: nat)) = CHR ''@''"
    then have "of_char c + 32 = (of_char (CHR ''@'') :: nat)" using v by metis
    then show False using b by simp
  qed
qed

lemma upper_of_lower: "to_uppercase (to_lowercase s) = to_uppercase s"
proof -
  have "(CHR ''a'' \<le> c \<and> c \<le> CHR ''z'') \<Longrightarrow> \<not> (CHR ''A'' \<le> c \<and> c \<le> CHR ''Z'')" for c :: char
    by (auto simp: less_eq_char_def)
  then show ?thesis using lowercase_byte by (auto simp: to_uppercase_def to_lowercase_def)
qed

lemma no_at_lowercase: "CHR ''@'' \<notin> set s \<Longrightarrow> CHR ''@'' \<notin> set (to_lowercase s)"
  using lowercase_byte(1) [THEN not_sym] unfolding to_lowercase_def set_map image_iff by (metis (no_types, lifting))

lemma stream_nameE:
  assumes "n \<in> set (stream_names testnet symbols)"
  obtains s where "s \<in> set symbols" and "n = to_lowercase s @ CHR ''@'' # ''trade'' \<or>
    n = to_lowercase s @ CHR ''@'' # ''depth20'' \<or> n = to_lowercase s @ CHR ''@'' # ''depth20@100ms''"
  using assms by (auto simp: stream_names_def Let_def split: if_splits)

text \<open>Every stream of the subscription names its symbol, in upper case.\<close>

lemma stream_symbol:
  assumes "n \<in> set (stream_names testnet symbols)" and "\<forall>s \<in> set symbols. CHR ''@'' \<notin> set s"
  shows "\<exists>s \<in> set symbols. symbol_from_stream n = Some (to_uppercase s)"
  using assms(1)
proof (rule stream_nameE)
  fix s
  assume s: "s \<in> set symbols" and n: "n = to_lowercase s @ CHR ''@'' # ''trade'' \<or>
    n = to_lowercase s @ CHR ''@'' # ''depth20'' \<or> n = to_lowercase s @ CHR ''@'' # ''depth20@100ms''"
  then have "CHR ''@'' \<notin> set (to_lowercase s)" using assms(2) no_at_lowercase by blast
  then show ?thesis using n s by (auto simp: symbol_from_stream_def takeWhile_no_at upper_of_lower)
qed

text \<open>
  A book message of a subscribed stream is delivered as a snapshot or a delta of that symbol with
  exactly the readable levels, in order, and never lost; malformed levels are skipped one by one.
\<close>

lemma depth_delivered:
  assumes "combined_of txt = Some \<lparr>bc_stream = Some (to_lowercase s @ ''@depth20''), bc_data = data\<rparr>"
    and "CHR ''@'' \<notin> set s"
  shows "parse_binance_message value_of combined_of now txt = parse_depth now data (to_uppercase s)"
proof -
  have "str_contains (to_lowercase s @ ''@depth20'') ''@depth''"
    unfolding str_contains_iff by (rule exI [of _ "to_lowercase s"], rule exI [of _ "''20''"]) simp
  moreover have "symbol_from_stream (to_lowercase s @ ''@depth20'') = Some (to_uppercase s)"
    using takeWhile_no_at [OF no_at_lowercase [OF assms(2)]] by (simp add: symbol_from_stream_def upper_of_lower)
  ultimately show ?thesis by (simp add: parse_binance_message_def assms(1))
qed

end
