(* ===== verification/Gateway.thy ===== *)
theory Gateway
  imports Binance_Feed Execution
begin

section \<open>atomic-feed: the execution gateway (gateway.rs)\<close>

text \<open>
  Orders to the exchange's REST interface and the events its answers become. The HTTP client, the
  HMAC signature, the wall clock and the deserializers of the JSON library are the fields of
  \<open>gateway_env\<close>; the channel \<open>event_tx\<close> is the list of the events sent, in order.
\<close>

subsection \<open>Configuration and messages\<close>

record gateway_config =
  gc_api_key :: string
  gc_api_secret :: string
  gc_base_url :: string
  gc_recv_window :: u64
  gc_price_decimals :: u8
  gc_qty_decimals :: u8

definition binance_spot :: "string \<Rightarrow> string \<Rightarrow> gateway_config" where
  "binance_spot api_key api_secret = \<lparr>gc_api_key = api_key, gc_api_secret = api_secret,
     gc_base_url = ''https://api.binance.com'', gc_recv_window = 5000, gc_price_decimals = 2, gc_qty_decimals = 8\<rparr>"

definition binance_testnet :: "string \<Rightarrow> string \<Rightarrow> gateway_config" where
  "binance_testnet api_key api_secret = \<lparr>gc_api_key = api_key, gc_api_secret = api_secret,
     gc_base_url = ''https://testnet.binance.vision'', gc_recv_window = 5000, gc_price_decimals = 2, gc_qty_decimals = 8\<rparr>"

record binance_fill =
  bf_price :: string
  bf_qty :: string
  bf_commission :: string
  bf_commission_asset :: string
  bf_is_maker :: "bool option"

record binance_order_response =
  br_symbol :: string
  br_order_id :: u64
  br_client_order_id :: string
  br_price :: string
  br_orig_qty :: string
  br_executed_qty :: string
  br_status :: string
  br_fills :: "binance_fill list"

record binance_error =
  be_code :: int
  be_msg :: string

datatype http_method = Http_Post | Http_Delete | Http_Put

text \<open>A transport error, or whether the status is a success, its text and the body.\<close>

datatype http_reply = Net_Error string | Http_Reply bool string string

record gateway_env =
  gv_http :: "http_method \<Rightarrow> string \<Rightarrow> string \<Rightarrow> http_reply"
  gv_hmac :: "string \<Rightarrow> string \<Rightarrow> string"
  gv_now_ms :: u64
  gv_order_response :: "string \<Rightarrow> binance_order_response option"
  gv_error :: "string \<Rightarrow> binance_error option"
  gv_array :: "string \<Rightarrow> json list option"
  gv_listen_key :: "string \<Rightarrow> string option"

record execution_gateway =
  gw_config :: gateway_config
  gw_venue :: venue
  gw_source :: node_id

definition gateway_new :: "gateway_config \<Rightarrow> node_id \<Rightarrow> execution_gateway" where
  "gateway_new config source = \<lparr>gw_config = config, gw_venue = Binance, gw_source = source\<rparr>"

subsection \<open>Requests\<close>

definition side_str :: "side \<Rightarrow> string" where
  "side_str sd = (case sd of Buy \<Rightarrow> ''BUY'' | Sell \<Rightarrow> ''SELL'')"

definition type_str :: "order_type \<Rightarrow> string" where
  "type_str ty = (case ty of Market \<Rightarrow> ''MARKET'' | Limit \<Rightarrow> ''LIMIT'' | StopMarket \<Rightarrow> ''STOP_LOSS'' | StopLimit \<Rightarrow> ''STOP_LOSS_LIMIT'')"

definition tif_str :: "time_in_force \<Rightarrow> string" where
  "tif_str tif = (case tif of ImmediateOrCancel \<Rightarrow> ''IOC'' | FillOrKill \<Rightarrow> ''FOK'' | _ \<Rightarrow> ''GTC'')"

definition order_params :: "gateway_config \<Rightarrow> u64 \<Rightarrow> order_id \<Rightarrow> symbol \<Rightarrow> side \<Rightarrow> order_type \<Rightarrow> price \<Rightarrow> qty \<Rightarrow>
    time_in_force \<Rightarrow> (string \<times> string) list" where
  "order_params cf ts_ms oid smb sd ty pr q tif =
     (let price_f = price_to_f64 pr (gc_price_decimals cf);
          qty_f = qty_to_f64 q (gc_qty_decimals cf)
      in [(''symbol'', sym_base smb @ sym_quote smb), (''side'', side_str sd), (''type'', type_str ty),
          (''quantity'', fixed_text qty_f (unat (gc_qty_decimals cf))),
          (''newClientOrderId'', oid), (''recvWindow'', show_u64 (gc_recv_window cf))]
         @ (if ty = Limit \<or> ty = StopLimit
            then [(''price'', fixed_text price_f (unat (gc_price_decimals cf))), (''timeInForce'', tif_str tif)] else [])
         @ [(''timestamp'', show_u64 ts_ms)])"

definition cancel_params :: "gateway_config \<Rightarrow> u64 \<Rightarrow> order_id \<Rightarrow> symbol \<Rightarrow> (string \<times> string) list" where
  "cancel_params cf ts_ms oid smb =
     [(''symbol'', sym_base smb @ sym_quote smb), (''origClientOrderId'', oid),
      (''recvWindow'', show_u64 (gc_recv_window cf)), (''timestamp'', show_u64 ts_ms)]"

definition cancel_all_params :: "gateway_config \<Rightarrow> u64 \<Rightarrow> string \<Rightarrow> (string \<times> string) list" where
  "cancel_all_params cf ts_ms symbol_str =
     [(''symbol'', symbol_str), (''recvWindow'', show_u64 (gc_recv_window cf)), (''timestamp'', show_u64 ts_ms)]"

definition build_query_string :: "(string \<times> string) list \<Rightarrow> string" where
  "build_query_string params = join ''&'' (map (\<lambda>(k, v). k @ ''='' @ v) params)"

definition signed_url :: "gateway_env \<Rightarrow> gateway_config \<Rightarrow> string \<Rightarrow> (string \<times> string) list \<Rightarrow> string" where
  "signed_url ge cf path params = (let query_string = build_query_string params in
     gc_base_url cf @ path @ ''?'' @ query_string @ ''&signature='' @ gv_hmac ge (gc_api_secret cf) query_string)"

subsection \<open>Answers\<close>

definition fee_of :: "f64 \<Rightarrow> u8 \<Rightarrow> i64" where
  "fee_of commission d = saturate_i64 (f64_trunc (f64_mul commission (f64_rnd (10 ^ unat d))))"

definition parsed_or_0 :: "string \<Rightarrow> f64" where
  "parsed_or_0 s = unwrap_or 0 (parse_f64 s)"

definition response_fill :: "execution_gateway \<Rightarrow> order_id \<Rightarrow> symbol \<Rightarrow> side \<Rightarrow> binance_order_response \<Rightarrow> nat \<Rightarrow> u64 \<Rightarrow> u64 \<Rightarrow> event" where
  "response_fill gw oid smb sd resp i fill_seq ts =
     (let fill = br_fills resp ! i;
          fill_price = parsed_or_0 (bf_price fill);
          the_qty = parsed_or_0 (bf_qty fill);
          commission = parsed_or_0 (bf_commission fill);
          is_last = i = length (br_fills resp) - 1;
          exec_qty = parsed_or_0 (br_executed_qty resp);
          orig_qty = parsed_or_0 (br_orig_qty resp);
          remaining = f64_sub orig_qty exec_qty;
          cf = gw_config gw;
          fill_data = \<lparr>fe_order_id = oid, fe_symbol = smb, fe_side = sd,
            fe_price = price_from_f64 fill_price (gc_price_decimals cf), fe_qty = qty_from_f64 the_qty (gc_qty_decimals cf),
            fe_remaining = qty_from_f64 (max remaining 0) (gc_qty_decimals cf), fe_fee = fee_of commission (gc_price_decimals cf),
            fe_is_maker = unwrap_or False (bf_is_maker fill), fe_venue = gw_venue gw\<rparr>
      in event_new fill_seq ts (gw_source gw) (if is_last \<and> remaining \<le> 0 then OrderFill fill_data else OrderPartialFill fill_data))"

definition handle_order_response :: "execution_gateway \<Rightarrow> order_id \<Rightarrow> symbol \<Rightarrow> side \<Rightarrow> binance_order_response \<Rightarrow> u64 \<Rightarrow> u64 \<Rightarrow> event list" where
  "handle_order_response gw oid smb sd resp seq_base ts =
     event_new seq_base ts (gw_source gw)
       (OrderAck \<lparr>ae_order_id = oid, ae_exchange_order_id = show_u64 (br_order_id resp), ae_venue = gw_venue gw\<rparr>)
     # map (\<lambda>i. response_fill gw oid smb sd resp i (seq_base + 1 + of_nat i) ts) [0 ..< length (br_fills resp)]"

definition send_reject :: "execution_gateway \<Rightarrow> order_id \<Rightarrow> string \<Rightarrow> u64 \<Rightarrow> u64 \<Rightarrow> event list" where
  "send_reject gw oid reason sq ts =
     [event_new sq ts (gw_source gw) (OrderReject \<lparr>re_order_id = oid, re_reason = reason, re_venue = gw_venue gw\<rparr>)]"

definition gateway_submit :: "gateway_env \<Rightarrow> execution_gateway \<Rightarrow> order_id \<Rightarrow> symbol \<Rightarrow> side \<Rightarrow> order_type \<Rightarrow> price \<Rightarrow> qty \<Rightarrow>
    time_in_force \<Rightarrow> u64 \<Rightarrow> u64 \<Rightarrow> event list" where
  "gateway_submit ge gw oid smb sd ty pr q tif seq_base ts =
     (let cf = gw_config gw;
          url = signed_url ge cf ''/api/v3/order'' (order_params cf (gv_now_ms ge) oid smb sd ty pr q tif)
      in case gv_http ge Http_Post url (gc_api_key cf) of
          Http_Reply success status body \<Rightarrow>
            if success then (case gv_order_response ge body of
                Some resp \<Rightarrow> handle_order_response gw oid smb sd resp seq_base ts
              | None \<Rightarrow> [])
            else (case gv_error ge body of
                Some err \<Rightarrow> send_reject gw oid (''Binance '' @ show_i64 (be_code err) @ '': '' @ be_msg err) seq_base ts
              | None \<Rightarrow> send_reject gw oid (''HTTP '' @ status @ '': '' @ body) seq_base ts)
        | Net_Error e \<Rightarrow> send_reject gw oid (''network error: '' @ e) seq_base ts)"

definition gateway_cancel :: "gateway_env \<Rightarrow> execution_gateway \<Rightarrow> order_id \<Rightarrow> symbol \<Rightarrow> u64 \<Rightarrow> u64 \<Rightarrow> event list" where
  "gateway_cancel ge gw oid smb seq_base ts =
     (let cf = gw_config gw;
          url = signed_url ge cf ''/api/v3/order'' (cancel_params cf (gv_now_ms ge) oid smb)
      in case gv_http ge Http_Delete url (gc_api_key cf) of
          Http_Reply success status body \<Rightarrow>
            if success then [event_new seq_base ts (gw_source gw)
              (OrderCancel \<lparr>ce_order_id = oid, ce_reason = ''requested'', ce_venue = gw_venue gw\<rparr>)] else []
        | Net_Error e \<Rightarrow> [])"

definition cancel_all_open_orders :: "gateway_env \<Rightarrow> execution_gateway \<Rightarrow> string \<Rightarrow> u32" where
  "cancel_all_open_orders ge gw symbol_str =
     (let cf = gw_config gw;
          url = signed_url ge cf ''/api/v3/openOrders'' (cancel_all_params cf (gv_now_ms ge) symbol_str)
      in case gv_http ge Http_Delete url (gc_api_key cf) of
          Http_Reply success status body \<Rightarrow>
            if success then unwrap_or 0 (map_option (\<lambda>v. of_nat (length v)) (gv_array ge body)) else 0
        | Net_Error e \<Rightarrow> 0)"

subsection \<open>The user data stream\<close>

text \<open>\<open>parse_execution_report\<close> gets the parsed value and the sequence counter, which it
  advances once the message is known to be a report on a side and a symbol, whether or not an event
  comes of it.\<close>

definition stream_symbol_of :: "string \<Rightarrow> venue \<Rightarrow> symbol" where
  "stream_symbol_of symbol_str v =
     (let base = (if suffix ''USDT'' symbol_str then drop_end 4 symbol_str else symbol_str);
          quote = (if suffix ''USDT'' symbol_str then ''USDT'' else '''')
      in symbol_new base quote v)"

definition report_side :: "string \<Rightarrow> side option" where
  "report_side s = (if s = ''BUY'' then Some Buy else if s = ''SELL'' then Some Sell else None)"

definition report_fill :: "json \<Rightarrow> order_id \<Rightarrow> symbol \<Rightarrow> side \<Rightarrow> venue \<Rightarrow> u8 \<Rightarrow> u8 \<Rightarrow> order_fill_event option" where
  "report_fill v oid smb sd vn price_dec qty_dec = do {
     fill_price \<leftarrow> f64_at ''L'' v;
     the_qty \<leftarrow> f64_at ''l'' v;
     let commission = unwrap_or 0 (f64_at ''n'' v);
         remaining = f64_sub (unwrap_or 0 (f64_at ''q'' v)) (unwrap_or 0 (f64_at ''z'' v));
         is_maker = unwrap_or False (Option.bind (j_get ''m'' v) as_bool)
     in Some \<lparr>fe_order_id = oid, fe_symbol = smb, fe_side = sd,
       fe_price = price_from_f64 fill_price price_dec, fe_qty = qty_from_f64 the_qty qty_dec,
       fe_remaining = qty_from_f64 (max remaining 0) qty_dec, fe_fee = fee_of commission price_dec,
       fe_is_maker = is_maker, fe_venue = vn\<rparr>}"

definition report_payload :: "json \<Rightarrow> string \<Rightarrow> string \<Rightarrow> order_id \<Rightarrow> symbol \<Rightarrow> side \<Rightarrow> venue \<Rightarrow> u8 \<Rightarrow> u8 \<Rightarrow> event_payload option" where
  "report_payload v exec_type order_status oid smb sd vn price_dec qty_dec =
     (if exec_type = ''TRADE'' then
        map_option (\<lambda>fill_data. if order_status = ''FILLED'' then OrderFill fill_data else OrderPartialFill fill_data)
          (report_fill v oid smb sd vn price_dec qty_dec)
      else if exec_type \<in> {''CANCELED'', ''EXPIRED'', ''EXPIRED_IN_MATCH''} then
        Some (OrderCancel \<lparr>ce_order_id = oid, ce_reason = exec_type, ce_venue = vn\<rparr>)
      else if exec_type = ''REJECTED'' then
        Some (OrderReject \<lparr>re_order_id = oid, re_reason = unwrap_or ''unknown'' (str_at ''r'' v), re_venue = vn\<rparr>)
      else None)"

definition report_head :: "json \<Rightarrow> (string \<times> string \<times> string \<times> side \<times> string) option" where
  "report_head v = do {
     event_type \<leftarrow> str_at ''e'' v;
     if event_type \<noteq> ''executionReport'' then None else do {
       client_order_id \<leftarrow> str_at ''c'' v;
       order_status \<leftarrow> str_at ''X'' v;
       exec_type \<leftarrow> str_at ''x'' v;
       the_side_str \<leftarrow> str_at ''S'' v;
       symbol_str \<leftarrow> str_at ''s'' v;
       sd \<leftarrow> report_side the_side_str;
       Some (client_order_id, order_status, exec_type, sd, symbol_str)}}"

definition parse_execution_report :: "json option \<Rightarrow> node_id \<Rightarrow> venue \<Rightarrow> u8 \<Rightarrow> u8 \<Rightarrow> u64 \<Rightarrow> event option \<times> u64" where
  "parse_execution_report parsed source vn price_dec qty_dec sq = (case Option.bind parsed report_head of
     None \<Rightarrow> (None, sq)
   | Some (oid, order_status, exec_type, sd, symbol_str) \<Rightarrow>
       let v = the parsed;
           timestamp = unwrap_or 0 (Option.bind (j_get ''E'' v) as_u64) * 1000000;
           sq' = sq + 1
       in (map_option (event_new sq' timestamp source)
             (report_payload v exec_type order_status oid (stream_symbol_of symbol_str vn) sd vn price_dec qty_dec), sq'))"

definition stream_step :: "(string \<Rightarrow> json option) \<Rightarrow> execution_gateway \<Rightarrow> ws_input \<Rightarrow> (event, u64) ws_task \<Rightarrow> (event, u64) ws_task" where
  "stream_step value_of gw i t = (case wt_phase t of
     Ws_Connecting \<Rightarrow> (case i of
         Ws_Connected \<Rightarrow> t\<lparr>wt_backoff := 1000, wt_phase := Ws_Reading\<rparr>
       | Ws_Refused \<Rightarrow> back_off 30000 t
       | _ \<Rightarrow> t)
   | Ws_Reading \<Rightarrow> (case i of
         Ws_Text txt alive \<Rightarrow>
           (let (ev, sq) = parse_execution_report (value_of txt) (gw_source gw) (gw_venue gw)
                  (gc_price_decimals (gw_config gw)) (gc_qty_decimals (gw_config gw)) (wt_local t);
                t' = t\<lparr>wt_local := sq\<rparr>
            in case ev of
                None \<Rightarrow> t'
              | Some event \<Rightarrow> if alive then t'\<lparr>wt_sent := wt_sent t @ [event]\<rparr> else t'\<lparr>wt_phase := Ws_Stopped\<rparr>)
       | Ws_Lost \<Rightarrow> (back_off 30000 t)\<lparr>wt_phase := Ws_Connecting\<rparr>
       | _ \<Rightarrow> t)
   | Ws_Stopped \<Rightarrow> t)"

definition create_listen_key :: "gateway_env \<Rightarrow> string \<Rightarrow> string \<Rightarrow> string option" where
  "create_listen_key ge base_url api_key =
     (case gv_http ge Http_Post (base_url @ ''/api/v3/userDataStream'') api_key of
        Http_Reply success status body \<Rightarrow> if success then gv_listen_key ge body else None
      | Net_Error e \<Rightarrow> None)"

definition stream_ws_url :: "gateway_config \<Rightarrow> string \<Rightarrow> string" where
  "stream_ws_url cf listen_key =
     (if str_contains (gc_base_url cf) ''testnet'' then ''wss://stream.testnet.binance.vision'' else ''wss://stream.binance.com:9443'')
     @ ''/ws/'' @ listen_key"

text \<open>The spawned task, with the URL it connects to; none without a listen key.\<close>

definition start_user_data_stream :: "gateway_env \<Rightarrow> execution_gateway \<Rightarrow> (string \<times> (event, u64) ws_task) option" where
  "start_user_data_stream ge gw =
     map_option (\<lambda>listen_key. (stream_ws_url (gw_config gw) listen_key, ws_start 1000 900000000))
       (create_listen_key ge (gc_base_url (gw_config gw)) (gc_api_key (gw_config gw)))"

lemma report_counts:
  "parse_execution_report v source vn pd qd sq = (None, sq) \<or>
   (\<exists>ev. parse_execution_report v source vn pd qd sq = (ev, sq + 1) \<and> (\<forall>e. ev = Some e \<longrightarrow> ev_seq e = sq + 1))"
  by (auto simp: parse_execution_report_def Let_def split: option.split)

interpretation user_stream: numbered_task "stream_step value_of gw"
    "\<lambda>txt sq. parse_execution_report (value_of txt) (gw_source gw) (gw_venue gw)
       (gc_price_decimals (gw_config gw)) (gc_qty_decimals (gw_config gw)) sq" 1000 30000 ev_seq "\<lambda>sq. sq"
  for value_of gw
proof
  fix x sq m
  let ?r = "parse_execution_report (value_of x) (gw_source gw) (gw_venue gw)
       (gc_price_decimals (gw_config gw)) (gc_qty_decimals (gw_config gw)) sq"
  show "snd ?r = sq \<and> fst ?r = None \<or> snd ?r = sq + 1" using report_counts by (metis fst_conv snd_conv)
  show "ev_seq m = snd ?r" if "fst ?r = Some m" using report_counts that by (metis fst_conv option.distinct(1) snd_conv)
qed (auto simp: stream_step_def Let_def split: ws_input.splits option.splits ws_phase.splits prod.splits, (metis snd_conv)+)

end
