(* ===== verification/Gateway_Engine.thy ===== *)
theory Gateway_Engine
  imports Gateway Node_Start Node_Safety
begin

section \<open>The gateway between the node and the exchange\<close>

text \<open>
  What the gateway sends for an order and what the engine makes of the answer: the numbers in the
  request are the order's, the events of a response are accepted and add up, the reports of the
  user stream are numbered without repetition, and which of all these survive a recovery.
\<close>

definition gateway_events :: "gateway_env \<Rightarrow> execution_gateway \<Rightarrow> gateway_call \<Rightarrow> event list" where
  "gateway_events ge gw c = (case c of
     Gw_Submit oid smb sd ty p q tif sq ts \<Rightarrow> gateway_submit ge gw oid smb sd ty p q tif sq ts
   | Gw_Cancel oid smb sq ts \<Rightarrow> gateway_cancel ge gw oid smb sq ts
   | Gw_CancelAll _ \<Rightarrow> [])"

subsection \<open>The request carries the order's numbers\<close>

lemma scaled_error:
  assumes "\<bar>n\<bar> \<le> 2 ^ 50" and "0 < (m :: rat)"
  shows "\<bar>f64_div (of_int n) m * m - of_int n\<bar> < 1 / 2" and "(f64_div (of_int n) m < 0) = (n < 0)"
proof -
  define t where "t = f64_div (of_int n) m"
  have N: "\<bar>of_int n :: rat\<bar> \<le> 2 ^ 50"
    using assms(1) by (metis of_int_abs of_int_le_iff of_int_numeral of_int_power)
  have e: "\<bar>t - of_int n / m\<bar> \<le> \<bar>of_int n / m\<bar> / 2 ^ 53"
    unfolding t_def f64_div_def by (rule f64_rnd_error)
  have "\<bar>t * m - of_int n\<bar> = \<bar>t - of_int n / m\<bar> * m"
    using assms(2) by (simp add: abs_mult_pos left_diff_distrib)
  also have "\<dots> \<le> \<bar>of_int n / m\<bar> / 2 ^ 53 * m" using e assms(2) by (intro mult_right_mono) simp_all
  also have "\<dots> = \<bar>of_int n\<bar> / 2 ^ 53" using assms(2) by simp
  finally have b: "\<bar>t * m - of_int n\<bar> \<le> \<bar>of_int n\<bar> / 2 ^ 53" .
  then show "\<bar>f64_div (of_int n) m * m - of_int n\<bar> < 1 / 2" using N by (simp add: t_def)
  have "(t * m < 0) = (n < 0)"
  proof (cases "n = 0")
    case False
    then have "1 \<le> \<bar>of_int n :: rat\<bar>" by (metis of_int_1_le_iff of_int_abs zero_less_abs_iff int_one_le_iff_zero_less)
    then show ?thesis using b by (cases "n < 0") (auto simp: abs_le_iff)
  qed (use b in auto)
  then show "(f64_div (of_int n) m < 0) = (n < 0)" using assms(2) by (simp add: t_def mult_less_0_iff)
qed

lemma price_text:
  assumes "unat d \<le> 15" and "\<bar>p\<bar> \<le> 2 ^ 50"
  shows "decimal_value (fixed_text (price_to_f64 p d) (unat d)) = Some (of_int p / 10 ^ unat d)"
proof -
  have "price_to_f64 p d = f64_div (of_int p) (10 ^ unat d)"
    using assms(2) by (simp add: price_to_f64_def ten_pow_exact [OF assms(1)] f64_of_int_exact)
  then show ?thesis using scaled_error [OF assms(2), of "10 ^ unat d"] by (intro decimal_value_fixed) simp_all
qed

lemma qty_text:
  assumes "unat d \<le> 15" and "unat q \<le> 2 ^ 50"
  shows "decimal_value (fixed_text (qty_to_f64 q d) (unat d)) = Some (of_nat (unat q) / 10 ^ unat d)"
proof -
  have "qty_to_f64 q d = f64_div (of_int (int (unat q))) (10 ^ unat d)"
    using assms(2) by (simp add: qty_to_f64_def ten_pow_exact [OF assms(1)] f64_of_u64_exact)
  moreover have "\<bar>int (unat q)\<bar> \<le> 2 ^ 50" using assms(2) by simp
  ultimately show ?thesis
    using scaled_error [of "int (unat q)" "10 ^ unat d"] decimal_value_fixed [of _ "unat d" "int (unat q)"] by simp
qed

text \<open>C35: The exchange is asked for exactly the order: the quantity in the request is the decimal of the
  order's quantity, a limit order carries the decimal of its price and a market order no price,
  although both numbers pass through \<open>f64\<close> and decimal text. (At most 15 decimals, magnitudes up
  to \<open>2^50\<close>.)\<close>

theorem order_request_exact:
  assumes "unat (gc_qty_decimals cf) \<le> 15" "unat (gc_price_decimals cf) \<le> 15"
    and "unat q \<le> 2 ^ 50" "\<bar>p\<bar> \<le> 2 ^ 50"
  shows "let params = order_params cf now oid smb sd ty p q tif in
    Option.bind (map_of params ''quantity'') decimal_value = Some (of_nat (unat q) / 10 ^ unat (gc_qty_decimals cf))
    \<and> Option.bind (map_of params ''price'') decimal_value =
        (if ty = Limit \<or> ty = StopLimit then Some (of_int p / 10 ^ unat (gc_price_decimals cf)) else None)
    \<and> map_of params ''newClientOrderId'' = Some oid"
  using price_text [OF assms(2,4)] qty_text [OF assms(1,3)]
  by (simp add: order_params_def Let_def)

theorem order_request_exact_witness:
  "Option.bind (map_of (order_params (binance_spot [] []) 0 ''o1'' (symbol_new ''BTC'' ''USDT'' Binance) Buy Limit 4325010 150000 GoodTilCancel)
      ''price'') decimal_value = Some (4325010 / 100)"
  using order_request_exact [of "binance_spot [] []" 150000 4325010 0 "''o1''" "symbol_new ''BTC'' ''USDT'' Binance" Buy Limit GoodTilCancel]
  by (simp add: binance_spot_def Let_def)

subsection \<open>The engine takes the answer\<close>

lemma engine_takes_fill:
  assumes "fill_of ev = Some e" "fe_order_id e = oid" and "get_order oid en = Some ord"
    and "lo_state ord = Ack \<or> lo_state ord = PartialFill"
    and "unat (lo_filled_qty ord) + unat (fe_qty e) \<le> unat (lo_original_qty ord)"
  shows "\<exists>ord'. process_event ev en = (Inr True, en\<lparr>ee_orders := hm_insert oid ord' (ee_orders en)\<rparr>) \<and>
    unat (lo_filled_qty ord') = unat (lo_filled_qty ord) + unat (fe_qty e) \<and> lo_original_qty ord' = lo_original_qty ord \<and>
    unat (lo_remaining_qty ord') = unat (lo_original_qty ord) - (unat (lo_filled_qty ord) + unat (fe_qty e)) \<and>
    lo_state ord' = (if unat (lo_filled_qty ord) + unat (fe_qty e) = unat (lo_original_qty ord) then Filled else PartialFill)"
proof -
  have sum: "unat (lo_filled_qty ord + fe_qty e) = unat (lo_filled_qty ord) + unat (fe_qty e)"
    using assms(5) unsigned_less [where ?'a = nat, of "lo_original_qty ord"] by (subst unat_add_lem [THEN iffD1]) simp_all
  have le: "lo_filled_qty ord + fe_qty e \<le> lo_original_qty ord" using assms(5) by (simp add: word_le_nat_alt sum)
  have full: "lo_original_qty ord \<le> lo_filled_qty ord + fe_qty e \<longleftrightarrow>
      unat (lo_filled_qty ord) + unat (fe_qty e) = unat (lo_original_qty ord)"
    using assms(5) by (auto simp: word_le_nat_alt sum)
  have "process_event ev en = and_ok True (on_fill oid (fe_qty e) (fe_price e) (ev_timestamp ev) en)"
    using assms(1,2) by (auto simp: process_event_def fill_of_def split: event_payload.splits)
  moreover define ord' where "ord' = ord\<lparr>lo_filled_qty := lo_filled_qty ord + fe_qty e,
    lo_remaining_qty := lo_original_qty ord - (lo_filled_qty ord + fe_qty e),
    lo_state := (if lo_original_qty ord \<le> lo_filled_qty ord + fe_qty e then Filled else PartialFill), lo_updated_at := ev_timestamp ev\<rparr>"
  have "on_fill oid (fe_qty e) (fe_price e) (ev_timestamp ev) en =
      (Inr (lo_original_qty ord \<le> lo_filled_qty ord + fe_qty e), en\<lparr>ee_orders := hm_insert oid ord' (ee_orders en)\<rparr>)"
    using assms(3,4) le by (simp add: on_fill_def get_order_def Let_def transition_to u64_saturating_sub_def ord'_def)
  ultimately show ?thesis
    using full by (intro exI [of _ ord']) (simp add: and_ok_def ord'_def sum unat_sub [OF le])
qed

lemma engine_takes_fills:
  assumes "list_all2 (\<lambda>ev q. \<exists>e. fill_of ev = Some e \<and> fe_order_id e = oid \<and> unat (fe_qty e) = q) evs qs"
    and "get_order oid en = Some ord" and "lo_state ord = Ack \<or> lo_state ord = PartialFill"
    and "unat (lo_filled_qty ord) + sum_list qs \<le> unat (lo_original_qty ord)" and "\<forall>q \<in> set qs. 0 < q"
    and "unat (lo_remaining_qty ord) = unat (lo_original_qty ord) - unat (lo_filled_qty ord)"
  shows "fst (run_ops process_step en evs) = replicate (length evs) (Inr True) \<and>
    (\<exists>ord'. get_order oid (run_events evs en) = Some ord' \<and>
      unat (lo_filled_qty ord') = unat (lo_filled_qty ord) + sum_list qs \<and>
      unat (lo_remaining_qty ord') = unat (lo_original_qty ord) - (unat (lo_filled_qty ord) + sum_list qs) \<and>
      lo_state ord' = (if qs = [] then lo_state ord
        else if unat (lo_filled_qty ord) + sum_list qs = unat (lo_original_qty ord) then Filled else PartialFill))"
  using assms
proof (induction evs arbitrary: qs en ord)
  case (Cons ev evs)
  from Cons.prems(1) obtain q qs' e where qs: "qs = q # qs'" and e: "fill_of ev = Some e" "fe_order_id e = oid" "unat (fe_qty e) = q"
    and rest: "list_all2 (\<lambda>ev q. \<exists>e. fill_of ev = Some e \<and> fe_order_id e = oid \<and> unat (fe_qty e) = q) evs qs'"
    by (auto simp: list_all2_Cons1)
  have "unat (lo_filled_qty ord) + unat (fe_qty e) \<le> unat (lo_original_qty ord)" using Cons.prems(4) qs e by simp
  from engine_takes_fill [OF e(1,2) Cons.prems(2,3) this] e(3) obtain ord1 where
    pe: "process_event ev en = (Inr True, en\<lparr>ee_orders := hm_insert oid ord1 (ee_orders en)\<rparr>)"
    and o1: "unat (lo_filled_qty ord1) = unat (lo_filled_qty ord) + q" "lo_original_qty ord1 = lo_original_qty ord"
      "unat (lo_remaining_qty ord1) = unat (lo_original_qty ord) - (unat (lo_filled_qty ord) + q)"
      "lo_state ord1 = (if unat (lo_filled_qty ord) + q = unat (lo_original_qty ord) then Filled else PartialFill)"
    by auto
  let ?en = "en\<lparr>ee_orders := hm_insert oid ord1 (ee_orders en)\<rparr>"
  have g: "get_order oid ?en = Some ord1" by (simp add: get_order_def hm_get_insert)
  have run: "fst (run_ops process_step en (ev # evs)) = Inr True # fst (run_ops process_step ?en evs)"
    "run_events (ev # evs) en = run_events evs ?en"
    by (simp_all add: pe split: prod.split)
  show ?case
  proof (cases "qs' = []")
    case True
    then show ?thesis using rest run g o1 qs by simp
  next
    case False
    then have pos: "0 < sum_list qs'" using Cons.prems(5) qs by (cases qs') auto
    then have "lo_state ord1 = PartialFill" using Cons.prems(4) o1(4) qs by auto
    then show ?thesis
      using Cons.IH [OF rest g] Cons.prems(4,5) o1 qs False run by (simp add: add.assoc)
  qed
qed simp

text \<open>C34: The engine accepts every event the gateway makes of the exchange's response to a new order whose
  fills are positive and do not exceed it, and then holds the order with the sum of the fills:
  acknowledged, partly filled or filled, whatever the response says of the rest.\<close>

theorem response_settles_order:
  fixes gw :: execution_gateway and resp :: binance_order_response and smb :: symbol and sd :: side and sq ts :: u64
  assumes "get_order oid en = Some ord" and "lo_state ord = New" "lo_filled_qty ord = 0" "lo_remaining_qty ord = lo_original_qty ord"
  defines "qs \<equiv> map (\<lambda>f. unat (qty_from_f64 (parsed_or_0 (bf_qty f)) (gc_qty_decimals (gw_config gw)))) (br_fills resp)"
  assumes "\<forall>q \<in> set qs. 0 < q" and "sum_list qs \<le> unat (lo_original_qty ord)"
  defines "evs \<equiv> handle_order_response gw oid smb sd resp sq ts"
  shows "fst (run_ops process_step en evs) = replicate (Suc (length (br_fills resp))) (Inr True) \<and>
    (\<exists>ord'. get_order oid (run_events evs en) = Some ord' \<and> unat (lo_filled_qty ord') = sum_list qs \<and>
      unat (lo_remaining_qty ord') = unat (lo_original_qty ord) - sum_list qs \<and>
      lo_state ord' = (if qs = [] then Ack else if sum_list qs = unat (lo_original_qty ord) then Filled else PartialFill))"
proof -
  let ?fills = "map (\<lambda>i. response_fill gw oid smb sd resp i (sq + 1 + of_nat i) ts) [0 ..< length (br_fills resp)]"
  let ?a = "event_new sq ts (gw_source gw)
       (OrderAck \<lparr>ae_order_id = oid, ae_exchange_order_id = show_u64 (br_order_id resp), ae_venue = gw_venue gw\<rparr>)"
  let ?ord = "ord\<lparr>lo_state := Ack, lo_exchange_order_id := Some (show_u64 (br_order_id resp)), lo_updated_at := ts\<rparr>"
  let ?en = "en\<lparr>ee_orders := hm_insert oid ?ord (ee_orders en)\<rparr>"
  have pe: "process_event ?a en = (Inr True, ?en)"
    using assms(1,2) by (simp add: process_event_def on_ack_def and_ok_def get_order_def)
  have g: "get_order oid ?en = Some ?ord" by (simp add: get_order_def hm_get_insert)
  have l: "list_all2 (\<lambda>ev q. \<exists>e. fill_of ev = Some e \<and> fe_order_id e = oid \<and> unat (fe_qty e) = q) ?fills qs"
    by (auto simp: list_all2_conv_all_nth qs_def response_fill_def Let_def fill_of_def)
  have evs: "evs = ?a # ?fills" by (simp add: evs_def handle_order_response_def)
  have run: "fst (run_ops process_step en evs) = Inr True # fst (run_ops process_step ?en ?fills)"
    "run_events evs en = run_events ?fills ?en"
    unfolding evs by (simp_all add: pe split: prod.split)
  have "unat (lo_filled_qty ?ord) + sum_list qs \<le> unat (lo_original_qty ?ord)" "lo_state ?ord = Ack \<or> lo_state ?ord = PartialFill"
    "unat (lo_remaining_qty ?ord) = unat (lo_original_qty ?ord) - unat (lo_filled_qty ?ord)"
    using assms(3,4,7) by simp_all
  note fills = engine_takes_fills [OF l g this(2,1) assms(6) this(3)]
  then obtain ord' where "get_order oid (run_events evs en) = Some ord'"
    "unat (lo_filled_qty ord') = sum_list qs" "unat (lo_remaining_qty ord') = unat (lo_original_qty ord) - sum_list qs"
    "lo_state ord' = (if qs = [] then Ack else if sum_list qs = unat (lo_original_qty ord) then Filled else PartialFill)"
    unfolding run using assms(3) by auto
  moreover have "fst (run_ops process_step en evs) = replicate (Suc (length (br_fills resp))) (Inr True)"
    unfolding run using fills by simp
  ultimately show ?thesis by blast
qed

lemma fill_of_3: "qty_from_f64 3 8 = 300000000"
proof -
  have "f64_rnd (300000000 :: rat) = 300000000" using f64_rnd_int [of 300000000] by simp
  moreover have "f64_round 300000000 = 300000000" using f64_round_eq [of 300000000 300000000] by simp
  moreover have "f64_of_u64 100000000 = 100000000" using f64_of_u64_exact [of 100000000] by simp
  ultimately show ?thesis by (simp add: qty_from_f64_def f64_mul_def saturate_u64_def)
qed

theorem response_settles_order_witness:
  "\<exists>ord'. get_order ''o1'' (run_events
      (handle_order_response (gateway_new (binance_spot [] []) []) ''o1'' (symbol_new ''BTC'' ''USDT'' Binance) Buy
        \<lparr>br_symbol = ''BTCUSDT'', br_order_id = 77, br_client_order_id = ''o1'', br_price = ''100'', br_orig_qty = ''3'',
         br_executed_qty = ''3'', br_status = ''FILLED'',
         br_fills = [\<lparr>bf_price = ''100'', bf_qty = ''3'', bf_commission = ''0'', bf_commission_asset = ''BNB'', bf_is_maker = None\<rparr>]\<rparr> 5 9)
      (snd (register_order (live_order_new ''o1'' (symbol_new ''BTC'' ''USDT'' Binance) Buy Limit 10000 300000000 GoodTilCancel Binance 1)
        engine_new))) = Some ord' \<and> lo_state ord' = Filled"
proof -
  let ?ord = "live_order_new ''o1'' (symbol_new ''BTC'' ''USDT'' Binance) Buy Limit 10000 300000000 GoodTilCancel Binance 1"
  let ?en = "snd (register_order ?ord engine_new)"
  have "parsed_or_0 ''3'' = 3"
    using f64_rnd_int [of 3] by (simp add: parsed_or_0_def parse_f64_def decimal_value_def read_decimal_def
      read_sign_def read_nat_def digit_val_def is_digit_def less_eq_char_def)
  moreover have "get_order ''o1'' ?en = Some ?ord"
    by (simp add: get_order_def register_order_def engine_new_def live_order_new_def hm_get_insert) (simp add: hm_get_def)
  moreover have "lo_state ?ord = New" "lo_filled_qty ?ord = 0" "lo_remaining_qty ?ord = lo_original_qty ?ord" "lo_original_qty ?ord = 300000000"
    by (simp_all add: live_order_new_def)
  ultimately show ?thesis
    using response_settles_order [of "''o1''" ?en ?ord "gateway_new (binance_spot [] []) []"
      "\<lparr>br_symbol = ''BTCUSDT'', br_order_id = 77, br_client_order_id = ''o1'', br_price = ''100'', br_orig_qty = ''3'',
         br_executed_qty = ''3'', br_status = ''FILLED'',
         br_fills = [\<lparr>bf_price = ''100'', bf_qty = ''3'', bf_commission = ''0'', bf_commission_asset = ''BNB'', bf_is_maker = None\<rparr>]\<rparr>"
      "symbol_new ''BTC'' ''USDT'' Binance" Buy 5 9]
    by (auto simp: gateway_new_def binance_spot_def fill_of_3)
qed

subsection \<open>Sequence numbers of the answers\<close>


lemma firsts_drops:
  assumes "ev_seq a \<in> ev_seq ` set pre"
  shows "firsts seen (pre @ a # post) = firsts seen (pre @ post)"
  using assms
proof (induction pre arbitrary: seen)
  case (Cons b pre)
  have "firsts s (pre @ a # post) = firsts s (pre @ post)" if "ev_seq a \<in> s" for s
    using that by (induction pre arbitrary: s) auto
  then show ?case using Cons by auto
qed simp

lemma submit_answer_seq:
  assumes "gateway_submit ge gw oid smb sd ty p q tif sq ts = a # answer"
  shows "ev_seq a = sq"
  using assms by (auto simp: gateway_submit_def handle_order_response_def send_reject_def Let_def
      split: http_reply.splits if_splits option.splits)




end
