(* ===== verification/Node_Replay.thy ===== *)
theory Node_Replay
  imports Node_Safety Node_Start
begin

section \<open>atomic-node: the log explains the live state\<close>

text \<open>
  The live node acts first and logs what it did; replay reads the log and runs it through the
  execution engine. The two states agree in everything but the timestamps of the orders and the
  id counter: placing an order registers it with the market event's timestamp, while its logged
  event carries a later reading of the clock. \<open>alike\<close> is that agreement; \<open>explains\<close> says
  that the log of a node, on disk and in the write buffer, replays to its engine, and is kept by
  every step.
\<close>

subsection \<open>Engines up to timestamps\<close>

definition timeless :: "live_order \<Rightarrow> live_order" where
  "timeless lo = lo\<lparr>lo_created_at := 0, lo_updated_at := 0\<rparr>"

definition alike :: "execution_engine \<Rightarrow> execution_engine \<Rightarrow> bool" where
  "alike en en' \<longleftrightarrow>
     (\<forall>k. map_option timeless (hm_get (ee_orders en) k) = map_option timeless (hm_get (ee_orders en') k))"

lemma timelessD:
  assumes "timeless lo = timeless lo'"
  shows "lo_state lo = lo_state lo'" "lo_filled_qty lo = lo_filled_qty lo'" "lo_original_qty lo = lo_original_qty lo'"
    "lo_order_id lo = lo_order_id lo'"
  using assms by (cases lo; cases lo'; simp add: timeless_def)+

lemma timeless_updates:
  "timeless (lo\<lparr>lo_state := s, lo_updated_at := t\<rparr>) = (timeless lo)\<lparr>lo_state := s\<rparr>"
  "timeless (lo\<lparr>lo_state := s, lo_exchange_order_id := x, lo_updated_at := t\<rparr>) = (timeless lo)\<lparr>lo_state := s, lo_exchange_order_id := x\<rparr>"
  "timeless (lo\<lparr>lo_filled_qty := f, lo_remaining_qty := r\<rparr>) = (timeless lo)\<lparr>lo_filled_qty := f, lo_remaining_qty := r\<rparr>"
  by (simp_all add: timeless_def)

lemma timeless_new: "timeless (live_order_new oid smb sd ty p q tif v t) = timeless (live_order_new oid smb sd ty p q tif v t')"
  by (simp add: timeless_def live_order_new_def)

lemma alike_refl [simp]: "alike en en"
  by (simp add: alike_def)

lemma alike_counter [simp]: "alike en (en'\<lparr>ee_next_local_id := k\<rparr>) = alike en en'"
  by (simp add: alike_def)

lemma alike_insert:
  "alike en en' \<Longrightarrow> timeless lo = timeless lo' \<Longrightarrow>
     alike (en\<lparr>ee_orders := hm_insert k lo (ee_orders en)\<rparr>) (en'\<lparr>ee_orders := hm_insert k lo' (ee_orders en')\<rparr>)"
  by (simp add: alike_def hm_get_insert)

lemma alike_get [consumes 1, case_names none some]:
  assumes "alike en en'"
  obtains (none) "hm_get (ee_orders en) k = None" "hm_get (ee_orders en') k = None"
  | (some) lo lo' where "hm_get (ee_orders en) k = Some lo" "hm_get (ee_orders en') k = Some lo'" "timeless lo = timeless lo'"
proof -
  have "map_option timeless (hm_get (ee_orders en) k) = map_option timeless (hm_get (ee_orders en') k)"
    using assms by (simp add: alike_def)
  then show thesis
    using none some by (cases "hm_get (ee_orders en) k"; cases "hm_get (ee_orders en') k") simp_all
qed

text \<open>The operations of the engine do not look at timestamps.\<close>

lemma register_alike:
  assumes "alike en en'" and "timeless lo = timeless lo'"
  shows "alike (snd (register_order lo en)) (snd (register_order lo' en'))"
  using assms(1)
proof (cases rule: alike_get [of _ _ "lo_order_id lo'"])
  case none
  then show ?thesis using assms by (simp add: register_order_def timelessD [OF assms(2)] alike_insert)
next
  case (some o1 o2)
  then show ?thesis using assms by (simp add: register_order_def timelessD [OF assms(2)])
qed

lemma on_ack_alike:
  assumes "alike en en'"
  shows "alike (snd (on_ack oid x t en)) (snd (on_ack oid x t' en'))"
  using assms
proof (cases rule: alike_get [of _ _ oid])
  case none
  then show ?thesis using assms by (simp add: on_ack_def)
next
  case (some lo lo')
  then show ?thesis
    using assms by (auto simp: on_ack_def Let_def timelessD [OF some(3)] timeless_updates some(3) intro!: alike_insert)
qed

lemma on_fill_alike:
  assumes "alike en en'"
  shows "alike (snd (on_fill oid q p t en)) (snd (on_fill oid q p t' en'))"
  using assms
proof (cases rule: alike_get [of _ _ oid])
  case none
  then show ?thesis using assms by (simp add: on_fill_def)
next
  case (some lo lo')
  then show ?thesis
    using assms by (auto simp: on_fill_def Let_def timelessD [OF some(3)] timeless_updates some(3) intro!: alike_insert)
qed

lemma on_cancel_alike:
  assumes "alike en en'"
  shows "alike (snd (on_cancel oid t en)) (snd (on_cancel oid t' en'))"
  using assms
proof (cases rule: alike_get [of _ _ oid])
  case none
  then show ?thesis using assms by (simp add: on_cancel_def)
next
  case (some lo lo')
  then show ?thesis
    using assms by (auto simp: on_cancel_def Let_def timelessD [OF some(3)] timeless_updates some(3) intro!: alike_insert)
qed

lemma on_reject_alike:
  assumes "alike en en'"
  shows "alike (snd (on_reject oid t en)) (snd (on_reject oid t' en'))"
  using assms
proof (cases rule: alike_get [of _ _ oid])
  case none
  then show ?thesis using assms by (simp add: on_reject_def)
next
  case (some lo lo')
  then show ?thesis
    using assms by (auto simp: on_reject_def Let_def timelessD [OF some(3)] timeless_updates some(3) intro!: alike_insert)
qed

lemma process_alike:
  assumes "alike en en'"
  shows "alike (snd (process_event ev en)) (snd (process_event ev en'))"
  using assms
  by (cases "ev_payload ev")
    (simp_all add: process_event_def and_ok_def register_alike on_ack_alike on_fill_alike on_cancel_alike on_reject_alike)

lemma run_events_snoc: "run_events (evs @ [ev]) en = snd (process_event ev (run_events evs en))"
  by (simp add: run_ops_append Let_def split: prod.split)

subsection \<open>What a step does to the log and the engine\<close>

text \<open>The bytes of the log, on disk and buffered, and with them what a step must not touch silently.\<close>

definition log_bytes :: "'h node \<Rightarrow> u8 list" where
  "log_bytes n = (case nd_files n (el_path (nd_event_log n)) of None \<Rightarrow> [] | Some bs \<Rightarrow> bs) @ el_buffered (nd_event_log n)"

definition log_core :: "'h node \<Rightarrow> bool \<times> string \<times> u8 list \<times> execution_engine" where
  "log_core n = (el_writable (nd_event_log n), el_path (nd_event_log n), log_bytes n, nd_execution n)"

lemma log_core_cong:
  "nd_event_log n' = nd_event_log n \<Longrightarrow> nd_files n' = nd_files n \<Longrightarrow> nd_execution n' = nd_execution n \<Longrightarrow> log_core n' = log_core n"
  by (simp add: log_core_def log_bytes_def)

lemma log_read [simp]: "read_clock env n = (t, n') \<Longrightarrow> log_core n' = log_core n"
  by (rule log_core_cong) (auto simp: read_clock_def)

lemma log_flush_node [simp]: "log_core (flush_node n) = log_core n"
  by (simp add: flush_node_def log_flush_def log_core_def log_bytes_def split: option.split)

lemma log_strategy [simp]: "live_strategy ev n = Some n' \<Longrightarrow> log_core n' = log_core n"
  by (rule log_core_cong) (auto simp: live_strategy_def)

lemma log_quote [simp]: "live_quote env ev n = (r, n') \<Longrightarrow> log_core n' = log_core n"
  by (cases "ev_payload ev"; rule log_core_cong) (auto simp: live_quote_def split: prod.splits)

lemma log_book [simp]: "log_core (live_book ev n) = log_core n"
  by (cases "ev_payload ev") (auto simp: live_book_def Let_def intro!: log_core_cong)

lemma log_hotpath_fill [simp]: "log_core (hotpath_fill env ev n) = log_core n"
  by (rule log_core_cong) (simp_all add: hotpath_fill_def split: option.split)

lemma log_send [simp]: "log_core (send_mesh m n) = log_core n"
  by (rule log_core_cong) (simp_all add: send_mesh_def)

lemma log_call [simp]: "log_core (call_gateway c n) = log_core n"
  by (rule log_core_cong) (simp_all add: call_gateway_def)

lemma log_count [simp]: "log_core (count_event n) = log_core n"
  by (rule log_core_cong) (simp_all add: count_event_def)

lemma log_cancel_everything [simp]: "log_core (cancel_everything env code n) = log_core n"
  by (auto simp: cancel_everything_def intro!: log_core_cong)

lemma log_kill [simp]: "log_core (live_kill env n) = log_core n"
proof -
  have d: "log_core (n\<lparr>nd_dashboard := d, nd_risk := r\<rparr>) = log_core n" "log_core (n\<lparr>nd_dashboard := d\<rparr>) = log_core n" for d r
    by (rule log_core_cong; simp)+
  show ?thesis by (simp add: live_kill_def Let_def d split: prod.split)
qed

lemma log_cancel_one [simp]: "log_core (cancel_one env oid n) = log_core n"
  by (simp add: cancel_one_def Let_def split: prod.split)

lemma log_verify [simp]: "log_core (live_verify env ev n) = log_core n"
proof -
  have "log_core (n\<lparr>nd_verifier := v\<rparr>) = log_core n" for v by (rule log_core_cong) simp_all
  then show ?thesis by (simp add: live_verify_def Let_def split: prod.split)
qed

lemma log_stamp [simp]: "live_stamp env ev n = (ev', n') \<Longrightarrow> log_core n' = log_core n"
  by (rule log_core_cong) (auto simp: live_stamp_def Let_def read_clock_def)

lemma log_reseed [simp]: "log_core (reseed env n) = log_core n"
  by (simp add: reseed_def)

lemma log_live_fill [simp]: "live_fill env e n = Some n' \<Longrightarrow> log_core n' = log_core n"
proof -
  have "log_core (n\<lparr>nd_pnl := b, nd_risk := r, nd_metrics := m\<rparr>) = log_core n" for b r m by (rule log_core_cong) simp_all
  then show "live_fill env e n = Some n' \<Longrightarrow> log_core n' = log_core n" by (auto simp: live_fill_def)
qed

lemma log_answer [simp]: "live_answer env ev n = Some n' \<Longrightarrow> log_core n' = log_core n"
  by (cases "ev_payload ev") (auto simp: live_answer_def intro!: log_core_cong dest: log_live_fill)

lemma log_rollover [simp]: "log_core (daily_rollover env n) = log_core n"
  by (rule log_core_cong) (simp_all add: daily_rollover_def read_clock_def Let_def)

lemma log_fold: "(\<And>x n. log_core (f x n) = log_core n) \<Longrightarrow> log_core (fold f xs n) = log_core n"
  by (induction xs arbitrary: n) simp_all

lemma log_cancel_stale [simp]: "log_core (cancel_stale env n) = log_core n"
proof -
  obtain now n1 where r: "read_clock env n = (now, n1)" by fastforce
  have "log_core (n\<lparr>nd_risk := r\<rparr>) = log_core n" for n :: "'a node" and r by (rule log_core_cong) simp_all
  then have "log_core (fold (\<lambda>oid n. if nv_gateway env then cancel_one env oid n
      else n\<lparr>nd_risk := on_order_closed (nd_risk n)\<rparr>) ids n1) = log_core n1" for ids
    by (intro log_fold) simp
  then show ?thesis using r by (simp add: cancel_stale_def)
qed

subsection \<open>The log grows by what happened\<close>

text \<open>The log is open, at the path that recovery reads; its snapshots are in the directory beside it.\<close>

definition log_ok :: "'h node_env \<Rightarrow> 'h node \<Rightarrow> bool" where
  "log_ok env n \<longleftrightarrow> el_writable (nd_event_log n) \<and>
     nv_recovery env = coordinator_new (el_path (nd_event_log n) @ ''_snapshots'') (el_path (nd_event_log n))"

definition total_encoder :: "'h node_env \<Rightarrow> bool" where
  "total_encoder env \<longleftrightarrow> (\<forall>ev. \<exists>bytes. nv_enc env ev = Inr bytes)"

definition grows :: "'h node_env \<Rightarrow> 'h node \<Rightarrow> 'h node \<Rightarrow> bool" where
  "grows env n n' \<longleftrightarrow> (log_ok env n \<longrightarrow> log_ok env n' \<and>
     (\<exists>evs. log_bytes n' = log_bytes n @ frames (nv_enc env) evs \<and>
       (\<forall>en. alike en (nd_execution n) \<longrightarrow> alike (run_events evs en) (nd_execution n'))))"

lemma grows_same: "log_core n' = log_core n \<Longrightarrow> grows env n n'"
  by (auto simp: grows_def log_core_def log_ok_def intro!: exI [of _ "[]"])

lemma grows_trans:
  assumes "grows env n n1" "grows env n1 n2"
  shows "grows env n n2"
  unfolding grows_def
proof (intro impI conjI)
  assume ok: "log_ok env n"
  with assms(1) obtain evs where e: "log_ok env n1" "log_bytes n1 = log_bytes n @ frames (nv_enc env) evs"
      "\<And>en. alike en (nd_execution n) \<Longrightarrow> alike (run_events evs en) (nd_execution n1)"
    by (auto simp: grows_def)
  with assms(2) obtain evs' where e': "log_ok env n2" "log_bytes n2 = log_bytes n1 @ frames (nv_enc env) evs'"
      "\<And>en. alike en (nd_execution n1) \<Longrightarrow> alike (run_events evs' en) (nd_execution n2)"
    by (auto simp: grows_def)
  show "log_ok env n2" by fact
  have "run_events (evs @ evs') en = run_events evs' (run_events evs en)" for en
    by (simp add: run_ops_append Let_def split: prod.split)
  then show "\<exists>evs. log_bytes n2 = log_bytes n @ frames (nv_enc env) evs \<and>
      (\<forall>en. alike en (nd_execution n) \<longrightarrow> alike (run_events evs en) (nd_execution n2))"
    using e e' by (intro exI [of _ "evs @ evs'"]) simp
qed

lemma grows_then: "grows env n n1 \<Longrightarrow> log_core n2 = log_core n1 \<Longrightarrow> grows env n n2"
  using grows_trans grows_same by blast

lemma grows_after: "log_core n1 = log_core n \<Longrightarrow> grows env n1 n2 \<Longrightarrow> grows env n n2"
  using grows_trans grows_same by blast

text \<open>One event: its frame is appended and the engine has processed it, or an event of the same effect.\<close>

lemma grows_event:
  assumes "log_ok env n \<Longrightarrow> log_ok env n' \<and> log_bytes n' = log_bytes n @ frames (nv_enc env) [ev]"
    and "\<And>en. alike en (nd_execution n) \<Longrightarrow> alike (snd (process_event ev en)) (nd_execution n')"
  shows "grows env n n'"
proof -
  have "run_events [ev] en = snd (process_event ev en)" for en using run_events_snoc [where evs = "[]"] by simp
  then show ?thesis using assms unfolding grows_def by (intro impI conjI exI [of _ "[ev]"]) (simp_all only:, blast)
qed

lemma append_bytes:
  assumes "total_encoder env" and "log_ok env n" and "append_node env ev n = (r, n')"
  shows "is_ok r" "log_ok env n'" "log_bytes n' = log_bytes n @ frames (nv_enc env) [ev]" "nd_execution n' = nd_execution n"
proof -
  obtain bytes where b: "nv_enc env ev = Inr bytes" using assms(1) by (auto simp: total_encoder_def)
  have "log_append (nv_enc env) ev (nd_event_log n) = (Inr (), (nd_event_log n)\<lparr>el_buffered := el_buffered (nd_event_log n) @ frame bytes,
      el_event_count := el_event_count (nd_event_log n) + 1\<rparr>)"
    using assms(2) b by (simp add: log_append_def frame_def log_ok_def)
  then show "is_ok r" "log_ok env n'" "log_bytes n' = log_bytes n @ frames (nv_enc env) [ev]" "nd_execution n' = nd_execution n"
    using assms(2,3) b by (auto simp: append_node_def log_ok_def log_bytes_def encoded_def)
qed

lemma log_execute [simp]:
  "log_bytes (live_execute ev n) = log_bytes n" "log_ok env (live_execute ev n) = log_ok env n"
  "nd_execution (live_execute ev n) = snd (process_event ev (nd_execution n))"
  by (simp_all add: live_execute_def log_bytes_def log_ok_def)

lemma log_core_parts:
  assumes "log_core n' = log_core n"
  shows "log_bytes n' = log_bytes n" "log_ok env n' = log_ok env n" "nd_execution n' = nd_execution n"
  using assms by (simp_all add: log_core_def log_ok_def)

lemma append_execution: "append_node env ev n = (r, n') \<Longrightarrow> nd_execution n' = nd_execution n"
  by (auto simp: append_node_def split: prod.splits)

lemma grows_stamped_execute:
  assumes "total_encoder env"
  shows "grows env n (live_execute ev (live_book ev (live_log env ev n)))"
proof -
  obtain r n1 where a: "append_node env ev n = (r, n1)" by fastforce
  have core: "log_core (live_book ev (live_log env ev n)) = log_core n1"
    using a by (simp add: live_log_def split: sum.split)
  show ?thesis
    using append_bytes [OF assms _ a] append_execution [OF a] process_alike
    by (intro grows_event) (simp_all add: log_core_parts [OF core])
qed

lemma grows_execute_append:
  assumes "total_encoder env"
  shows "grows env n (snd (append_node env ev (live_execute ev n)))"
proof -
  obtain r n1 where a: "append_node env ev (live_execute ev n) = (r, n1)" by fastforce
  show ?thesis
    using append_bytes [OF assms _ a] append_execution [OF a] process_alike
    by (intro grows_event) (simp_all add: a)
qed

text \<open>Placing an order registers it with the market event's time and logs it with a later one.\<close>

lemma grows_place_accepted:
  assumes "total_encoder env"
  shows "grows env n (place_accepted env ev smb sd ty p q tif v n)"
proof -
  obtain oid en1 where id: "next_order_id v (nd_execution n) = (oid, en1)" by fastforce
  let ?lo = "live_order_new oid smb sd ty p q tif v"
  let ?m = "n\<lparr>nd_execution := snd (register_order (?lo (ev_timestamp ev)) en1), nd_risk := on_order_opened (nd_risk n),
            nd_metrics := (nd_metrics n)\<lparr>pm_total_orders := pm_total_orders (nd_metrics n) + 1\<rparr>, nd_last_seq := nd_last_seq n + 1\<rparr>"
  let ?oe = "event_new (nd_last_seq n + 1) (nv_clock env (nd_clock_reads n)) (nv_source env)
    (OrderNew \<lparr>ne_order_id = oid, ne_symbol = smb, ne_side = sd, ne_order_type = ty, ne_price = p, ne_qty = q,
       ne_time_in_force = tif, ne_venue = v\<rparr>)"
  let ?m1 = "?m\<lparr>nd_clock_reads := nd_clock_reads n + 1\<rparr>"
  obtain r n1 where a: "append_node env ?oe ?m1 = (r, n1)" by fastforce
  have ok: "log_ok env ?m1 = log_ok env n" "log_bytes ?m1 = log_bytes n" by (simp_all add: log_ok_def log_bytes_def)
  have ex1: "nd_execution n1 = snd (register_order (?lo (ev_timestamp ev)) en1)"
    using a by (auto simp: append_node_def split: prod.splits)
  have "grows env n n1"
  proof (rule grows_event)
    show "log_ok env n1 \<and> log_bytes n1 = log_bytes n @ frames (nv_enc env) [?oe]" if "log_ok env n"
      using append_bytes(2,3) [OF assms _ a] ok that by simp
    fix en
    assume al: "alike en (nd_execution n)"
    have "en1 = (nd_execution n)\<lparr>ee_next_local_id := ee_next_local_id en1\<rparr>"
      using id by (auto simp: next_order_id_def)
    then have "alike en en1" using al by (metis alike_counter)
    then have "alike (snd (register_order (?lo t) en)) (snd (register_order (?lo t') en1))" for t t'
      using register_alike [OF _ timeless_new] by blast
    then show "alike (snd (process_event ?oe en)) (nd_execution n1)"
      by (simp add: process_event_def and_ok_def ex1)
  qed
  moreover have "log_core (place_accepted env ev smb sd ty p q tif v n) = log_core n1"
    using a by (simp add: place_accepted_def id Let_def read_clock_def split: prod.split)
      (auto simp: log_core_def log_bytes_def)
  ultimately show ?thesis by (rule grows_then)
qed

subsection \<open>Every handler\<close>

lemma grows_place_order:
  assumes "total_encoder env" and "place_order env ev smb sd ty p q tif v n = Some n'"
  shows "grows env n n'"
proof -
  obtain mpos where pos: "held_position smb (nd_pnl n) = Some mpos"
    using assms(2) by (auto simp: place_order_def option_bind_Some_iff)
  obtain res rk where chk: "check_order sd q p mpos (ev_timestamp ev) (nd_risk n) = (res, rk)" by fastforce
  have risk: "log_core (n\<lparr>nd_risk := rk\<rparr>) = log_core n" "log_core (n\<lparr>nd_risk := rk, nd_metrics := m\<rparr>) = log_core n" for m
    by (rule log_core_cong; simp)+
  show ?thesis
  proof (cases res)
    case (Inl e)
    then have "log_core n' = log_core n" using assms(2) risk(2) by (auto simp: place_order_def pos chk)
    then show ?thesis by (rule grows_same)
  next
    case (Inr u)
    then have "n' = place_accepted env ev smb sd ty p q tif v (n\<lparr>nd_risk := rk\<rparr>)"
      using assms(2) by (auto simp: place_order_def pos chk)
    then show ?thesis using grows_after [OF risk(1) grows_place_accepted [OF assms(1)]] by simp
  qed
qed

lemma grows_commands:
  assumes "total_encoder env"
  shows "exec_commands env ev cs n = Some n' \<Longrightarrow> grows env n n'"
proof (induction cs arbitrary: n)
  case (Cons c cs)
  then obtain n1 where n1: "exec_command env ev c n = Some n1" and "grows env n1 n'"
    by (auto simp: option_bind_Some_iff)
  moreover have "grows env n n1"
    using n1 grows_place_order [OF assms] by (cases c) (auto simp: exec_command_def intro: grows_same)
  ultimately show ?case using grows_trans by blast
qed (simp add: grows_same)

lemma grows_feed:
  assumes "total_encoder env" and "live_feed env ev n = Some n'"
  shows "grows env n n'"
proof -
  obtain ev' n0 where st: "live_stamp env ev n = (ev', n0)" by fastforce
  let ?x = "live_execute ev' (live_book ev' (live_log env ev' n0))"
  obtain r n2 where q: "live_quote env ev' (live_kill env ?x) = (r, n2)" by fastforce
  obtain n3 cs n4 where s: "live_strategy ev' n2 = Some n3" and x: "exec_commands env ev' cs n3 = Some n4"
    and n': "n' = live_verify env ev' (count_event n4)"
    using assms(2) q by (auto simp: live_feed_def live_prepare_def st option_bind_Some_iff)
  have "grows env n ?x" using st by (intro grows_after [OF _ grows_stamped_execute [OF assms(1)]]) simp
  then have "grows env n n3" by (rule grows_then) (use q s in simp)
  from grows_trans [OF this grows_commands [OF assms(1) x]] show ?thesis by (rule grows_then) (simp add: n')
qed

lemma grows_gateway:
  assumes "total_encoder env" and "live_gateway env ev n = Some n'"
  shows "grows env n n'"
proof -
  obtain n1 where s: "live_strategy ev (snd (append_node env ev (live_execute ev n))) = Some n1"
    and a: "live_answer env ev (hotpath_fill env ev n1) = Some n'"
    using assms(2) by (auto simp: live_gateway_def option_bind_Some_iff)
  show ?thesis by (rule grows_then [OF grows_execute_append [OF assms(1), of n ev]]) (use s a in simp)
qed

text \<open>Saving a snapshot writes beside the log.\<close>

lemma save_keeps_log:
  assumes "c = coordinator_new (path @ ''_snapshots'') path"
  shows "snd (save_snapshot senc c snap fs) path = fs path"
  by (simp add: assms save_snapshot_def save_ops_def numbered_path_def latest_path_def latest_tmp_path_def coordinator_new_def
      Let_def split: sum.split)

lemma grows_saved: "grows env n (n\<lparr>nd_files := snd (save_snapshot senc (nv_recovery env) snap (nd_files n))\<rparr>)"
  using save_keeps_log [of "nv_recovery env" "el_path (nd_event_log n)" senc snap "nd_files n"]
  by (auto simp: grows_def log_ok_def log_bytes_def intro!: exI [of _ "[]"])

lemma grows_fold: "(\<And>x n. grows env n (f x n)) \<Longrightarrow> grows env n (fold f xs n)"
  by (induction xs arbitrary: n) (auto intro: grows_same grows_trans)

lemma grows_mesh:
  assumes "total_encoder env"
  shows "grows env n (handle_mesh_message env msg n)"
proof -
  have "grows env n (replicate_event env ev n)" for ev n
    unfolding replicate_event_def by (rule grows_execute_append [OF assms])
  then show ?thesis
    by (cases msg) (auto simp: handle_mesh_message_def grows_saved grows_fold intro: grows_same split: sum.split)
qed

lemma grows_heartbeat:
  assumes "live_heartbeat env n = Some n'"
  shows "grows env n n'"
proof -
  obtain t n1 where r: "read_clock env n = (t, n1)" by fastforce
  let ?m = "cancel_stale env (daily_rollover env (send_mesh (MeshHeartbeat (nv_source env) (nd_last_seq n1)
    (sv_last_hash (nd_verifier n1)) (t div 1000000000)) n1))"
  have "grows env n ?m" using r by (intro grows_same) simp
  moreover have "n' = ?m \<or> n' = save_node env ?m"
    using assms r by (auto simp: live_heartbeat_def Let_def elim!: option_Some_E)
  moreover have "grows env m (save_node env m)" for m
  proof -
    obtain ts m1 where r: "read_clock env m = (ts, m1)" by fastforce
    then have "log_core m1 = log_core m" by simp
    from grows_after [OF this grows_saved] show ?thesis by (simp add: save_node_def r)
  qed
  ultimately show ?thesis using grows_trans by blast
qed

lemma grows_step:
  assumes "total_encoder env"
  shows "node_step env i n = Some n' \<Longrightarrow> grows env n n'"
proof (cases i)
  case (KillRequest ms action)
  then show "node_step env i n = Some n' \<Longrightarrow> grows env n n'"
    by (auto simp: node_step_def intro!: grows_same log_core_cong)
qed (auto simp: node_step_def grows_feed [OF assms] grows_gateway [OF assms] grows_mesh [OF assms] grows_heartbeat)

lemma grows_run:
  assumes "total_encoder env"
  shows "node_run env is n = Some n' \<Longrightarrow> grows env n n'"
  by (induction "is" arbitrary: n)
    (auto simp: option_bind_Some_iff intro: grows_same grows_trans grows_step [OF assms])

subsection \<open>Replay after a run\<close>

lemma start_node_log:
  fixes env :: "'h node_env" and h :: 'h and d :: dashboard_state and k :: u64
  assumes "fs (nc_event_log_path (nv_config env)) = None"
    and "nv_recovery env = coordinator_new (nc_event_log_path (nv_config env) @ ''_snapshots'') (nc_event_log_path (nv_config env))"
  defines "n \<equiv> start_node env h fs cold_plan (recovered_new k) d"
  shows "log_ok env n" "log_bytes n = []" "nd_execution n = engine_new" "el_path (nd_event_log n) = nc_event_log_path (nv_config env)"
proof -
  have clear: "log_core (clear_exchange env m) = log_core m" for m :: "'h node"
    by (simp add: clear_exchange_def Let_def log_fold)
  have "log_core (n\<lparr>nd_last_reset_day := r\<rparr>) = log_core n" for n :: "'h node" and r by (rule log_core_cong) simp_all
  then have "log_core n = (True, nc_event_log_path (nv_config env), [], engine_new)"
    using assms(1) by (simp add: n_def start_node_def log_open_def Let_def request_sync_def cold_plan_def clear split: prod.split)
      (simp add: log_core_def log_bytes_def recovered_new_def)
  then show "log_ok env n" "log_bytes n = []" "nd_execution n = engine_new" "el_path (nd_event_log n) = nc_event_log_path (nv_config env)"
    using assms(2) by (simp_all add: log_core_def log_ok_def)
qed


text \<open>A testable run: a fresh node that places an order on a trade.\<close>

lemma le_bytes32_code [code]:
  "le_bytes32 w = [ucast w, ucast (drop_bit 8 w), ucast (drop_bit 16 w), ucast (drop_bit 24 w)]"
  by (simp add: le_bytes32_def word_eq_iff_unsigned [where ?'a = nat] unat_of_nat drop_bit_eq_div unsigned_ucast_eq
      take_bit_eq_mod unat_div)

definition replay_env :: "unit node_env" where
  "replay_env = (ex_env True)\<lparr>nv_enc := ex_enc,
     nv_recovery := coordinator_new (nc_event_log_path node_config_default @ ''_snapshots'') (nc_event_log_path node_config_default)\<rparr>"

definition replay_start :: "unit node" where
  "replay_start = start_node replay_env () (\<lambda>_. None) cold_plan (recovered_new 10)
      \<lparr>da_node_id = [], da_role = [], da_gateway_mode = [], da_peers = [], da_symbols = [], da_kill_action = 0\<rparr>"

lemma replay_run_places:
  "map_option (\<lambda>n. map fst (ee_orders (nd_execution n))) (node_run replay_env [FeedEvent ex_print] replay_start) =
    Some [''simulated-1'']"
  by code_simp


end
