(* ===== verification/Backtest_Data.thy ===== *)
theory Backtest_Data
  imports Feed Event_Log
begin

section \<open>atomic-node: the generator of the backtest data (bin/generate_backtest_data.rs)\<close>

text \<open>
  The program that writes the synthetic data set of the backtest: 10000 snapshots of a book of 20
  levels around an oscillating price, and a trade at every third. The sine of the platform is the
  parameter \<open>sine\<close>; of it only \<open>-1 \<le> sine x \<le> 1\<close> is used.
\<close>

unbundle bit_operations_syntax

definition base_mid :: i64 where "base_mid = 7322350"
definition base_ts :: u64 where "base_ts = 1711200000000000000"
definition spread_half :: i64 where "spread_half = 5"

definition tick_seed :: "nat \<Rightarrow> u64" where
  "tick_seed i = of_nat i * 6364136223846793005 + 1442695040888963407"

definition tick_noise :: "nat \<Rightarrow> f64" where
  "tick_noise i =
     (let seed = tick_seed i;
          raw = ((drop_bit 33 seed) XOR seed) * 0xff51afd7ed558ccd;
          uniform = f64_div (f64_of_u64 raw) (f64_of_u64 (- 1))
      in f64_mul (f64_sub uniform (1 / 2)) 2)"

definition next_mid :: "(f64 \<Rightarrow> f64) \<Rightarrow> nat \<Rightarrow> f64 \<Rightarrow> f64" where
  "next_mid sine i mid =
     (let x = f64_of_int (int i);
          wave = f64_mul (sine (f64_mul x (f64_rnd (785 / 10000)))) 500;
          drift = f64_mul (sine (f64_mul x (f64_rnd (157 / 10000)))) 300;
          jitter = f64_mul (tick_noise i) 20;
          base = f64_of_int base_mid;
          reversion = f64_mul (f64_sub base mid) (f64_rnd (5 / 100))
      in f64_add (f64_add (f64_add (f64_add base wave) drift) jitter) reversion)"

definition tick_qty :: "u64 \<Rightarrow> nat \<Rightarrow> qty" where
  "tick_qty seed d = (let depth_seed = seed + of_nat d * 17; qty_noise = drop_bit 40 depth_seed mod 20
     in 10000000 + of_nat d * 5000000 + qty_noise * 1000000)"

definition tick_bids :: "u64 \<Rightarrow> i64 \<Rightarrow> level list" where
  "tick_bids seed mid_int = map (\<lambda>d. \<lparr>lvl_price = i64_sub (i64_sub mid_int spread_half) (int d * 100),
     lvl_qty = tick_qty seed d\<rparr>) [0 ..< 20]"

definition tick_asks :: "u64 \<Rightarrow> i64 \<Rightarrow> level list" where
  "tick_asks seed mid_int = map (\<lambda>d. \<lparr>lvl_price = i64_add (i64_add mid_int spread_half) (int d * 100),
     lvl_qty = tick_qty seed d\<rparr>) [0 ..< 20]"

definition data_symbol :: symbol where
  "data_symbol = symbol_new ''BTC'' ''USDT'' Binance"

definition data_source :: node_id where
  "data_source = replicate 32 0"

definition tick_ts :: "nat \<Rightarrow> u64" where
  "tick_ts i = base_ts + of_nat i * 100000000"

definition book_event :: "nat \<Rightarrow> u64 \<Rightarrow> i64 \<Rightarrow> event" where
  "book_event i sq mid_int = event_new sq (tick_ts i) data_source (OrderBookUpdate
     \<lparr>obu_symbol = data_symbol, obu_bids = tick_bids (tick_seed i) mid_int, obu_asks = tick_asks (tick_seed i) mid_int,
      obu_is_snapshot = True, obu_exchange_ts = tick_ts i\<rparr>)"

definition trade_event_of :: "nat \<Rightarrow> u64 \<Rightarrow> i64 \<Rightarrow> event" where
  "trade_event_of i sq mid_int =
     (let trade_seed = tick_seed i * 0x9e3779b97f4a7c15;
          is_buy = drop_bit 63 trade_seed = 0;
          aggression = u64_as_i64 (drop_bit 50 trade_seed mod 5);
          trade_price = (if is_buy then i64_add (i64_add mid_int spread_half) (aggression * 100)
                         else i64_sub (i64_sub mid_int spread_half) (aggression * 100));
          trade_qty = 1000000 + (drop_bit 32 trade_seed mod 20) * 500000;
          ts = tick_ts i + 50000000
      in event_new sq ts data_source (Trade \<lparr>te_symbol = data_symbol, te_price = trade_price, te_qty = trade_qty,
           te_side = (if is_buy then Buy else Sell), te_exchange_ts = ts\<rparr>))"

definition tick_events :: "nat \<Rightarrow> u64 \<Rightarrow> i64 \<Rightarrow> event list" where
  "tick_events i sq mid_int = book_event i sq mid_int # (if i mod 3 = 0 then [trade_event_of i (sq + 1) mid_int] else [])"

fun generate :: "(f64 \<Rightarrow> f64) \<Rightarrow> nat list \<Rightarrow> u64 \<Rightarrow> f64 \<Rightarrow> event list" where
  "generate sine [] sq mid = []"
| "generate sine (i # is) sq mid =
     (let mid = next_mid sine i mid; evs = tick_events i sq (saturate_i64 (f64_trunc mid))
      in evs @ generate sine is (sq + of_nat (length evs)) mid)"

definition data_events :: "(f64 \<Rightarrow> f64) \<Rightarrow> event list" where
  "data_events sine = generate sine [0 ..< 10000] 1 (f64_of_int base_mid)"

text \<open>\<^term>\<open>None\<close>: an \<open>append\<close> fails and \<open>unwrap\<close> panics.\<close>

definition generate_backtest_data :: "(f64 \<Rightarrow> f64) \<Rightarrow> (event \<Rightarrow> string + u8 list) \<Rightarrow> files \<Rightarrow> files option" where
  "generate_backtest_data sine enc fs =
     (let path = ''data/backtest_10k.log'';
          fs = fs(path := None);
          (l, fs) = log_open path fs
      in case append_all enc (data_events sine) l of
          (Inl _, _) \<Rightarrow> None
        | (Inr _, l) \<Rightarrow> Some (snd (log_flush l fs)))"

subsection \<open>The price stays in range\<close>

lemma f64_rnd_le: "\<bar>f64_rnd x\<bar> \<le> 2 * \<bar>x\<bar>"
  and f64_rnd_ge: "0 \<le> x \<Longrightarrow> x / 2 \<le> f64_rnd x"
proof -
  have "\<bar>x\<bar> / 2 ^ 53 \<le> \<bar>x\<bar> / 2" by simp
  then have e: "\<bar>f64_rnd x - x\<bar> \<le> \<bar>x\<bar> / 2" using f64_rnd_error [of x] by linarith
  then show "\<bar>f64_rnd x\<bar> \<le> 2 * \<bar>x\<bar>" by linarith
  show "0 \<le> x \<Longrightarrow> x / 2 \<le> f64_rnd x" using e by linarith
qed

lemma f64_ops_le:
  "\<bar>a\<bar> \<le> x \<Longrightarrow> \<bar>b\<bar> \<le> y \<Longrightarrow> \<bar>f64_add a b\<bar> \<le> 2 * (x + y)"
  "\<bar>a\<bar> \<le> x \<Longrightarrow> \<bar>b\<bar> \<le> y \<Longrightarrow> \<bar>f64_sub a b\<bar> \<le> 2 * (x + y)"
  "\<bar>a\<bar> \<le> x \<Longrightarrow> \<bar>b\<bar> \<le> y \<Longrightarrow> \<bar>f64_mul a b\<bar> \<le> 2 * (x * y)"
proof -
  assume ab: "\<bar>a\<bar> \<le> x" "\<bar>b\<bar> \<le> y"
  have r: "\<bar>f64_rnd z\<bar> \<le> 2 * c" if "\<bar>z\<bar> \<le> c" for z c
    by (rule order_trans [OF f64_rnd_le]) (use that in simp)
  show "\<bar>f64_add a b\<bar> \<le> 2 * (x + y)" unfolding f64_add_def
    by (rule r, rule order_trans [OF abs_triangle_ineq add_mono [OF ab]])
  show "\<bar>f64_sub a b\<bar> \<le> 2 * (x + y)" unfolding f64_sub_def
    by (rule r, rule order_trans [OF abs_triangle_ineq4 add_mono [OF ab]])
  have "\<bar>a * b\<bar> \<le> x * y" using ab by (simp add: abs_mult mult_mono)
  then show "\<bar>f64_mul a b\<bar> \<le> 2 * (x * y)" unfolding f64_mul_def by (rule r)
qed

lemma noise_le: "\<bar>tick_noise i\<bar> \<le> 100"
proof -
  define raw where "raw = ((drop_bit 33 (tick_seed i)) XOR tick_seed i) * 0xff51afd7ed558ccd"
  let ?m = "of_nat (unat (- 1 :: u64)) :: rat"
  have "unat raw \<le> unat (- 1 :: u64)" by (simp flip: word_le_nat_alt)
  then have "(of_nat (unat raw) :: rat) \<le> ?m" by (simp only: of_nat_le_iff)
  then have a: "\<bar>f64_of_u64 raw\<bar> \<le> 2 * ?m"
    using f64_rnd_le [of "of_nat (unat raw)"] by (simp add: f64_of_u64_def)
  have m: "0 < ?m" by (simp add: unat_gt_0)
  then have b: "?m / 2 \<le> f64_of_u64 (- 1)" unfolding f64_of_u64_def by (intro f64_rnd_ge) simp
  have "\<bar>f64_of_u64 raw / f64_of_u64 (- 1)\<bar> \<le> 4"
    using a b m by (simp add: abs_divide divide_le_eq)
  then have "\<bar>f64_div (f64_of_u64 raw) (f64_of_u64 (- 1))\<bar> \<le> 8"
    using f64_rnd_le [of "f64_of_u64 raw / f64_of_u64 (- 1)"] by (simp add: f64_div_def)
  from f64_ops_le(2) [OF this, of "1 / 2" "1 / 2"]
  have "\<bar>f64_sub (f64_div (f64_of_u64 raw) (f64_of_u64 (- 1))) (1 / 2)\<bar> \<le> 17" by simp
  from f64_ops_le(3) [OF this, of 2 2] show ?thesis by (simp add: tick_noise_def Let_def raw_def)
qed

definition sine_like :: "(f64 \<Rightarrow> f64) \<Rightarrow> bool" where
  "sine_like sine \<longleftrightarrow> (\<forall>x. \<bar>sine x\<bar> \<le> 1)"

lemma next_mid_le:
  assumes "sine_like sine" and "\<bar>mid\<bar> \<le> 2 ^ 40"
  shows "\<bar>next_mid sine i mid\<bar> \<le> 2 ^ 40"
proof -
  have s: "\<bar>sine x\<bar> \<le> 1" for x using assms(1) by (simp add: sine_like_def)
  have base: "\<bar>f64_of_int base_mid\<bar> \<le> 7322350" by (simp add: base_mid_def f64_of_int_exact)
  have f: "\<bar>f64_rnd (5 / 100)\<bar> \<le> 1 / 10" using f64_rnd_le [of "5 / 100"] by simp
  have w: "\<bar>f64_mul (sine x) 500\<bar> \<le> 1000" "\<bar>f64_mul (sine x) 300\<bar> \<le> 600" for x
    using f64_ops_le(3) [OF s [of x], of 500 500] f64_ops_le(3) [OF s [of x], of 300 300] by simp_all
  have j: "\<bar>f64_mul (tick_noise i) 20\<bar> \<le> 4000" using f64_ops_le(3) [OF noise_le, of 20 20] by simp
  have r: "\<bar>f64_mul (f64_sub (f64_of_int base_mid) mid) (f64_rnd (5 / 100))\<bar> \<le> 2 * (2 * (7322350 + 2 ^ 40) * (1 / 10))"
    by (rule f64_ops_le(3) [OF f64_ops_le(2) [OF base assms(2)] f])
  show ?thesis
    unfolding next_mid_def Let_def
    by (rule order_trans [OF f64_ops_le(1) [OF f64_ops_le(1) [OF f64_ops_le(1) [OF f64_ops_le(1) [OF base w(1)] w(2)] j] r]]) simp
qed

lemma mid_int_le:
  assumes "\<bar>mid\<bar> \<le> 2 ^ 40"
  shows "\<bar>saturate_i64 (f64_trunc mid)\<bar> \<le> 2 ^ 41"
proof -
  have le: "(2 :: int) ^ 40 \<le> 2 ^ 41" by simp
  have m: "mid \<le> 2 ^ 40" "- (2 ^ 40) \<le> mid" using assms by (simp_all add: abs_le_iff)
  have "\<bar>f64_trunc mid\<bar> \<le> 2 ^ 41"
  proof (cases "0 \<le> mid")
    case True
    moreover have "\<lfloor>mid\<rfloor> \<le> 2 ^ 40" using m by (simp add: floor_le_iff)
    moreover have "0 \<le> \<lfloor>mid\<rfloor>" using True by simp
    ultimately show ?thesis by (simp only: f64_trunc_def if_True) (use le in linarith)
  next
    case False
    moreover have "- (2 ^ 40) \<le> \<lceil>mid\<rceil>" using m by (simp add: le_ceiling_iff)
    moreover have "\<lceil>mid\<rceil> \<le> 0" using False by simp
    ultimately show ?thesis by (simp only: f64_trunc_def if_False) (use le in linarith)
  qed
  moreover from this have "in_i64 (f64_trunc mid)" by (intro in_i64_absI) simp
  ultimately show ?thesis by simp
qed

subsection \<open>The events\<close>

definition data_event_ok :: "event \<Rightarrow> bool" where
  "data_event_ok ev = (case ev_payload ev of
     OrderBookUpdate b \<Rightarrow> obu_is_snapshot b \<and> length (obu_bids b) = 20 \<and> length (obu_asks b) = 20 \<and>
       sorted_wrt (>) (map lvl_price (obu_bids b)) \<and> sorted_wrt (<) (map lvl_price (obu_asks b)) \<and>
       lvl_price (hd (obu_asks b)) = lvl_price (hd (obu_bids b)) + 10 \<and>
       (\<forall>l \<in> set (obu_bids b) \<union> set (obu_asks b). 0 < lvl_qty l)
   | Trade t \<Rightarrow> 0 < te_qty t
   | _ \<Rightarrow> False)"

lemma tick_qty_pos:
  assumes "d < 20"
  shows "0 < tick_qty seed d"
proof -
  let ?n = "drop_bit 40 (seed + of_nat d * 17) mod 20 :: u64"
  have n: "unat ?n < 20" by (simp add: unat_mod)
  have "unat (?n * 1000000) = unat ?n * 1000000" "unat (of_nat d * 5000000 :: u64) = d * 5000000"
    using n assms by (subst unat_mult_lem [THEN iffD1]; simp add: unat_of_nat)+
  then have "unat (10000000 + of_nat d * 5000000 + ?n * 1000000) = 10000000 + d * 5000000 + unat ?n * 1000000"
    using n assms by (simp add: unat_word_ariths)
  then show ?thesis unfolding tick_qty_def Let_def word_less_nat_alt by simp
qed

lemma tick_prices:
  assumes "\<bar>m\<bar> \<le> 2 ^ 41"
  shows "map lvl_price (tick_bids seed m) = map (\<lambda>d. m - 5 - int d * 100) [0 ..< 20]"
    and "map lvl_price (tick_asks seed m) = map (\<lambda>d. m + 5 + int d * 100) [0 ..< 20]"
proof -
  have "i64_sub (i64_sub m spread_half) (int d * 100) = m - 5 - int d * 100"
    "i64_add (i64_add m spread_half) (int d * 100) = m + 5 + int d * 100" if "d < 20" for d
  proof -
    have "in_i64 (m - 5)" "in_i64 (m - 5 - int d * 100)" "in_i64 (m + 5)" "in_i64 (m + 5 + int d * 100)"
      using assms that by (intro in_i64_absI; simp add: abs_le_iff abs_less_iff)+
    then show "i64_sub (i64_sub m spread_half) (int d * 100) = m - 5 - int d * 100"
      "i64_add (i64_add m spread_half) (int d * 100) = m + 5 + int d * 100"
      by (simp_all add: spread_half_def i64_sub_exact i64_add_exact)
  qed
  then show "map lvl_price (tick_bids seed m) = map (\<lambda>d. m - 5 - int d * 100) [0 ..< 20]"
    "map lvl_price (tick_asks seed m) = map (\<lambda>d. m + 5 + int d * 100) [0 ..< 20]"
    by (simp_all add: tick_bids_def tick_asks_def del: upt.simps(2))
qed

lemma book_event_ok:
  assumes "\<bar>m\<bar> \<le> 2 ^ 41"
  shows "data_event_ok (book_event i sq m)"
proof -
  note p = tick_prices [OF assms, of "tick_seed i"]
  have ne: "tick_bids (tick_seed i) m \<noteq> []" "tick_asks (tick_seed i) m \<noteq> []"
    by (simp_all add: tick_bids_def tick_asks_def)
  have "lvl_price (hd (tick_bids (tick_seed i) m)) = m - 5" "lvl_price (hd (tick_asks (tick_seed i) m)) = m + 5"
    using p by (simp_all add: hd_map [OF ne(1), symmetric] hd_map [OF ne(2), symmetric] upt_rec [of 0 20] del: upt.simps(2))
  moreover have "sorted_wrt (>) (map lvl_price (tick_bids (tick_seed i) m))" "sorted_wrt (<) (map lvl_price (tick_asks (tick_seed i) m))"
    unfolding p by (simp_all add: sorted_wrt_map sorted_wrt_iff_nth_less del: upt.simps(2))
  moreover have "length (tick_bids (tick_seed i) m) = 20" "length (tick_asks (tick_seed i) m) = 20"
    by (simp_all add: tick_bids_def tick_asks_def)
  moreover have "\<forall>l \<in> set (tick_bids (tick_seed i) m) \<union> set (tick_asks (tick_seed i) m). 0 < lvl_qty l"
    using tick_qty_pos by (auto simp: tick_bids_def tick_asks_def simp del: upt.simps(2))
  ultimately show ?thesis by (simp add: data_event_ok_def book_event_def del: sorted_wrt_map)
qed

lemma trade_event_ok: "data_event_ok (trade_event_of i sq m)"
proof -
  define n where "n = (drop_bit 32 (tick_seed i * 0x9e3779b97f4a7c15) mod 20 :: u64)"
  have n: "unat n < 20" by (simp add: n_def unat_mod)
  then have "unat (n * 500000) = unat n * 500000" by (subst unat_mult_lem [THEN iffD1]) simp_all
  then have "unat (1000000 + n * 500000) = 1000000 + unat n * 500000" using n by (simp add: unat_word_ariths)
  then have "0 < 1000000 + n * 500000" by (simp add: word_less_nat_alt)
  then show ?thesis by (simp add: data_event_ok_def trade_event_of_def Let_def n_def)
qed

lemma tick_events_ok: "\<bar>m\<bar> \<le> 2 ^ 41 \<Longrightarrow> ev \<in> set (tick_events i sq m) \<Longrightarrow> data_event_ok ev"
  by (auto simp: tick_events_def book_event_ok trade_event_ok split: if_splits)

lemma generate_ok:
  assumes "sine_like sine" and "\<bar>mid\<bar> \<le> 2 ^ 40" and "ev \<in> set (generate sine is sq mid)"
  shows "data_event_ok ev"
  using assms(2,3)
proof (induction "is" arbitrary: sq mid)
  case (Cons i "is")
  note mid = next_mid_le [OF assms(1) Cons.prems(1), of i]
  from Cons.prems(2) show ?case
    using tick_events_ok [OF mid_int_le [OF mid]] Cons.IH [OF mid] by (auto simp: Let_def)
qed simp

lemma tick_events_seq: "map ev_seq (tick_events i sq m) = map (\<lambda>k. sq + of_nat k) [0 ..< length (tick_events i sq m)]"
  by (simp add: tick_events_def book_event_def trade_event_of_def Let_def)

lemma generate_seq:
  "map ev_seq (generate sine is sq mid) = map (\<lambda>k. sq + of_nat k) [0 ..< length (generate sine is sq mid)]"
proof (induction "is" arbitrary: sq mid)
  case (Cons i "is")
  have split: "map (\<lambda>k. sq + of_nat k) [0 ..< n + m] = map (\<lambda>k. sq + of_nat k) [0 ..< n] @ map (\<lambda>k. sq + of_nat n + of_nat k) [0 ..< m]"
    for n m and sq :: u64
    by (rule nth_equalityI) (auto simp: nth_append)
  show ?case by (simp add: Let_def Cons.IH tick_events_seq split)
qed simp

lemma generate_length:
  "length (generate sine is sq mid) = length is + length (filter (\<lambda>i. i mod 3 = 0) is)"
  by (induction "is" arbitrary: sq mid) (simp_all add: Let_def tick_events_def)

lemma every_third: "length (filter (\<lambda>i. i mod 3 = 0) [0 ..< n]) = (n + 2) div 3"
  by (induction n) (simp, simp, presburger)

text \<open>The timestamps of a tick lie between its time and that of the next one.\<close>

definition tick_time :: "nat \<Rightarrow> nat" where
  "tick_time i = 1711200000000000000 + i * 100000000"

lemma unat_tick_ts:
  assumes "i < 10000"
  shows "unat (tick_ts i) = tick_time i" and "unat (tick_ts i + 50000000) = tick_time i + 50000000"
proof -
  have "unat (of_nat i * 100000000 :: u64) = i * 100000000"
    using assms by (subst unat_mult_lem [THEN iffD1]) (simp_all add: unat_of_nat)
  then show a: "unat (tick_ts i) = tick_time i"
    using assms by (simp add: tick_ts_def base_ts_def tick_time_def unat_word_ariths)
  show "unat (tick_ts i + 50000000) = tick_time i + 50000000"
    using assms a by (simp add: unat_word_ariths tick_time_def)
qed

lemma tick_events_times:
  assumes "i < 10000"
  shows "sorted_wrt (<) (map (\<lambda>ev. unat (ev_timestamp ev)) (tick_events i sq m)) \<and>
    (\<forall>ev \<in> set (tick_events i sq m). tick_time i \<le> unat (ev_timestamp ev) \<and> unat (ev_timestamp ev) < tick_time (Suc i))"
  using unat_tick_ts [OF assms]
  by (simp add: tick_events_def book_event_def trade_event_of_def Let_def tick_time_def)

lemma generate_times:
  assumes "b \<le> 10000"
  shows "sorted_wrt (<) (map (\<lambda>ev. unat (ev_timestamp ev)) (generate sine [a ..< b] sq mid)) \<and>
    (\<forall>ev \<in> set (generate sine [a ..< b] sq mid). tick_time a \<le> unat (ev_timestamp ev))"
proof (induction "b - a" arbitrary: a sq mid)
  case (Suc n)
  then have a: "a < b" "n = b - Suc a" by simp_all
  let ?m = "saturate_i64 (f64_trunc (next_mid sine a mid))"
  note tick = tick_events_times [of a sq ?m]
  have mono: "tick_time a \<le> tick_time (Suc a)" by (simp add: tick_time_def)
  show ?case
    using Suc.hyps(1) [OF a(2), of "sq + of_nat (length (tick_events a sq ?m))" "next_mid sine a mid"] tick a(1) assms mono
    by (fastforce simp: upt_conv_Cons Let_def sorted_wrt_append)
qed simp

text \<open>C31: The generated data set: 13334 events, numbered from 1 without a gap, with strictly increasing
  timestamps; every book is a snapshot of 20 levels a side, sorted, with the best bid 10 below the best ask
  and no empty level; and it is what reading the file back gives.\<close>

theorem generated_data_wellformed:
  assumes "sine_like sine" and "codec_for enc dec (data_events sine)"
  shows "length (data_events sine) = 13334 \<and>
    map ev_seq (data_events sine) = map (\<lambda>k. 1 + of_nat k) [0 ..< 13334] \<and>
    sorted_wrt (<) (map (\<lambda>ev. unat (ev_timestamp ev)) (data_events sine)) \<and>
    (\<forall>ev \<in> set (data_events sine). data_event_ok ev) \<and>
    (\<exists>fs'. generate_backtest_data sine enc fs = Some fs' \<and>
      log_read_all dec fs' (log_read_only ''data/backtest_10k.log'') = Inr (data_events sine))"
proof -
  have len: "length (data_events sine) = 13334"
    by (simp add: data_events_def generate_length every_third del: upt.simps(2))
  have "\<bar>f64_of_int base_mid\<bar> \<le> 2 ^ 40" by (simp add: base_mid_def f64_of_int_exact)
  then have ok: "\<forall>ev \<in> set (data_events sine). data_event_ok ev"
    using generate_ok [OF assms(1)] unfolding data_events_def by blast
  have "map ev_seq (data_events sine) = map (\<lambda>k. 1 + of_nat k) [0 ..< 13334]"
    using generate_seq [of sine "[0 ..< 10000]" 1 "f64_of_int base_mid"] unfolding data_events_def [symmetric] len .
  moreover have "read_frames dec (frames enc (data_events sine)) = Inr (data_events sine)"
    using read_frames_all [OF assms(2), of "[]"] by (simp add: read_frames_short)
  then have "\<exists>fs'. generate_backtest_data sine enc fs = Some fs' \<and>
      log_read_all dec fs' (log_read_only ''data/backtest_10k.log'') = Inr (data_events sine)"
    using append_all_frames [OF assms(2), of "\<lparr>el_writable = True, el_path = ''data/backtest_10k.log'', el_buffered = [], el_event_count = 0\<rparr>"]
    by (simp add: generate_backtest_data_def log_open_def log_flush_def log_read_all_def log_read_only_def Let_def)
  ultimately show ?thesis
    using len ok generate_times [of 10000 sine 0 1 "f64_of_int base_mid"] by (simp add: data_events_def del: upt.simps(2))
qed

text \<open>A decoder that looks the event up by the number its encoding carries.\<close>

definition data_enc :: "event \<Rightarrow> string + u8 list" where
  "data_enc ev = Inr (le_list 2 (unat (ev_seq ev)))"

definition data_dec :: "u8 list \<Rightarrow> string + event" where
  "data_dec bs = Inr (data_events (\<lambda>_. 0) ! (from_le_bytes bs - 1))"

lemma data_codec: "codec_for data_enc data_dec (data_events (\<lambda>_. 0))"
proof -
  let ?evs = "data_events (\<lambda>_. 0)"
  have len: "length ?evs = 13334"
    by (simp add: data_events_def generate_length every_third del: upt.simps(2))
  have "unat (ev_seq (?evs ! k)) = Suc k" if "k < 13334" for k
  proof -
    have "map ev_seq ?evs ! k = 1 + of_nat k"
      using generate_seq [of "\<lambda>_. 0" "[0 ..< 10000]" 1 "f64_of_int base_mid"] that unfolding data_events_def [symmetric] len by simp
    then have "ev_seq (?evs ! k) = 1 + of_nat k" using that len by simp
    then show ?thesis using that by (simp add: unat_word_ariths unat_of_nat)
  qed
  moreover have "length (le_list 2 n) = 2" for n by (simp add: numeral_2_eq_2)
  ultimately show ?thesis
    using len by (auto simp: codec_for_def data_enc_def data_dec_def in_set_conv_nth from_le_list)
qed

theorem generated_data_wellformed_witness:
  "\<exists>fs'. generate_backtest_data (\<lambda>_. 0) data_enc (\<lambda>_. None) = Some fs' \<and>
    log_read_all data_dec fs' (log_read_only ''data/backtest_10k.log'') = Inr (data_events (\<lambda>_. 0)) \<and>
    length (data_events (\<lambda>_. 0)) = 13334"
  using generated_data_wellformed [OF _ data_codec] by (simp add: sine_like_def)

end
