(* ===== verification/Spec2Isabelle.thy ===== *)
theory Spec2Isabelle
  imports Prelude Rust_Int Containers Core_Types Core_Event Clock Core_Snapshot Ring Sequencer Book
    Replica Order_State Execution Simulator Risk Event_Log Recovery Signals Strategy Market_Maker
    Rust_Float Feed Router Node_Config Hotpath Sim_Execution Backtest
    Metrics Transport Dashboard Node_Pnl Node_Live Node_Safety Node_Start
    Rust_Text Json Ws_Task Binance_Feed Gateway Gateway_Engine Node_Replay Backtest_Data
begin

text \<open>
  Verification library for atomic-mesh, a deterministic market-making engine in Rust
  (\<open>src/crates\<close>). A node takes market data from an exchange, keeps order books, lets a C++ quoting
  engine and Rust strategies decide, checks every order in a risk engine, tracks orders in a state
  machine, logs every event, and can be recovered from a snapshot and the log, replayed, or run as
  a backtest against a simulated exchange. Nodes exchange messages over a mesh.

  \<^bold>\<open>How the code is modelled.\<close> A struct is a record, an enum a datatype, each method a function of the
  same name on the state. \<open>u64\<close>, \<open>u32\<close>, \<open>u8\<close> are words; \<open>i64\<close> and \<open>i128\<close> are integers with the
  wrap-around of a release build written out (Rust_Int); \<open>f64\<close> is a rational rounded after
  every operation (Rust_Float), and its decimal text is in Rust_Text. \<open>Result\<close> is a sum with the
  error on the left; a panic is \<^term>\<open>None\<close>. A \<open>BTreeMap\<close> is a sorted association list, a \<open>HashMap\<close>
  an association list in its hash order (Containers), so that what depends on the hash order shows.
  Strings are lists of bytes and letters are ASCII.

  \<^bold>\<open>Theories and sources.\<close>
  \<^item> atomic-core: Core_Types (types.rs, node.rs, error.rs), Core_Event (event.rs), Clock (clock.rs,
    with the CAS loop of the Lamport clock interleaved), Core_Snapshot (snapshot.rs), Metrics
    (metrics.rs, \<open>record\<close> also as single atomic accesses). The \<open>f64\<close> conversions of types.rs are in Feed.
  \<^item> atomic-bus: Ring (ring.rs: the sequential operations refine a bounded queue; the interleaved
    steps of one producer and one consumer are race-free) and Sequencer (sequencer.rs).
  \<^item> atomic-orderbook: Book (book.rs); Replica relates books that get the same updates.
  \<^item> atomic-execution: Order_State and Execution (state_machine.rs), Simulator (simulator.rs).
    \<open>order_moves\<close> is the abstract specification of one order; \<open>process_event\<close> refines it.
    Sim_Execution composes the exchange with the engine.
  \<^item> atomic-risk: Risk (limits.rs). atomic-router: Router (router.rs).
  \<^item> atomic-replay: Event_Log (log.rs, player.rs).
  \<^item> atomic-strategy: Signals (microprice.rs, inventory.rs, toxicity.rs), Strategy (engine.rs,
    traits.rs), Market_Maker (market_maker.rs). atomic-hotpath: Hotpath (lib.rs).
  \<^item> atomic-feed: Feed (connector.rs, normalizer.rs), Binance_Feed (binance.rs), Gateway (gateway.rs).
    Json has the values of its messages and Ws_Task what its two reconnecting tasks share.
  \<^item> atomic-transport: Transport (protocol.rs, mesh.rs).
  \<^item> atomic-node: Node_Config (config.rs), Recovery (recovery.rs), Dashboard (dashboard.rs), and main.rs in
    Backtest (the backtest; Backtest_Data is the program that generates its data), Node_Pnl (the profit of the live loop), Node_Live (the live loop, one
    definition per branch of its \<open>select!\<close>), Node_Start (recovery, start-up, replay mode).

  \<^bold>\<open>How the parts interact.\<close> \<open>Node_Live.node_step\<close> is one turn of the live loop on the node's state: a
  feed event is stamped, logged, put into the book, executed, shown to the hot path and the
  strategies, and the resulting commands go through \<open>check_order\<close> to \<open>register_order\<close>, the log and the
  gateway; a gateway event is executed, logged, booked in the profit and reported to the risk
  engine; a mesh message is executed and logged; a heartbeat cancels stale orders, resets the day
  and saves snapshots. \<open>Gateway_Engine.gateway_events\<close> is what the exchange answers to the calls the
  loop made. \<open>Node_Start.recover\<close> and \<open>run_replay\<close> read what the loop logged.

  \<^bold>\<open>What is shown.\<close> For each component, its invariant and that every operation keeps it, and the
  result of every operation on every branch, errors included. Across components: a backtest keeps the exchange
  and the engine in agreement (Backtest); along every run of the live loop a killed node places
  nothing, the risk engine and the profit book agree and every order sent is registered
  (Node_Safety); the log of every run of the live loop replays to the live orders, up to timestamps
  (Node_Replay); the engine accepts what the gateway makes of a response, and the request carries
  the order's exact numbers (Gateway_Engine). Some properties state where the code falls short of its
  intent: a torn log, a gain counted twice, a refused fill that is booked, an answer that recovery drops.

  \<^bold>\<open>Interfaces.\<close> Locales state what one part relies on of another and are interpreted on the model:
  the maps of Containers, clocks and sequencers as increasing sources (Clock), the queue that the ring
  implements, replicas that get the same operations (Replica), the latches of the risk engine, the contract of a strategy towards
  its engine, the relations every step of the live loop keeps (\<open>node_relation\<close>), and the reconnecting
  task (\<open>reconnecting\<close>, \<open>numbered_task\<close>) of the feed and of the user data stream.

  \<^bold>\<open>Parameters and hypotheses.\<close> Code outside the repository is an argument: bincode and serde_json
  (encoders, decoders; where needed, that decoding inverts encoding on the events at hand,
  \<open>codec_for\<close>, and that events can be encoded, \<open>total_encoder\<close>), xxh3, the C++ engine (\<open>hp_engine\<close>), the
  clock, HTTP, HMAC and sockets (what their calls return). Bounds in statements are those beyond
  which the machine types wrap: fewer than \<open>2^64\<close> or \<open>2^63\<close> events, prices and quantities up to \<open>2^50\<close> and 15
  decimals where \<open>f64\<close> must be exact, 100000 events where the deduplicator forgets. Fuel occurs in \<open>play\<close> and
  \<open>replay_loop\<close>, whose calls are the events of the log and one more; the theorems show that this
  reaches the end.

  \<^bold>\<open>Not modelled.\<close> The command line, logging, the text and timing of reports, latencies and the pushes
  to the dashboard; the HTTP and WebSocket server of the dashboard; QUIC, TLS certificates and the
  accept loop of the mesh; the keep-alive request of the user data stream; the C++ engine; JSON parsing; infinities and NaN of \<open>f64\<close>, which could enter only as text of the exchange, and the float ratios
  \<open>fill_pct\<close> and \<open>progress_pct\<close>, which are only displayed.
\<close>

end
